theory Spec2Isabelle
  imports Main "HOL-Library.Word"
begin

unbundle bit_operations_syntax

section \<open>The UTrie3 builder of \<^verbatim>\<open>icu4c/source/common/utrie3builder.cpp\<close>\<close>

text \<open>
  A shallow embedding of the build-time code point trie. Values are 32-bit words; code
  points, slot numbers and offsets are the source's \<^verbatim>\<open>int32_t\<close> / \<^verbatim>\<open>UChar32\<close>, written as
  \<^typ>\<open>int\<close> (every quantity of the builder stays below \<open>2 ^ 31\<close>, so no signed
  arithmetic overflows). A C array is a function from its \<^typ>\<open>int\<close> offsets to its
  elements, so that a read or write outside the allocated part is an ordinary read or write
  of the model at that offset and bounds are proved, not assumed.
\<close>

type_synonym u8 = "8 word"
type_synonym u16 = "16 word"
type_synonym u32 = "32 word"

subsection \<open>Constants\<close>

text \<open>
  Modelled from the spec: the shape constants of \<^verbatim>\<open>utrie3.h\<close> and \<^verbatim>\<open>utrie3_impl.h\<close>, which
  are not part of the source file (section 3.1 of the specification gives their values).
\<close>

abbreviation UTRIE3_SHIFT_1 :: nat where "UTRIE3_SHIFT_1 \<equiv> 13"
abbreviation UTRIE3_SHIFT_2 :: nat where "UTRIE3_SHIFT_2 \<equiv> 4"
abbreviation UTRIE3_SHIFT_1_2 :: nat where "UTRIE3_SHIFT_1_2 \<equiv> 9"
abbreviation UTRIE3_INDEX_SHIFT :: nat where "UTRIE3_INDEX_SHIFT \<equiv> 1"
abbreviation UTRIE3_DATA_BLOCK_LENGTH :: int where "UTRIE3_DATA_BLOCK_LENGTH \<equiv> 16"
abbreviation UTRIE3_DATA_MASK :: int where "UTRIE3_DATA_MASK \<equiv> 15"
abbreviation UTRIE3_DATA_GRANULARITY :: int where "UTRIE3_DATA_GRANULARITY \<equiv> 2"
abbreviation UTRIE3_CP_PER_INDEX_1_ENTRY :: int where "UTRIE3_CP_PER_INDEX_1_ENTRY \<equiv> 8192"
abbreviation UTRIE3_INDEX_2_BLOCK_LENGTH :: int where "UTRIE3_INDEX_2_BLOCK_LENGTH \<equiv> 512"
abbreviation UTRIE3_INDEX_2_BMP_LENGTH :: int where "UTRIE3_INDEX_2_BMP_LENGTH \<equiv> 4096"
abbreviation UTRIE3_OMITTED_BMP_INDEX_1_LENGTH :: int where
  "UTRIE3_OMITTED_BMP_INDEX_1_LENGTH \<equiv> 8"
abbreviation UTRIE3_NO_INDEX2_NULL_OFFSET :: int where "UTRIE3_NO_INDEX2_NULL_OFFSET \<equiv> 0xFFFF"
abbreviation UTRIE3_NO_DATA_NULL_OFFSET :: int where "UTRIE3_NO_DATA_NULL_OFFSET \<equiv> 0xFFFFF"

text \<open>The constants the source file declares itself.\<close>

abbreviation MAX_UNICODE :: int where "MAX_UNICODE \<equiv> 0x10FFFF"
abbreviation UNICODE_LIMIT :: int where "UNICODE_LIMIT \<equiv> 0x110000"
abbreviation BMP_LIMIT :: int where "BMP_LIMIT \<equiv> 0x10000"
abbreviation ASCII_LIMIT :: int where "ASCII_LIMIT \<equiv> 0x80"
abbreviation I_LIMIT :: int where "I_LIMIT \<equiv> 69632"
abbreviation BMP_I_LIMIT :: int where "BMP_I_LIMIT \<equiv> 4096"
abbreviation ASCII_I_LIMIT :: int where "ASCII_I_LIMIT \<equiv> 8"

abbreviation ALL_SAME :: u8 where "ALL_SAME \<equiv> 0"
abbreviation MIXED :: u8 where "MIXED \<equiv> 1"
abbreviation SAME_AS :: u8 where "SAME_AS \<equiv> 2"
abbreviation MOVED :: u8 where "MOVED \<equiv> 3"
abbreviation TYPE_MASK :: u8 where "TYPE_MASK \<equiv> 3"
abbreviation SUPP_DATA :: u8 where "SUPP_DATA \<equiv> 0x10"

abbreviation UNEWTRIE3_INITIAL_DATA_LENGTH :: int where "UNEWTRIE3_INITIAL_DATA_LENGTH \<equiv> 16384"
abbreviation UNEWTRIE3_MEDIUM_DATA_LENGTH :: int where "UNEWTRIE3_MEDIUM_DATA_LENGTH \<equiv> 131072"
abbreviation UNEWTRIE3_MAX_DATA_LENGTH :: int where "UNEWTRIE3_MAX_DATA_LENGTH \<equiv> 0x110000"

subsection \<open>Status codes\<close>

datatype UErrorCode =
    U_ZERO_ERROR
  | U_ILLEGAL_ARGUMENT_ERROR
  | U_MEMORY_ALLOCATION_ERROR
  | U_INDEX_OUTOFBOUNDS_ERROR
  | U_NO_WRITE_PERMISSION
  | U_INVALID_FORMAT_ERROR

fun U_FAILURE :: "UErrorCode \<Rightarrow> bool" where
  "U_FAILURE U_ZERO_ERROR = False"
| "U_FAILURE _ = True"

text \<open>
  Modelled from the spec: the enum \<^verbatim>\<open>UTrie3ValueBits\<close> of \<^verbatim>\<open>utrie3.h\<close>, by the integer values
  that section 4.6 of the specification gives for the header (0 for 16-bit values, 1 for
  32-bit values).
\<close>

definition UTRIE3_16_VALUE_BITS :: int where [simp]: "UTRIE3_16_VALUE_BITS = 0"
definition UTRIE3_32_VALUE_BITS :: int where [simp]: "UTRIE3_32_VALUE_BITS = 1"

subsection \<open>The two structs\<close>

text \<open>
  \<^verbatim>\<open>UNewTrie3\<close>: the per-slot arrays \<^verbatim>\<open>flags[I_LIMIT]\<close> and \<^verbatim>\<open>index[I_LIMIT]\<close>, and the block
  store \<^verbatim>\<open>data\<close> with its capacity and length.
\<close>

record UNewTrie3 =
  flags :: "int \<Rightarrow> u8"
  index :: "int \<Rightarrow> u32"
  data :: "int \<Rightarrow> u32"
  dataCapacity :: int
  dataLength :: int
  dataNullIndex :: int

text \<open>
  The serialized header that \<^verbatim>\<open>utrie3bld_freeze\<close> writes at the start of \<^verbatim>\<open>trie->memory\<close>.
\<close>

record UTrie3Header =
  signature :: u32
  options :: u32
  hdr_indexLength :: u16
  hdr_shiftedDataLength :: u16
  hdr_index2NullOffset :: u16
  hdr_shiftedHighStart :: u16
  hdr_highValue :: u32
  hdr_errorValue :: u32

text \<open>
  \<^verbatim>\<open>UTrie3\<close>. The pointer \<^verbatim>\<open>trie->newTrie\<close> is the pair of the builder it points to and
  \<open>newTrie_null\<close>, which says that the pointer is \<^verbatim>\<open>NULL\<close> (the trie is frozen). The
  serialized block \<^verbatim>\<open>trie->memory\<close> is \<open>None\<close> for \<^verbatim>\<open>NULL\<close> and otherwise its header;
  the arrays that follow the header are \<open>index16\<close> (\<^verbatim>\<open>trie->index\<close>) and \<open>data16\<close> or
  \<open>data32\<close>, each \<open>None\<close> for a \<^verbatim>\<open>NULL\<close> pointer. \<open>trie_dataLength\<close> is
  \<^verbatim>\<open>trie->dataLength\<close> and \<open>memLength\<close> is \<^verbatim>\<open>trie->length\<close>.
\<close>

record UTrie3 =
  index16 :: "u16 list option"
  data16 :: "u16 list option"
  data32 :: "u32 list option"
  indexLength :: int
  trie_dataLength :: int
  index2NullOffset :: int
  dataNullOffset :: int
  initialValue :: u32
  errorValue :: u32
  highValue :: u32
  highStart :: int
  highStartLead16 :: int
  shiftedHighStart :: int
  memory :: "UTrie3Header option"
  memLength :: int
  isMemoryOwned :: bool
  newTrie :: UNewTrie3
  newTrie_null :: bool

text \<open>
  \<^verbatim>\<open>uprv_malloc\<close> is the environment's: a request for a number of bytes either fails
  (\<open>None\<close>) or returns a fresh buffer with arbitrary contents.
\<close>

type_synonym allocator = "int \<Rightarrow> (int \<Rightarrow> u32) option"

subsection \<open>\<^verbatim>\<open>utrie3bld_open\<close>\<close>

text \<open>
  The argument \<open>alloc\<close> is the outcome of the three allocations of \<^verbatim>\<open>utrie3bld_open\<close>:
  \<open>None\<close> when one of them fails, otherwise the uninitialised builder and block store.
  The \<^verbatim>\<open>UTrie3\<close> itself is zeroed by \<^verbatim>\<open>uprv_memset\<close>.
\<close>

definition utrie3bld_open ::
  "UNewTrie3 option \<Rightarrow> u32 \<Rightarrow> u32 \<Rightarrow> UErrorCode \<Rightarrow> UErrorCode \<times> UTrie3 option" where
  "utrie3bld_open alloc initialValue' errorValue' pErrorCode =
     (if U_FAILURE pErrorCode then (pErrorCode, None)
      else case alloc of
        None \<Rightarrow> (U_MEMORY_ALLOCATION_ERROR, None)
      | Some mem \<Rightarrow>
          (pErrorCode,
           Some \<lparr> index16 = None, data16 = None, data32 = None,
                  indexLength = 0, trie_dataLength = 0,
                  index2NullOffset = UTRIE3_NO_INDEX2_NULL_OFFSET,
                  dataNullOffset = UTRIE3_NO_DATA_NULL_OFFSET,
                  initialValue = initialValue', errorValue = errorValue',
                  highValue = initialValue', highStart = 0,
                  highStartLead16 = 0, shiftedHighStart = 0,
                  memory = None, memLength = 0, isMemoryOwned = False,
                  newTrie = mem \<lparr> dataCapacity := UNEWTRIE3_INITIAL_DATA_LENGTH,
                                  dataLength := 0, dataNullIndex := -1 \<rparr>,
                  newTrie_null = False \<rparr>))"

subsection \<open>\<^verbatim>\<open>utrie3bld_get\<close>\<close>

text \<open>
  The cast \<^verbatim>\<open>(uint32_t)c > MAX_UNICODE\<close> of a 32-bit signed \<open>c\<close> is true exactly when
  \<open>c\<close> is negative or above \<open>0x10FFFF\<close>. The offset of a MIXED slot is read from the
  \<^verbatim>\<open>uint32_t\<close> array and added in unsigned arithmetic. The function's \<^verbatim>\<open>U_ASSERT\<close> that
  the trie is not frozen is its precondition.
\<close>

definition utrie3bld_get :: "UTrie3 \<Rightarrow> int \<Rightarrow> u32" where
  "utrie3bld_get trie c =
     (if c < 0 \<or> c > MAX_UNICODE then errorValue trie
      else if c \<ge> highStart trie then highValue trie
      else
        let i = drop_bit UTRIE3_SHIFT_2 c in
        if flags (newTrie trie) i = ALL_SAME then index (newTrie trie) i
        else data (newTrie trie)
               (uint (index (newTrie trie) i + word_of_int (c AND UTRIE3_DATA_MASK))))"

subsection \<open>Growing the represented range and the block store\<close>

function writeBlock :: "(int \<Rightarrow> u32) \<Rightarrow> int \<Rightarrow> int \<Rightarrow> u32 \<Rightarrow> (int \<Rightarrow> u32)" where
  "writeBlock d block limit v =
     (if block < limit then writeBlock (d(block := v)) (block + 1) limit v else d)"
  by pat_completeness auto
termination
  by (relation "measure (\<lambda>(d, block, limit, v). nat (limit - block))") auto

text \<open>The do-while loop of \<^verbatim>\<open>ensureHighStart\<close>: the body runs before the test.\<close>

function ensureHighStart_loop :: "UNewTrie3 \<Rightarrow> u32 \<Rightarrow> int \<Rightarrow> int \<Rightarrow> UNewTrie3" where
  "ensureHighStart_loop nt iv i iLimit =
     (let nt' = nt \<lparr> flags := (flags nt)(i := ALL_SAME), index := (index nt)(i := iv) \<rparr>
      in if i + 1 < iLimit then ensureHighStart_loop nt' iv (i + 1) iLimit else nt')"
  by pat_completeness auto
termination
  by (relation "measure (\<lambda>(nt, iv, i, iLimit). nat (iLimit - i))") auto

definition ensureHighStart :: "UTrie3 \<Rightarrow> int \<Rightarrow> UTrie3" where
  "ensureHighStart trie c =
     (if c \<ge> highStart trie then
        let c' = (c + UTRIE3_DATA_BLOCK_LENGTH) AND NOT UTRIE3_DATA_MASK;
            i = drop_bit UTRIE3_SHIFT_2 (highStart trie);
            iLimit = drop_bit UTRIE3_SHIFT_2 c'
        in trie \<lparr> newTrie := ensureHighStart_loop (newTrie trie) (initialValue trie) i iLimit,
                  highStart := c' \<rparr>
      else trie)"

text \<open>
  \<^verbatim>\<open>allocDataBlock\<close> returns the offset of the new block, or \<open>-1\<close>. When the store is
  reallocated, the old entries below \<open>dataLength\<close> are copied into the fresh buffer.
\<close>

definition allocDataBlock :: "allocator \<Rightarrow> UNewTrie3 \<Rightarrow> u32 \<Rightarrow> int \<times> UNewTrie3" where
  "allocDataBlock uprv_malloc nt v =
     (let newBlock = dataLength nt;
          newTop = newBlock + UTRIE3_DATA_BLOCK_LENGTH
      in
        if newTop > dataCapacity nt then
          (if \<not> dataCapacity nt < UNEWTRIE3_MEDIUM_DATA_LENGTH \<and>
              \<not> dataCapacity nt < UNEWTRIE3_MAX_DATA_LENGTH then (-1, nt)
           else
             let capacity = (if dataCapacity nt < UNEWTRIE3_MEDIUM_DATA_LENGTH
                             then UNEWTRIE3_MEDIUM_DATA_LENGTH else UNEWTRIE3_MAX_DATA_LENGTH)
             in case uprv_malloc (capacity * 4) of
                  None \<Rightarrow> (-1, nt)
                | Some fresh \<Rightarrow>
                    (newBlock,
                     nt \<lparr> data := writeBlock
                                     (\<lambda>j. if 0 \<le> j \<and> j < dataLength nt then data nt j else fresh j)
                                     newBlock (newBlock + UTRIE3_DATA_BLOCK_LENGTH) v,
                          dataCapacity := capacity,
                          dataLength := newTop \<rparr>))
        else
          (newBlock,
           nt \<lparr> data := writeBlock (data nt) newBlock (newBlock + UTRIE3_DATA_BLOCK_LENGTH) v,
                dataLength := newTop \<rparr>))"

text \<open>
  \<^verbatim>\<open>getDataBlock\<close> returns the slot's \<^verbatim>\<open>uint32_t\<close> offset as an \<^verbatim>\<open>int32_t\<close>, and stores
  the \<^verbatim>\<open>int32_t\<close> offset of a fresh block into the \<^verbatim>\<open>uint32_t\<close> array.
\<close>

definition getDataBlock :: "allocator \<Rightarrow> UNewTrie3 \<Rightarrow> int \<Rightarrow> int \<times> UNewTrie3" where
  "getDataBlock uprv_malloc nt c =
     (let i = drop_bit UTRIE3_SHIFT_2 c in
      if flags nt i = MIXED then (sint (index nt i), nt)
      else
        let (newBlock, nt') = allocDataBlock uprv_malloc nt (index nt i) in
        if newBlock \<ge> 0 then
          (newBlock, nt' \<lparr> flags := (flags nt')(i := MIXED),
                           index := (index nt')(i := word_of_int newBlock) \<rparr>)
        else (newBlock, nt'))"

subsection \<open>\<^verbatim>\<open>utrie3bld_set\<close>\<close>

definition utrie3bld_set ::
  "allocator \<Rightarrow> UTrie3 \<Rightarrow> int \<Rightarrow> u32 \<Rightarrow> UErrorCode \<Rightarrow> UErrorCode \<times> UTrie3" where
  "utrie3bld_set uprv_malloc trie c v pErrorCode =
     (if U_FAILURE pErrorCode then (pErrorCode, trie)
      else if c < 0 \<or> c > MAX_UNICODE then (U_ILLEGAL_ARGUMENT_ERROR, trie)
      else if newTrie_null trie then (U_NO_WRITE_PERMISSION, trie)
      else
        let trie1 = ensureHighStart trie c;
            (block, nt) = getDataBlock uprv_malloc (newTrie trie1) c
        in if block < 0 then (U_MEMORY_ALLOCATION_ERROR, trie1 \<lparr> newTrie := nt \<rparr>)
           else (pErrorCode,
                 trie1 \<lparr> newTrie := nt \<lparr> data := (data nt)(block + (c AND UTRIE3_DATA_MASK) := v) \<rparr> \<rparr>))"

subsection \<open>\<^verbatim>\<open>utrie3bld_setRange\<close>\<close>

text \<open>
  \<^verbatim>\<open>fillBlock(block, start, limit, ...)\<close> on the block at offset \<open>block\<close> of the store
  \<open>d\<close>: one loop when \<open>overwrite\<close>, another that tests each entry when not.
\<close>

function fillBlock ::
  "(int \<Rightarrow> u32) \<Rightarrow> int \<Rightarrow> int \<Rightarrow> int \<Rightarrow> u32 \<Rightarrow> u32 \<Rightarrow> bool \<Rightarrow> (int \<Rightarrow> u32)" where
  "fillBlock d block start limit v iv overwrite =
     (if start < limit then
        (if overwrite then
           fillBlock (d(block + start := v)) block (start + 1) limit v iv overwrite
         else
           fillBlock (if d (block + start) = iv then d(block + start := v) else d)
             block (start + 1) limit v iv overwrite)
      else d)"
  by pat_completeness auto
termination
  by (relation "measure (\<lambda>(d, block, start, limit, v, iv, overwrite). nat (limit - start))") auto

text \<open>
  The body of the loop over the whole blocks, for slot \<open>i\<close>: an ALL_SAME slot takes
  the value in its index field, a MIXED slot has its whole block filled.
\<close>

definition setRange_body :: "UNewTrie3 \<Rightarrow> int \<Rightarrow> u32 \<Rightarrow> u32 \<Rightarrow> bool \<Rightarrow> UNewTrie3" where
  "setRange_body nt i v iv overwrite =
     (if flags nt i = ALL_SAME then
        (if overwrite \<or> index nt i = iv then nt \<lparr> index := (index nt)(i := v) \<rparr> else nt)
      else nt \<lparr> data := fillBlock (data nt) (uint (index nt i)) 0 UTRIE3_DATA_BLOCK_LENGTH
                             v iv overwrite \<rparr>)"

text \<open>The loop itself; it returns the builder and the final \<open>start\<close>.\<close>

function setRange_loop ::
  "UNewTrie3 \<Rightarrow> int \<Rightarrow> int \<Rightarrow> u32 \<Rightarrow> u32 \<Rightarrow> bool \<Rightarrow> UNewTrie3 \<times> int" where
  "setRange_loop nt start limit v iv overwrite =
     (if start < limit then
        setRange_loop (setRange_body nt (drop_bit UTRIE3_SHIFT_2 start) v iv overwrite)
          (start + UTRIE3_DATA_BLOCK_LENGTH) limit v iv overwrite
      else (nt, start))"
  by pat_completeness auto
termination
  by (relation "measure (\<lambda>(nt, start, limit, v, iv, overwrite). nat (limit - start))") auto

text \<open>
  The part of \<^verbatim>\<open>utrie3bld_setRange\<close> after the leading partial block: the whole blocks
  and the trailing partial block.
\<close>

definition setRange_rest ::
  "allocator \<Rightarrow> UTrie3 \<Rightarrow> int \<Rightarrow> int \<Rightarrow> u32 \<Rightarrow> bool \<Rightarrow> UErrorCode \<Rightarrow> UErrorCode \<times> UTrie3" where
  "setRange_rest uprv_malloc trie start limit v overwrite pErrorCode =
     (let rest = limit AND UTRIE3_DATA_MASK;
          limit' = limit AND NOT UTRIE3_DATA_MASK;
          (nt, start') = setRange_loop (newTrie trie) start limit' v (initialValue trie) overwrite
      in
        if rest > 0 then
          let (block, nt') = getDataBlock uprv_malloc nt start' in
          if block < 0 then (U_MEMORY_ALLOCATION_ERROR, trie \<lparr> newTrie := nt' \<rparr>)
          else (pErrorCode,
                trie \<lparr> newTrie := nt' \<lparr> data := fillBlock (data nt') block 0 rest
                                                    v (initialValue trie) overwrite \<rparr> \<rparr>)
        else (pErrorCode, trie \<lparr> newTrie := nt \<rparr>))"

definition utrie3bld_setRange ::
  "allocator \<Rightarrow> UTrie3 \<Rightarrow> int \<Rightarrow> int \<Rightarrow> u32 \<Rightarrow> bool \<Rightarrow> UErrorCode \<Rightarrow> UErrorCode \<times> UTrie3" where
  "utrie3bld_setRange uprv_malloc trie start end' v overwrite pErrorCode =
     (if U_FAILURE pErrorCode then (pErrorCode, trie)
      else if start < 0 \<or> start > MAX_UNICODE \<or> end' < 0 \<or> end' > MAX_UNICODE \<or> start > end'
        then (U_ILLEGAL_ARGUMENT_ERROR, trie)
      else if newTrie_null trie then (U_NO_WRITE_PERMISSION, trie)
      else if \<not> overwrite \<and> v = initialValue trie then (pErrorCode, trie)
      else
        let trie1 = ensureHighStart trie end';
            limit = end' + 1
        in
          if start AND UTRIE3_DATA_MASK \<noteq> 0 then
            let (block, nt) = getDataBlock uprv_malloc (newTrie trie1) start in
            if block < 0 then (U_MEMORY_ALLOCATION_ERROR, trie1 \<lparr> newTrie := nt \<rparr>)
            else
              let nextStart = (start + UTRIE3_DATA_MASK) AND NOT UTRIE3_DATA_MASK in
              if nextStart \<le> limit then
                setRange_rest uprv_malloc
                  (trie1 \<lparr> newTrie := nt \<lparr> data := fillBlock (data nt) block
                                (start AND UTRIE3_DATA_MASK) UTRIE3_DATA_BLOCK_LENGTH
                                v (initialValue trie1) overwrite \<rparr> \<rparr>)
                  nextStart limit v overwrite pErrorCode
              else
                (pErrorCode,
                 trie1 \<lparr> newTrie := nt \<lparr> data := fillBlock (data nt) block
                               (start AND UTRIE3_DATA_MASK) (limit AND UTRIE3_DATA_MASK)
                               v (initialValue trie1) overwrite \<rparr> \<rparr>)
          else setRange_rest uprv_malloc trie1 start limit v overwrite pErrorCode)"

text \<open>The loops are unfolded by hand, one step at a time.\<close>

declare writeBlock.simps [simp del] ensureHighStart_loop.simps [simp del]
  fillBlock.simps [simp del] setRange_loop.simps [simp del]

subsection \<open>Build sequences\<close>

text \<open>
  A call of the mutating API. A sequence of calls threads the trie and the status code,
  as a caller does that passes the same \<^verbatim>\<open>UErrorCode\<close> to each call: after the first
  failure every later call returns at once.
\<close>

datatype build_op = Set int u32 | SetRange int int u32 bool

fun apply_op :: "allocator \<Rightarrow> build_op \<Rightarrow> UErrorCode \<times> UTrie3 \<Rightarrow> UErrorCode \<times> UTrie3" where
  "apply_op uprv_malloc (Set c v) (e, trie) = utrie3bld_set uprv_malloc trie c v e"
| "apply_op uprv_malloc (SetRange s e' v ow) (e, trie) =
     utrie3bld_setRange uprv_malloc trie s e' v ow e"

fun run_ops :: "allocator \<Rightarrow> build_op list \<Rightarrow> UErrorCode \<times> UTrie3 \<Rightarrow> UErrorCode \<times> UTrie3" where
  "run_ops uprv_malloc [] st = st"
| "run_ops uprv_malloc (x # xs) st = run_ops uprv_malloc xs (apply_op uprv_malloc x st)"

text \<open>
  \<open>build alloc uprv_malloc iv ev ops\<close>: \<^verbatim>\<open>utrie3bld_open(iv, ev)\<close> followed by the calls
  \<open>ops\<close>; \<open>None\<close> when the trie could not be opened.
\<close>

definition build ::
  "UNewTrie3 option \<Rightarrow> allocator \<Rightarrow> u32 \<Rightarrow> u32 \<Rightarrow> build_op list \<Rightarrow> (UErrorCode \<times> UTrie3) option" where
  "build alloc uprv_malloc iv ev ops =
     (case utrie3bld_open alloc iv ev U_ZERO_ERROR of
        (e, None) \<Rightarrow> None
      | (e, Some trie) \<Rightarrow> Some (run_ops uprv_malloc ops (e, trie)))"

text \<open>
  What a sequence of calls writes, one code point at a time: the reference against which
  the trie is read back. A range call without \<open>overwrite\<close> writes only where the value at
  that moment is the initial value.
\<close>

fun written_op :: "u32 \<Rightarrow> build_op \<Rightarrow> (int \<Rightarrow> u32) \<Rightarrow> (int \<Rightarrow> u32)" where
  "written_op iv (Set c v) f = f(c := v)"
| "written_op iv (SetRange s e v ow) f =
     (\<lambda>c. if s \<le> c \<and> c \<le> e \<and> (ow \<or> f c = iv) then v else f c)"

fun written :: "u32 \<Rightarrow> build_op list \<Rightarrow> (int \<Rightarrow> u32) \<Rightarrow> (int \<Rightarrow> u32)" where
  "written iv [] f = f"
| "written iv (x # xs) f = written iv xs (written_op iv x f)"

subsection \<open>The invariant of the mutable trie\<close>

text \<open>
  What every trie built by \<^verbatim>\<open>utrie3bld_open\<close>, \<^verbatim>\<open>utrie3bld_set\<close> and
  \<^verbatim>\<open>utrie3bld_setRange\<close> satisfies: the slots below \<open>highStart\<close> are ALL_SAME or MIXED,
  a MIXED slot owns sixteen entries of the block store, and the blocks of two MIXED slots
  do not overlap.
\<close>

definition slot_ok :: "UNewTrie3 \<Rightarrow> int \<Rightarrow> bool" where
  "slot_ok nt i \<longleftrightarrow>
     flags nt i = ALL_SAME \<or> (flags nt i = MIXED \<and> uint (index nt i) + 16 \<le> dataLength nt)"

definition slots_apart :: "UNewTrie3 \<Rightarrow> int \<Rightarrow> int \<Rightarrow> bool" where
  "slots_apart nt i j \<longleftrightarrow>
     (flags nt i = MIXED \<and> flags nt j = MIXED \<and> i \<noteq> j \<longrightarrow>
        uint (index nt i) + 16 \<le> uint (index nt j) \<or> uint (index nt j) + 16 \<le> uint (index nt i))"

definition builder_inv :: "UTrie3 \<Rightarrow> bool" where
  "builder_inv t \<longleftrightarrow>
     \<not> newTrie_null t \<and> 0 \<le> highStart t \<and> highStart t \<le> UNICODE_LIMIT \<and>
     highStart t mod 16 = 0 \<and> highValue t = initialValue t \<and>
     0 \<le> dataLength (newTrie t) \<and> dataLength (newTrie t) mod 16 = 0 \<and>
     dataLength (newTrie t) \<le> dataCapacity (newTrie t) \<and>
     dataCapacity (newTrie t) \<in> {UNEWTRIE3_INITIAL_DATA_LENGTH, UNEWTRIE3_MEDIUM_DATA_LENGTH,
                                 UNEWTRIE3_MAX_DATA_LENGTH} \<and>
     (\<forall>i\<in>{0..<highStart t div 16}. slot_ok (newTrie t) i) \<and>
     (\<forall>i\<in>{0..<highStart t div 16}. \<forall>j\<in>{0..<highStart t div 16}. slots_apart (newTrie t) i j)"

subsection \<open>Fixtures for concrete runs\<close>

text \<open>
  A zero-filled piece of memory for the builder, and an environment in which every later
  \<^verbatim>\<open>uprv_malloc\<close> fails (the 16384 entries that \<^verbatim>\<open>utrie3bld_open\<close> allocates are enough for
  the small runs below).
\<close>

definition blank_builder :: UNewTrie3 where
  "blank_builder = \<lparr> flags = (\<lambda>_. 0), index = (\<lambda>_. 0), data = (\<lambda>_. 0),
                      dataCapacity = 0, dataLength = 0, dataNullIndex = 0 \<rparr>"

definition no_memory :: allocator where
  "no_memory = (\<lambda>_. None)"

section \<open>Compaction\<close>

subsection \<open>\<^verbatim>\<open>maskValues\<close>\<close>

function maskValues_index :: "UNewTrie3 \<Rightarrow> u32 \<Rightarrow> int \<Rightarrow> int \<Rightarrow> UNewTrie3" where
  "maskValues_index nt mask' i iLimit =
     (if i < iLimit then
        maskValues_index
          (if flags nt i = ALL_SAME
           then nt \<lparr> index := (index nt)(i := index nt i AND mask') \<rparr> else nt)
          mask' (i + 1) iLimit
      else nt)"
  by pat_completeness auto
termination
  by (relation "measure (\<lambda>(nt, mask', i, iLimit). nat (iLimit - i))") auto

function maskValues_data :: "(int \<Rightarrow> u32) \<Rightarrow> u32 \<Rightarrow> int \<Rightarrow> int \<Rightarrow> (int \<Rightarrow> u32)" where
  "maskValues_data d mask' i len =
     (if i < len then maskValues_data (d(i := d i AND mask')) mask' (i + 1) len else d)"
  by pat_completeness auto
termination
  by (relation "measure (\<lambda>(d, mask', i, len). nat (len - i))") auto

definition maskValues :: "UTrie3 \<Rightarrow> u32 \<Rightarrow> UTrie3" where
  "maskValues trie mask' =
     (let trie1 = trie \<lparr> initialValue := initialValue trie AND mask',
                         highValue := highValue trie AND mask' \<rparr>;
          iLimit = drop_bit UTRIE3_SHIFT_2 (highStart trie1);
          nt1 = maskValues_index (newTrie trie1) mask' 0 iLimit
      in trie1 \<lparr> newTrie := nt1 \<lparr> data := maskValues_data (data nt1) mask' 0 (dataLength nt1) \<rparr> \<rparr>)"

subsection \<open>Comparing and searching blocks\<close>

text \<open>
  A pointer into an array is the array and an offset. The searches step by
  \<open>granularity\<close>, which the callers pass as 1 or 2; the model's loops stop when it is
  not positive, where the C loops would not advance.
\<close>

function equal_uint32 :: "(int \<Rightarrow> u32) \<Rightarrow> int \<Rightarrow> (int \<Rightarrow> u32) \<Rightarrow> int \<Rightarrow> int \<Rightarrow> bool" where
  "equal_uint32 a s b t len =
     (if len > 0 \<and> a s = b t then equal_uint32 a (s + 1) b (t + 1) (len - 1) else len = 0)"
  by pat_completeness auto
termination
  by (relation "measure (\<lambda>(a, s, b, t, len). nat len)") auto

function allValuesSameAs_loop :: "(int \<Rightarrow> u32) \<Rightarrow> int \<Rightarrow> int \<Rightarrow> u32 \<Rightarrow> bool" where
  "allValuesSameAs_loop a p pLimit v =
     (if p < pLimit \<and> a p = v then allValuesSameAs_loop a (p + 1) pLimit v else p = pLimit)"
  by pat_completeness auto
termination
  by (relation "measure (\<lambda>(a, p, pLimit, v). nat (pLimit - p))") auto

definition allValuesSameAs :: "(int \<Rightarrow> u32) \<Rightarrow> int \<Rightarrow> int \<Rightarrow> u32 \<Rightarrow> bool" where
  "allValuesSameAs a p len v = allValuesSameAs_loop a p (p + len) v"

function findSameBlock_loop ::
  "(int \<Rightarrow> u32) \<Rightarrow> int \<Rightarrow> (int \<Rightarrow> u32) \<Rightarrow> int \<Rightarrow> int \<Rightarrow> int \<Rightarrow> int \<Rightarrow> int \<Rightarrow> int" where
  "findSameBlock_loop a p b other blockLength granularity len block =
     (if block \<le> len \<and> 0 < granularity then
        (if equal_uint32 a (p + block) b other blockLength then block
         else findSameBlock_loop a p b other blockLength granularity len (block + granularity))
      else -1)"
  by pat_completeness auto
termination
  by (relation "measure (\<lambda>(a, p, b, other, blockLength, granularity, len, block).
                   nat (len + 1 - block))") auto

definition findSameBlock ::
  "(int \<Rightarrow> u32) \<Rightarrow> int \<Rightarrow> int \<Rightarrow> (int \<Rightarrow> u32) \<Rightarrow> int \<Rightarrow> int \<Rightarrow> int \<Rightarrow> int" where
  "findSameBlock a p len b other blockLength granularity =
     findSameBlock_loop a p b other blockLength granularity (len - blockLength) 0"

text \<open>
  The inner loop of \<^verbatim>\<open>findAllSameBlock\<close>, counting \<open>i\<close> up from 1: it returns
  \<open>blockLength\<close> when the whole block has the value, and otherwise the first \<open>i\<close> whose
  entry differs.
\<close>

function findAllSameBlock_inner :: "(int \<Rightarrow> u32) \<Rightarrow> int \<Rightarrow> u32 \<Rightarrow> int \<Rightarrow> int \<Rightarrow> int" where
  "findAllSameBlock_inner a base v i blockLength =
     (if i \<ge> blockLength then blockLength
      else if a (base + i) \<noteq> v then i
      else findAllSameBlock_inner a base v (i + 1) blockLength)"
  by pat_completeness auto
termination
  by (relation "measure (\<lambda>(a, base, v, i, blockLength). nat (blockLength - i))") auto

declare maskValues_index.simps [simp del] maskValues_data.simps [simp del]
  equal_uint32.simps [simp del] allValuesSameAs_loop.simps [simp del]
  findSameBlock_loop.simps [simp del] findAllSameBlock_inner.simps [simp del]

function findAllSameBlock_loop ::
  "(int \<Rightarrow> u32) \<Rightarrow> int \<Rightarrow> u32 \<Rightarrow> int \<Rightarrow> int \<Rightarrow> int \<Rightarrow> int \<Rightarrow> int" where
  "findAllSameBlock_loop a p v blockLength granularity len block =
     (if block \<le> len \<and> 0 < granularity then
        (if a (p + block) = v then
           (if findAllSameBlock_inner a (p + block) v 1 blockLength = blockLength then block
            else findAllSameBlock_loop a p v blockLength granularity len
                   (block + (findAllSameBlock_inner a (p + block) v 1 blockLength
                               AND NOT (granularity - 1)) + granularity))
         else findAllSameBlock_loop a p v blockLength granularity len (block + granularity))
      else -1)"
  by pat_completeness auto
termination
proof (relation "measure (\<lambda>(a, p, v, blockLength, granularity, len, block). nat (len + 1 - block))",
    goal_cases)
  case 1
  then show ?case by simp
next
  case (2 a p v blockLength granularity len block)
  have ge: "i \<le> findAllSameBlock_inner a' base v' i bl \<or>
            findAllSameBlock_inner a' base v' i bl = bl"
    for a' base v' i bl
  proof (induction a' base v' i bl rule: findAllSameBlock_inner.induct)
    case (1 a base v i blockLength)
    show ?case
    proof (cases "i \<ge> blockLength \<or> a (base + i) \<noteq> v")
      case True
      then show ?thesis by (subst (1 2) findAllSameBlock_inner.simps) auto
    next
      case False
      then have "findAllSameBlock_inner a base v i blockLength =
                 findAllSameBlock_inner a base v (i + 1) blockLength"
        by (subst findAllSameBlock_inner.simps) simp
      then show ?thesis using "1.IH" False by auto
    qed
  qed
  define x where "x = findAllSameBlock_inner a (p + block) v 1 blockLength AND NOT (granularity - 1)"
  from 2 ge [of 1 a "p + block" v blockLength]
  have "0 \<le> findAllSameBlock_inner a (p + block) v 1 blockLength" by auto
  then have "0 \<le> x" unfolding x_def by simp
  moreover have "block \<le> len" "0 < granularity" using 2 by simp_all
  ultimately show ?case unfolding x_def [symmetric] by simp
next
  case 3
  then show ?case by simp
qed

definition findAllSameBlock ::
  "(int \<Rightarrow> u32) \<Rightarrow> int \<Rightarrow> int \<Rightarrow> u32 \<Rightarrow> int \<Rightarrow> int \<Rightarrow> int" where
  "findAllSameBlock a p len v blockLength granularity =
     findAllSameBlock_loop a p v blockLength granularity (len - blockLength) 0"

function getOverlap_loop ::
  "(int \<Rightarrow> u32) \<Rightarrow> int \<Rightarrow> int \<Rightarrow> (int \<Rightarrow> u32) \<Rightarrow> int \<Rightarrow> int \<Rightarrow> int \<Rightarrow> int" where
  "getOverlap_loop a p len b other granularity overlap =
     (if overlap > 0 \<and> \<not> equal_uint32 a (p + (len - overlap)) b other overlap \<and> 0 < granularity
      then getOverlap_loop a p len b other granularity (overlap - granularity)
      else overlap)"
  by pat_completeness auto
termination
  by (relation "measure (\<lambda>(a, p, len, b, other, granularity, overlap). nat overlap)") auto

definition getOverlap ::
  "(int \<Rightarrow> u32) \<Rightarrow> int \<Rightarrow> int \<Rightarrow> (int \<Rightarrow> u32) \<Rightarrow> int \<Rightarrow> int \<Rightarrow> int \<Rightarrow> int" where
  "getOverlap a p len b other blockLength granularity =
     getOverlap_loop a p len b other granularity (blockLength - granularity)"

function getAllSameOverlap_loop :: "(int \<Rightarrow> u32) \<Rightarrow> int \<Rightarrow> u32 \<Rightarrow> int \<Rightarrow> int \<Rightarrow> int" where
  "getAllSameOverlap_loop a p v min' i =
     (if min' < i \<and> a (p + (i - 1)) = v then getAllSameOverlap_loop a p v min' (i - 1) else i)"
  by pat_completeness auto
termination
  by (relation "measure (\<lambda>(a, p, v, min', i). nat (i - min'))") auto

definition getAllSameOverlap ::
  "(int \<Rightarrow> u32) \<Rightarrow> int \<Rightarrow> int \<Rightarrow> u32 \<Rightarrow> int \<Rightarrow> int \<Rightarrow> int" where
  "getAllSameOverlap a p len v blockLength granularity =
     (let min' = len - (blockLength - granularity);
          i = getAllSameOverlap_loop a p v min' len
      in (len - i) AND NOT (granularity - 1))"

subsection \<open>\<^verbatim>\<open>findHighStart\<close>\<close>

text \<open>The inner loop over a MIXED block, with \<open>j\<close> counting up from 0.\<close>

function findHighStart_match :: "(int \<Rightarrow> u32) \<Rightarrow> int \<Rightarrow> int \<Rightarrow> u32 \<Rightarrow> bool" where
  "findHighStart_match d p j hv =
     (if j \<ge> UTRIE3_DATA_BLOCK_LENGTH then True
      else if d (p + j) \<noteq> hv then False
      else findHighStart_match d p (j + 1) hv)"
  by pat_completeness auto
termination
  by (relation "measure (\<lambda>(d, p, j, hv). nat (UTRIE3_DATA_BLOCK_LENGTH - j))") auto

function findHighStart_loop :: "UNewTrie3 \<Rightarrow> int \<Rightarrow> u32 \<Rightarrow> int" where
  "findHighStart_loop nt i hv =
     (if i > 0 then
        (if (if flags nt (i - 1) = ALL_SAME then index nt (i - 1) = hv
             else findHighStart_match (data nt) (uint (index nt (i - 1))) 0 hv)
         then findHighStart_loop nt (i - 1) hv
         else push_bit UTRIE3_SHIFT_2 ((i - 1) + 1))
      else 0)"
  by pat_completeness auto
termination
  by (relation "measure (\<lambda>(nt, i, hv). nat i)") auto

definition findHighStart :: "UNewTrie3 \<Rightarrow> int \<Rightarrow> u32 \<Rightarrow> int" where
  "findHighStart nt highStart' hv =
     findHighStart_loop nt (drop_bit UTRIE3_SHIFT_2 highStart') hv"

declare findAllSameBlock_loop.simps [simp del] getOverlap_loop.simps [simp del]
  getAllSameOverlap_loop.simps [simp del] findHighStart_match.simps [simp del]
  findHighStart_loop.simps [simp del]

subsection \<open>The class \<^verbatim>\<open>AllSameBlocks\<close>\<close>

text \<open>
  A table of at most \<open>CAPACITY\<close> same-value blocks: for each entry the slot number, the
  value and a reference count (\<open>asb_length\<close> and \<open>asb_values\<close> are the members
  \<^verbatim>\<open>length\<close> and \<^verbatim>\<open>values\<close>). The arrays of a fresh object are not initialised.
\<close>

record AllSameBlocks =
  asb_length :: int
  mostRecent :: int
  indexes :: "int \<Rightarrow> int"
  asb_values :: "int \<Rightarrow> u32"
  refCounts :: "int \<Rightarrow> int"

abbreviation NEW_UNIQUE :: int where "NEW_UNIQUE \<equiv> -1"
abbreviation OVERFLOW :: int where "OVERFLOW \<equiv> -2"
abbreviation CAPACITY :: int where "CAPACITY \<equiv> 32"

text \<open>The constructor, applied to the uninitialised object.\<close>

definition AllSameBlocks_new :: "AllSameBlocks \<Rightarrow> AllSameBlocks" where
  "AllSameBlocks_new uninit = uninit \<lparr> asb_length := 0, mostRecent := -1 \<rparr>"

text \<open>
  The search loop of \<^verbatim>\<open>findOrAdd\<close>: the first \<open>i\<close> below \<open>len\<close> whose value is
  \<open>v\<close>, or \<open>len\<close> when the loop runs out.
\<close>

function findOrAdd_loop :: "(int \<Rightarrow> u32) \<Rightarrow> u32 \<Rightarrow> int \<Rightarrow> int \<Rightarrow> int" where
  "findOrAdd_loop vals v i len =
     (if i < len then (if vals i = v then i else findOrAdd_loop vals v (i + 1) len) else i)"
  by pat_completeness auto
termination
  by (relation "measure (\<lambda>(vals, v, i, len). nat (len - i))") auto

definition findOrAdd :: "AllSameBlocks \<Rightarrow> int \<Rightarrow> u32 \<Rightarrow> int \<times> AllSameBlocks" where
  "findOrAdd b idx v =
     (if mostRecent b \<ge> 0 \<and> asb_values b (mostRecent b) = v then
        (indexes b (mostRecent b),
         b \<lparr> refCounts := (refCounts b)(mostRecent b := refCounts b (mostRecent b) + 1) \<rparr>)
      else
        let i = findOrAdd_loop (asb_values b) v 0 (asb_length b) in
        if i < asb_length b then
          (indexes b i, b \<lparr> mostRecent := i, refCounts := (refCounts b)(i := refCounts b i + 1) \<rparr>)
        else if asb_length b = CAPACITY then (OVERFLOW, b)
        else
          (NEW_UNIQUE,
           b \<lparr> asb_length := asb_length b + 1,
               mostRecent := asb_length b,
               indexes := (indexes b)(asb_length b := idx),
               asb_values := (asb_values b)(asb_length b := v),
               refCounts := (refCounts b)(asb_length b := 1) \<rparr>))"

text \<open>The loop of \<^verbatim>\<open>add\<close> that finds the entry with the lowest reference count.\<close>

function add_loop :: "(int \<Rightarrow> int) \<Rightarrow> int \<Rightarrow> int \<Rightarrow> int \<Rightarrow> int \<Rightarrow> int" where
  "add_loop rc i len least leastCount =
     (if i < len then
        (if rc i < leastCount then add_loop rc (i + 1) len i (rc i)
         else add_loop rc (i + 1) len least leastCount)
      else least)"
  by pat_completeness auto
termination
  by (relation "measure (\<lambda>(rc, i, len, least, leastCount). nat (len - i))") auto

definition AllSameBlocks_add :: "AllSameBlocks \<Rightarrow> int \<Rightarrow> u32 \<Rightarrow> AllSameBlocks" where
  "AllSameBlocks_add b idx v =
     (let least = add_loop (refCounts b) 0 (asb_length b) (-1) I_LIMIT
      in b \<lparr> mostRecent := least,
             indexes := (indexes b)(least := idx),
             asb_values := (asb_values b)(least := v),
             refCounts := (refCounts b)(least := 1) \<rparr>)"

function findMostUsed_loop :: "(int \<Rightarrow> int) \<Rightarrow> int \<Rightarrow> int \<Rightarrow> int \<Rightarrow> int \<Rightarrow> int" where
  "findMostUsed_loop rc i len max' maxCount =
     (if i < len then
        (if rc i > maxCount then findMostUsed_loop rc (i + 1) len i (rc i)
         else findMostUsed_loop rc (i + 1) len max' maxCount)
      else max')"
  by pat_completeness auto
termination
  by (relation "measure (\<lambda>(rc, i, len, max', maxCount). nat (len - i))") auto

definition findMostUsed :: "AllSameBlocks \<Rightarrow> int" where
  "findMostUsed b =
     (if asb_length b = 0 then -1
      else indexes b (findMostUsed_loop (refCounts b) 0 (asb_length b) (-1) 0))"

declare findOrAdd_loop.simps [simp del] add_loop.simps [simp del]
  findMostUsed_loop.simps [simp del]

subsection \<open>\<^verbatim>\<open>compactWholeDataBlocks\<close>\<close>

text \<open>
  The search for an earlier MIXED slot with the same block, \<open>j\<close> counting up from 0: it
  returns the slot found, or \<open>i\<close> when the block of slot \<open>i\<close> is unique.
\<close>

function findMixedDup :: "UNewTrie3 \<Rightarrow> int \<Rightarrow> int \<Rightarrow> int \<Rightarrow> int" where
  "findMixedDup nt p i j =
     (if j \<ge> i then i
      else if (flags nt j AND TYPE_MASK) = MIXED \<and>
              equal_uint32 (data nt) p (data nt) (uint (index nt j)) UTRIE3_DATA_BLOCK_LENGTH
        then j
      else findMixedDup nt p i (j + 1))"
  by pat_completeness auto
termination
  by (relation "measure (\<lambda>(nt, p, i, j). nat (i - j))") auto

text \<open>
  The slow search after an overflow of the table, \<open>other\<close> counting up from 0: it
  returns the earlier ALL_SAME slot with the value, or \<open>i\<close> when there is none.
\<close>

function findAllSameDup :: "UNewTrie3 \<Rightarrow> u32 \<Rightarrow> int \<Rightarrow> int \<Rightarrow> int" where
  "findAllSameDup nt v i other =
     (if other \<ge> i then i
      else if (flags nt other AND TYPE_MASK) = ALL_SAME \<and> index nt other = v then other
      else findAllSameDup nt v i (other + 1))"
  by pat_completeness auto
termination
  by (relation "measure (\<lambda>(nt, v, i, other). nat (i - other))") auto

declare findMixedDup.simps [simp del] findAllSameDup.simps [simp del]

text \<open>
  The second half of the loop body, for a slot \<open>i\<close> whose block has the one value \<open>v\<close>.
  It returns the builder, the table and the data length counted so far.
\<close>

definition cwdb_allSame ::
  "UNewTrie3 \<Rightarrow> AllSameBlocks \<Rightarrow> int \<Rightarrow> int \<Rightarrow> u32 \<Rightarrow> UNewTrie3 \<times> AllSameBlocks \<times> int" where
  "cwdb_allSame nt b newDataLength i v =
     (let (other0, b1) = findOrAdd b i v;
          (other, b2) =
            (if other0 = OVERFLOW then
               (let dup = findAllSameDup nt v i 0 in
                if dup = i then (NEW_UNIQUE, AllSameBlocks_add b1 i v)
                else (dup, AllSameBlocks_add b1 dup v))
             else (other0, b1))
      in
        if other \<ge> 0 then
          (let nt1 = (if i \<ge> BMP_I_LIMIT
                      then nt \<lparr> flags := (flags nt)(other := flags nt other OR SUPP_DATA) \<rparr>
                      else nt)
           in (nt1 \<lparr> flags := (flags nt1)(i := SAME_AS),
                     index := (index nt1)(i := word_of_int other) \<rparr>, b2, newDataLength))
        else (nt, b2, newDataLength + UTRIE3_DATA_BLOCK_LENGTH))"

text \<open>The whole loop body for slot \<open>i\<close>.\<close>

definition cwdb_body ::
  "UNewTrie3 \<Rightarrow> AllSameBlocks \<Rightarrow> int \<Rightarrow> int \<Rightarrow> UNewTrie3 \<times> AllSameBlocks \<times> int" where
  "cwdb_body nt b newDataLength i =
     (if flags nt i = MIXED then
        (let p = uint (index nt i);
             v = data nt p
         in
           if allValuesSameAs (data nt) (p + 1) (UTRIE3_DATA_BLOCK_LENGTH - 1) v then
             cwdb_allSame (nt \<lparr> flags := (flags nt)(i := ALL_SAME),
                                index := (index nt)(i := v) \<rparr>) b newDataLength i v
           else
             (let j = findMixedDup nt p i 0 in
              if j = i then (nt, b, newDataLength + UTRIE3_DATA_BLOCK_LENGTH)
              else
                (let nt1 = (if i \<ge> BMP_I_LIMIT
                            then nt \<lparr> flags := (flags nt)(j := flags nt j OR SUPP_DATA) \<rparr>
                            else nt)
                 in (nt1 \<lparr> flags := (flags nt1)(i := SAME_AS),
                           index := (index nt1)(i := word_of_int j) \<rparr>, b, newDataLength))))
      else cwdb_allSame nt b newDataLength i (index nt i))"

function cwdb_loop ::
  "UNewTrie3 \<Rightarrow> AllSameBlocks \<Rightarrow> int \<Rightarrow> int \<Rightarrow> int \<Rightarrow> UNewTrie3 \<times> AllSameBlocks \<times> int" where
  "cwdb_loop nt b newDataLength i iLimit =
     (if i < iLimit then
        (case cwdb_body nt b newDataLength i of
           (nt', b', newDataLength') \<Rightarrow> cwdb_loop nt' b' newDataLength' (i + 1) iLimit)
      else (nt, b, newDataLength))"
  by pat_completeness auto
termination
  by (relation "measure (\<lambda>(nt, b, newDataLength, i, iLimit). nat (iLimit - i))") auto

declare cwdb_loop.simps [simp del]

text \<open>
  \<^verbatim>\<open>compactWholeDataBlocks\<close> returns the data length and the builder; \<open>uninit\<close> is the
  memory of its local \<^verbatim>\<open>AllSameBlocks\<close> object.
\<close>

definition compactWholeDataBlocks :: "AllSameBlocks \<Rightarrow> UNewTrie3 \<Rightarrow> int \<Rightarrow> int \<times> UNewTrie3" where
  "compactWholeDataBlocks uninit nt highStart' =
     (case cwdb_loop nt (AllSameBlocks_new uninit) 0 0 (drop_bit UTRIE3_SHIFT_2 highStart') of
        (nt', b, newDataLength) \<Rightarrow> (newDataLength, nt' \<lparr> dataNullIndex := findMostUsed b \<rparr>))"

subsection \<open>\<^verbatim>\<open>compactData\<close>\<close>

text \<open>
  The state of the placement loop: the builder, the destination array \<open>newData\<close> with
  the write position \<open>newStart\<close>, the granularity and the loop limit.
\<close>

record cd_state =
  cd_nt :: UNewTrie3
  cd_newData :: "int \<Rightarrow> u32"
  cd_newStart :: int
  cd_granularity :: int
  cd_iLimit :: int

text \<open>The loop that marks the ASCII slots as MOVED.\<close>

function cd_ascii :: "UNewTrie3 \<Rightarrow> int \<Rightarrow> int \<Rightarrow> int \<Rightarrow> UNewTrie3" where
  "cd_ascii nt i start newStart =
     (if start < newStart then
        cd_ascii (nt \<lparr> flags := (flags nt)(i := MOVED),
                        index := (index nt)(i := word_of_int start) \<rparr>)
          (i + 1) (start + UTRIE3_DATA_BLOCK_LENGTH) newStart
      else nt)"
  by pat_completeness auto
termination
  by (relation "measure (\<lambda>(nt, i, start, newStart). nat (newStart - start))") auto

text \<open>The padding loop between the two passes.\<close>

function cd_pad :: "(int \<Rightarrow> u32) \<Rightarrow> int \<Rightarrow> (int \<Rightarrow> u32) \<times> int" where
  "cd_pad nd newStart =
     (if (newStart AND (UTRIE3_DATA_GRANULARITY - 1)) \<noteq> 0 then
        cd_pad (nd(newStart := nd (newStart - 1))) (newStart + 1)
      else (nd, newStart))"
  by pat_completeness auto
termination
proof (relation "measure (\<lambda>(nd, newStart). nat (newStart mod 2))", goal_cases)
  case 1
  then show ?case by simp
next
  case (2 nd newStart)
  have "newStart AND 1 = newStart mod 2" by (simp add: and_one_eq)
  with 2 have "newStart mod 2 = 1" by (simp add: and_one_eq)
  moreover then have "(newStart + 1) mod 2 = 0" by presburger
  ultimately show ?case by simp
qed

text \<open>The two loops that append what is left of a block after the overlap \<open>n\<close>.\<close>

function cd_write_value :: "(int \<Rightarrow> u32) \<Rightarrow> int \<Rightarrow> u32 \<Rightarrow> int \<Rightarrow> (int \<Rightarrow> u32) \<times> int" where
  "cd_write_value nd newStart v n =
     (if n < UTRIE3_DATA_BLOCK_LENGTH then cd_write_value (nd(newStart := v)) (newStart + 1) v (n + 1)
      else (nd, newStart))"
  by pat_completeness auto
termination
  by (relation "measure (\<lambda>(nd, newStart, v, n). nat (UTRIE3_DATA_BLOCK_LENGTH - n))") auto

function cd_write_block ::
  "(int \<Rightarrow> u32) \<Rightarrow> int \<Rightarrow> (int \<Rightarrow> u32) \<Rightarrow> int \<Rightarrow> int \<Rightarrow> (int \<Rightarrow> u32) \<times> int" where
  "cd_write_block nd newStart d block n =
     (if n < UTRIE3_DATA_BLOCK_LENGTH then
        cd_write_block (nd(newStart := d (block + n))) (newStart + 1) d block (n + 1)
      else (nd, newStart))"
  by pat_completeness auto
termination
  by (relation "measure (\<lambda>(nd, newStart, d, block, n). nat (UTRIE3_DATA_BLOCK_LENGTH - n))") auto

declare cd_ascii.simps [simp del] cd_pad.simps [simp del] cd_write_value.simps [simp del]
  cd_write_block.simps [simp del]

text \<open>The part of the loop body after the test \<open>i == iLimit\<close>: the placement of slot \<open>i\<close>.\<close>

definition cd_body :: "cd_state \<Rightarrow> int \<Rightarrow> cd_state" where
  "cd_body st i =
     (let nt = cd_nt st;
          nd = cd_newData st;
          newStart = cd_newStart st;
          granularity = cd_granularity st;
          fl = (if granularity \<noteq> 1 then flags nt i AND TYPE_MASK else flags nt i)
      in
        if fl = ALL_SAME then
          (let v = index nt i;
               n = findAllSameBlock nd 0 newStart v UTRIE3_DATA_BLOCK_LENGTH granularity
           in
             if n \<ge> 0 then
               st \<lparr> cd_nt := nt \<lparr> index := (index nt)(i := word_of_int n),
                                    flags := (flags nt)(i := MOVED) \<rparr> \<rparr>
             else
               (let n' = getAllSameOverlap nd 0 newStart v UTRIE3_DATA_BLOCK_LENGTH granularity;
                    (nd', newStart') = cd_write_value nd newStart v n'
                in st \<lparr> cd_nt := nt \<lparr> index := (index nt)(i := word_of_int (newStart - n')),
                                       flags := (flags nt)(i := MOVED) \<rparr>,
                        cd_newData := nd', cd_newStart := newStart' \<rparr>))
        else if fl = MIXED then
          (let block = uint (index nt i);
               n = findSameBlock nd 0 newStart (data nt) block UTRIE3_DATA_BLOCK_LENGTH granularity
           in
             if n \<ge> 0 then
               st \<lparr> cd_nt := nt \<lparr> index := (index nt)(i := word_of_int n),
                                    flags := (flags nt)(i := MOVED) \<rparr> \<rparr>
             else
               (let n' = getOverlap nd 0 newStart (data nt) block UTRIE3_DATA_BLOCK_LENGTH granularity;
                    (nd', newStart') = cd_write_block nd newStart (data nt) block n'
                in st \<lparr> cd_nt := nt \<lparr> index := (index nt)(i := word_of_int (newStart - n')),
                                       flags := (flags nt)(i := MOVED) \<rparr>,
                        cd_newData := nd', cd_newStart := newStart' \<rparr>))
        else st)"

text \<open>
  The placement loop \<^verbatim>\<open>for(i=ASCII_I_LIMIT;; ++i)\<close>. At \<open>i == iLimit\<close> the first pass
  pads, switches to the supplementary granularity and starts again at
  \<open>ASCII_I_LIMIT\<close> with the limit \<open>highStart >> UTRIE3_SHIFT_2\<close>; the second pass
  ends the loop. The loop's only exit is that equality; the model also stops when \<open>i\<close>
  is beyond the limit, which cannot happen for the \<open>highStart\<close> that \<^verbatim>\<open>compactTrie\<close>
  passes (at least \<open>BMP_LIMIT\<close>).
\<close>

function cd_loop :: "int \<Rightarrow> cd_state \<Rightarrow> int \<Rightarrow> cd_state" where
  "cd_loop highStart' st i =
     (if i = cd_iLimit st \<and> cd_granularity st \<noteq> 1 then st
      else if i = cd_iLimit st then
        (case cd_pad (cd_newData st) (cd_newStart st) of
           (nd, newStart) \<Rightarrow>
             (let st1 = st \<lparr> cd_newData := nd, cd_newStart := newStart,
                              cd_granularity := UTRIE3_DATA_GRANULARITY,
                              cd_iLimit := drop_bit UTRIE3_SHIFT_2 highStart' \<rparr>
              in if ASCII_I_LIMIT < cd_iLimit st1
                 then cd_loop highStart' (cd_body st1 ASCII_I_LIMIT) (ASCII_I_LIMIT + 1)
                 else cd_body st1 ASCII_I_LIMIT))
      else if i < cd_iLimit st then cd_loop highStart' (cd_body st i) (i + 1)
      else cd_body st i)"
  by pat_completeness auto
termination
  by (relation "measure (\<lambda>(highStart', st, i).
        (if cd_granularity st = 1 then nat (drop_bit UTRIE3_SHIFT_2 highStart') + 1 else 0) +
        nat (cd_iLimit st - i))")
     (auto simp add: cd_body_def Let_def split: prod.splits if_splits)

declare cd_loop.simps [simp del]

text \<open>The loop that gives each SAME_AS slot the offset of the slot it refers to.\<close>

function cd_resolve :: "UNewTrie3 \<Rightarrow> int \<Rightarrow> int \<Rightarrow> UNewTrie3" where
  "cd_resolve nt i iLimit =
     (if i < iLimit then
        cd_resolve
          (if flags nt i = SAME_AS
           then nt \<lparr> flags := (flags nt)(i := MOVED),
                      index := (index nt)(i := index nt (uint (index nt i))) \<rparr>
           else nt)
          (i + 1) iLimit
      else nt)"
  by pat_completeness auto
termination
  by (relation "measure (\<lambda>(nt, i, iLimit). nat (iLimit - i))") auto

declare cd_resolve.simps [simp del]

text \<open>
  \<^verbatim>\<open>compactData\<close>. The source file defines \<^verbatim>\<open>UTRIE3_DEBUG\<close>, so the statement that
  replaces \<open>initialValue\<close> by the value of the most used same-value block is compiled in.
  The destination array is a fresh buffer of \<open>newDataLength\<close> entries.
\<close>

definition compactData ::
  "allocator \<Rightarrow> AllSameBlocks \<Rightarrow> UTrie3 \<Rightarrow> int \<Rightarrow> UErrorCode \<Rightarrow> UErrorCode \<times> UTrie3" where
  "compactData uprv_malloc uninit trie highStart' pErrorCode =
     (let asciiData = (\<lambda>i. utrie3bld_get trie i) in
      case compactWholeDataBlocks uninit (newTrie trie) highStart' of
        (len, nt1) \<Rightarrow>
          (let newDataLength = len + ASCII_LIMIT in
           case uprv_malloc (newDataLength * 4) of
             None \<Rightarrow> (U_MEMORY_ALLOCATION_ERROR, trie \<lparr> newTrie := nt1 \<rparr>)
           | Some fresh \<Rightarrow>
               (let newData = (\<lambda>j. if 0 \<le> j \<and> j < ASCII_LIMIT then asciiData j else fresh j);
                    trie1 = (if dataNullIndex nt1 \<ge> 0
                             then trie \<lparr> initialValue := index nt1 (dataNullIndex nt1) \<rparr>
                             else trie);
                    nt2 = cd_ascii nt1 0 0 ASCII_LIMIT;
                    st = cd_loop highStart'
                           \<lparr> cd_nt = nt2, cd_newData = newData, cd_newStart = ASCII_LIMIT,
                             cd_granularity = 1, cd_iLimit = BMP_I_LIMIT \<rparr>
                           ASCII_I_LIMIT;
                    nt3 = cd_resolve (cd_nt st) ASCII_I_LIMIT (cd_iLimit st);
                    nullOffset = (if dataNullIndex nt3 \<ge> 0
                                  then sint (index nt3 (dataNullIndex nt3))
                                  else UTRIE3_NO_DATA_NULL_OFFSET)
                in (pErrorCode,
                    trie1 \<lparr> dataNullOffset := nullOffset,
                            trie_dataLength := cd_newStart st,
                            newTrie := nt3 \<lparr> data := cd_newData st,
                                              dataCapacity := newDataLength,
                                              dataLength := cd_newStart st \<rparr> \<rparr>))))"

subsection \<open>\<^verbatim>\<open>compactIndex2\<close>\<close>

text \<open>
  The state of the loop over the supplementary index-2 blocks: the array
  \<^verbatim>\<open>newTrie->index\<close>, the write position, \<open>nullOffset\<close> and the caller's array
  \<^verbatim>\<open>index1\<close>.
\<close>

record ci_state =
  ci_index :: "int \<Rightarrow> u32"
  ci_newStart :: int
  ci_nullOffset :: int
  ci_index1 :: "int \<Rightarrow> u16"

function ci_copy :: "(int \<Rightarrow> u32) \<Rightarrow> int \<Rightarrow> int \<Rightarrow> int \<Rightarrow> (int \<Rightarrow> u32) \<times> int" where
  "ci_copy idx newStart start n =
     (if n < UTRIE3_INDEX_2_BLOCK_LENGTH then
        ci_copy (idx(newStart := idx (start + n))) (newStart + 1) start (n + 1)
      else (idx, newStart))"
  by pat_completeness auto
termination
  by (relation "measure (\<lambda>(idx, newStart, start, n). nat (UTRIE3_INDEX_2_BLOCK_LENGTH - n))") auto

text \<open>
  The body of the loop for the block at \<open>start\<close>; \<open>nullValue\<close> is
  \<^verbatim>\<open>trie->dataNullOffset\<close> as a \<^verbatim>\<open>uint32_t\<close>, \<open>nullIndex\<close> is \<^verbatim>\<open>newTrie->dataNullIndex\<close>.
\<close>

definition ci_place :: "int \<Rightarrow> ci_state \<Rightarrow> int \<Rightarrow> int \<times> ci_state" where
  "ci_place offset st start =
     (let idx = ci_index st;
          newStart = ci_newStart st;
          n = findSameBlock idx 0 BMP_I_LIMIT idx start UTRIE3_INDEX_2_BLOCK_LENGTH 1
      in
        if n \<ge> 0 then (n, st)
        else
          (let n1 = findSameBlock idx BMP_I_LIMIT (newStart - BMP_I_LIMIT) idx start
                      UTRIE3_INDEX_2_BLOCK_LENGTH 1
           in
             if n1 \<ge> 0 then (BMP_I_LIMIT + offset + n1, st)
             else
               (let n2 = (if newStart = BMP_I_LIMIT then 0
                          else getOverlap idx BMP_I_LIMIT (newStart - BMP_I_LIMIT) idx start
                                 UTRIE3_INDEX_2_BLOCK_LENGTH 1);
                    i2 = offset + (newStart - n2)
                in
                  if n2 > 0 \<or> newStart \<noteq> start then
                    (case ci_copy idx newStart start n2 of
                       (idx', newStart') \<Rightarrow>
                         (i2, st \<lparr> ci_index := idx', ci_newStart := newStart' \<rparr>))
                  else (i2, st \<lparr> ci_newStart := newStart + UTRIE3_INDEX_2_BLOCK_LENGTH \<rparr>))))"

definition ci_body :: "u32 \<Rightarrow> int \<Rightarrow> int \<Rightarrow> ci_state \<Rightarrow> int \<Rightarrow> ci_state" where
  "ci_body nullValue nullIndex offset st start =
     (let (i2, st1) =
            (if ci_nullOffset st \<ge> 0 \<and>
                allValuesSameAs (ci_index st) start UTRIE3_INDEX_2_BLOCK_LENGTH nullValue
             then (ci_nullOffset st, st)
             else
               (case ci_place offset st start of
                  (i2, st') \<Rightarrow>
                    (i2,
                     if ci_nullOffset st' < 0 \<and> nullIndex \<ge> 0 \<and>
                        allValuesSameAs (ci_index st') (i2 - offset) UTRIE3_INDEX_2_BLOCK_LENGTH
                          nullValue
                     then st' \<lparr> ci_nullOffset := i2 \<rparr> else st')))
      in st1 \<lparr> ci_index1 := (ci_index1 st1)
                  (drop_bit UTRIE3_SHIFT_1_2 start - UTRIE3_OMITTED_BMP_INDEX_1_LENGTH
                     := word_of_int i2) \<rparr>)"

function ci_loop :: "u32 \<Rightarrow> int \<Rightarrow> int \<Rightarrow> ci_state \<Rightarrow> int \<Rightarrow> int \<Rightarrow> ci_state" where
  "ci_loop nullValue nullIndex offset st start iLimit =
     (if start < iLimit then
        ci_loop nullValue nullIndex offset (ci_body nullValue nullIndex offset st start)
          (start + UTRIE3_INDEX_2_BLOCK_LENGTH) iLimit
      else st)"
  by pat_completeness auto
termination
  by (relation "measure (\<lambda>(nullValue, nullIndex, offset, st, start, iLimit). nat (iLimit - start))")
     auto

text \<open>The padding loop; the mask \<open>(UTRIE3_DATA_GRANULARITY - 1) | 1\<close> is 1.\<close>

function ci_pad :: "(int \<Rightarrow> u32) \<Rightarrow> int \<Rightarrow> int \<Rightarrow> (int \<Rightarrow> u32) \<times> int \<times> int" where
  "ci_pad idx newStart len =
     (if (len AND ((UTRIE3_DATA_GRANULARITY - 1) OR 1)) \<noteq> 0 then
        ci_pad (idx(newStart := push_bit UTRIE3_INDEX_SHIFT 0xFFFF)) (newStart + 1) (len + 1)
      else (idx, newStart, len))"
  by pat_completeness auto
termination
proof (relation "measure (\<lambda>(idx, newStart, len). nat (len mod 2))", goal_cases)
  case 1
  then show ?case by simp
next
  case (2 idx newStart len)
  then have "len mod 2 = 1" by (simp add: and_one_eq)
  moreover then have "(len + 1) mod 2 = 0" by presburger
  ultimately show ?case by simp
qed

declare ci_copy.simps [simp del] ci_loop.simps [simp del] ci_pad.simps [simp del]

text \<open>\<^verbatim>\<open>compactIndex2\<close> returns the trie and the array \<^verbatim>\<open>index1\<close>.\<close>

definition compactIndex2 :: "UTrie3 \<Rightarrow> int \<Rightarrow> (int \<Rightarrow> u16) \<Rightarrow> UTrie3 \<times> (int \<Rightarrow> u16)" where
  "compactIndex2 trie highStart' index1 =
     (if highStart' \<le> BMP_LIMIT then (trie \<lparr> indexLength := BMP_I_LIMIT \<rparr>, index1)
      else
        (let nt = newTrie trie;
             iLimit = drop_bit UTRIE3_SHIFT_2 highStart';
             offset = drop_bit UTRIE3_SHIFT_1 (highStart' - BMP_LIMIT);
             st = ci_loop (word_of_int (dataNullOffset trie)) (dataNullIndex nt) offset
                    \<lparr> ci_index = index nt, ci_newStart = BMP_I_LIMIT, ci_nullOffset = -1,
                      ci_index1 = index1 \<rparr>
                    BMP_I_LIMIT iLimit
         in case ci_pad (ci_index st) (ci_newStart st) (ci_newStart st + offset) of
              (idx, newStart, len) \<Rightarrow>
                (trie \<lparr> index2NullOffset :=
                          (if ci_nullOffset st \<ge> 0 then ci_nullOffset st
                           else UTRIE3_NO_INDEX2_NULL_OFFSET),
                        indexLength := len,
                        newTrie := nt \<lparr> index := idx \<rparr> \<rparr>,
                 ci_index1 st)))"

subsection \<open>\<^verbatim>\<open>compactTrie\<close>\<close>

text \<open>
  The do-while loop that rounds \<open>highStart\<close> up to a multiple of
  \<open>UTRIE3_CP_PER_INDEX_1_ENTRY\<close>, sixteen code points at a time. \<^verbatim>\<open>findHighStart\<close>
  returns a multiple of sixteen; from any other start the C loop would not end, and the
  model's stops.
\<close>

function compactTrie_round :: "UNewTrie3 \<Rightarrow> u32 \<Rightarrow> int \<Rightarrow> int \<Rightarrow> UNewTrie3 \<times> int" where
  "compactTrie_round nt hv i highStart' =
     (let nt' = nt \<lparr> flags := (flags nt)(i := ALL_SAME), index := (index nt)(i := hv) \<rparr>;
          highStart'' = highStart' + UTRIE3_DATA_BLOCK_LENGTH
      in if (highStart'' AND (UTRIE3_CP_PER_INDEX_1_ENTRY - 1)) \<noteq> 0 \<and>
            (highStart'' AND UTRIE3_DATA_MASK) = 0
         then compactTrie_round nt' hv (i + 1) highStart''
         else (nt', highStart''))"
  by pat_completeness auto
termination
proof (relation "measure (\<lambda>(nt, hv, i, highStart'). nat ((- ((highStart' + 16) div 16)) mod 512))",
    goal_cases)
  case 1
  then show ?case by simp
next
  case (2 nt hv i highStart' nt' highStart'')
  have e1: "x AND 8191 = x mod 8192" for x :: int
  proof -
    have "(8191::int) = mask 13" by (simp add: mask_eq_exp_minus_1)
    then show ?thesis by (simp only: flip: take_bit_eq_mask) (simp add: take_bit_eq_mod)
  qed
  have e2: "x AND 15 = x mod 16" for x :: int
  proof -
    have "(15::int) = mask 4" by (simp add: mask_eq_exp_minus_1)
    then show ?thesis by (simp only: flip: take_bit_eq_mask) (simp add: take_bit_eq_mod)
  qed
  define k where "k = highStart'' div 16"
  have a: "highStart'' mod 8192 \<noteq> 0" "highStart'' mod 16 = 0"
    using 2(3) by (simp_all add: e1 e2)
  have h: "highStart'' = highStart' + 16" using 2 by simp
  have hk: "highStart'' = 16 * k" using a(2) unfolding k_def by auto
  have "(16 * k) mod (16 * 512) = 16 * (k mod 512)" by (rule mult_mod_right [symmetric])
  then have km: "k mod 512 \<noteq> 0" using a(1) unfolding hk by auto
  have r: "0 \<le> k mod 512" "k mod 512 < 512" by simp_all
  have old: "(- k) mod 512 = 512 - k mod 512" using km by (simp add: zmod_zminus1_eq_if)
  have "(k + 1) mod 512 = (k mod 512 + 1) mod 512" by (simp add: mod_add_left_eq)
  then have k1: "(k + 1) mod 512 = (if k mod 512 + 1 = 512 then 0 else k mod 512 + 1)"
    using r by auto
  have new: "(- (k + 1)) mod 512 < 512 - k mod 512"
    using km r unfolding zmod_zminus1_eq_if k1 by auto
  have "(highStart' + 16) div 16 = k" "(highStart'' + 16) div 16 = k + 1"
    unfolding k_def h by simp_all
  then show ?case using old new r unfolding h by simp
qed

function compactTrie_fill :: "UNewTrie3 \<Rightarrow> u32 \<Rightarrow> int \<Rightarrow> UNewTrie3" where
  "compactTrie_fill nt hv i =
     (if i < BMP_I_LIMIT then
        compactTrie_fill (nt \<lparr> flags := (flags nt)(i := ALL_SAME), index := (index nt)(i := hv) \<rparr>)
          hv (i + 1)
      else nt)"
  by pat_completeness auto
termination
  by (relation "measure (\<lambda>(nt, hv, i). nat (BMP_I_LIMIT - i))") auto

declare compactTrie_round.simps [simp del] compactTrie_fill.simps [simp del]

text \<open>
  Modelled from the spec: the macro \<^verbatim>\<open>U16_LEAD\<close> of \<^verbatim>\<open>unicode/utf16.h\<close>, which is not part
  of the source file and which the specification does not describe; it is taken as ICU
  defines it, the lead surrogate of a supplementary code point.
\<close>

definition U16_LEAD :: "int \<Rightarrow> int" where
  "U16_LEAD supplementary = (drop_bit 10 supplementary + 0xD7C0) mod 0x10000"

text \<open>
  The locals of \<^verbatim>\<open>utrie3bld_freeze\<close> and \<^verbatim>\<open>compactWholeDataBlocks\<close> that start out
  uninitialised: the \<^verbatim>\<open>AllSameBlocks\<close> object and the array \<^verbatim>\<open>index1\<close>.
\<close>

record locals =
  uninit_blocks :: AllSameBlocks
  uninit_index1 :: "int \<Rightarrow> u16"

text \<open>
  The first part of \<^verbatim>\<open>compactTrie\<close>, up to the call of \<^verbatim>\<open>compactData\<close>: it finds and
  rounds \<open>highStart\<close>, sets \<open>highValue\<close>, fills the rest of the BMP, and returns the trie
  and \<open>suppHighStart\<close>.
\<close>

definition compactTrie_prefix :: "UTrie3 \<Rightarrow> UTrie3 \<times> int" where
  "compactTrie_prefix trie =
     (let highValue0 = utrie3bld_get trie MAX_UNICODE;
          highStart0 = findHighStart (newTrie trie) (highStart trie) highValue0;
          (nt1, highStart1) =
            (if (highStart0 AND (UTRIE3_CP_PER_INDEX_1_ENTRY - 1)) \<noteq> 0
             then compactTrie_round (newTrie trie) highValue0
                    (drop_bit UTRIE3_SHIFT_2 highStart0) highStart0
             else (newTrie trie, highStart0));
          highValue1 = (if highStart1 = UNICODE_LIMIT then initialValue trie else highValue0);
          trie1 = trie \<lparr> highValue := highValue1, highStart := highStart1,
                          highStartLead16 := U16_LEAD highStart1,
                          shiftedHighStart := drop_bit UTRIE3_SHIFT_1 highStart1,
                          newTrie := nt1 \<rparr>
      in if highStart1 \<le> BMP_LIMIT
         then (trie1 \<lparr> newTrie := compactTrie_fill nt1 highValue1
                                    (drop_bit UTRIE3_SHIFT_2 highStart1) \<rparr>, BMP_LIMIT)
         else (trie1, highStart1))"

text \<open>\<^verbatim>\<open>compactTrie\<close> returns the status, the trie and the array \<^verbatim>\<open>index1\<close>.\<close>

definition compactTrie ::
  "allocator \<Rightarrow> locals \<Rightarrow> UTrie3 \<Rightarrow> UErrorCode \<Rightarrow> UErrorCode \<times> UTrie3 \<times> (int \<Rightarrow> u16)" where
  "compactTrie uprv_malloc stack trie pErrorCode =
     (case compactTrie_prefix trie of
        (trie2, suppHighStart) \<Rightarrow>
          (case compactData uprv_malloc (uninit_blocks stack) trie2 suppHighStart pErrorCode of
             (e, trie3) \<Rightarrow>
               if U_FAILURE e then (e, trie3, uninit_index1 stack)
               else (case compactIndex2 trie3 suppHighStart (uninit_index1 stack) of
                       (trie4, index1) \<Rightarrow> (e, trie4, index1))))"

subsection \<open>\<^verbatim>\<open>utrie3bld_freeze\<close>\<close>

text \<open>
  The loop that tests the unshifted BMP index entries, \<open>i\<close> counting down from
  \<open>UTRIE3_INDEX_2_BMP_LENGTH\<close> and \<open>p\<close> walking up the array: \<open>True\<close> when every
  entry fits. The sum \<^verbatim>\<open>dataMove + *p\<close> is computed in \<^verbatim>\<open>uint32_t\<close>.
\<close>

function freeze_bmp_ok :: "(int \<Rightarrow> u32) \<Rightarrow> int \<Rightarrow> int \<Rightarrow> int \<Rightarrow> bool" where
  "freeze_bmp_ok idx dataMove p i =
     (if i > 0 then
        (if word_of_int dataMove + idx p > 0xFFFF then False
         else freeze_bmp_ok idx dataMove (p + 1) (i - 1))
      else True)"
  by pat_completeness auto
termination
  by (relation "measure (\<lambda>(idx, dataMove, p, i). nat i)") auto

declare freeze_bmp_ok.simps [simp del]

text \<open>
  Modelled from the spec: \<^verbatim>\<open>sizeof(UTrie3Header)\<close> and the signature constant
  \<^verbatim>\<open>UTRIE3_SIG\<close> of \<^verbatim>\<open>utrie3_impl.h\<close>, which is not part of the source file (section 4.6 of
  the specification: a header of 12 bytes, the four ASCII bytes \<open>Tri3\<close>).
\<close>

abbreviation sizeof_UTrie3Header :: int where "sizeof_UTrie3Header \<equiv> 12"
abbreviation UTRIE3_SIG :: u32 where "UTRIE3_SIG \<equiv> 0x54726933"

text \<open>
  The serialized arrays. After the BMP index-2 entries come the index-1 entries and the
  shifted supplementary index-2 entries (when \<open>highStart\<close> is above \<open>BMP_LIMIT\<close>), then
  the data.
\<close>

definition freeze_index :: "UTrie3 \<Rightarrow> (int \<Rightarrow> u16) \<Rightarrow> int \<Rightarrow> u16 list" where
  "freeze_index trie index1 dataMove =
     map (\<lambda>i. ucast (word_of_int dataMove + index (newTrie trie) i))
         [0 .. UTRIE3_INDEX_2_BMP_LENGTH - 1] @
     (if highStart trie > BMP_LIMIT then
        (let index1Length = drop_bit UTRIE3_SHIFT_1 (highStart trie - BMP_LIMIT);
             iLimit = indexLength trie - index1Length
         in map index1 [0 .. index1Length - 1] @
            map (\<lambda>i. ucast (drop_bit UTRIE3_INDEX_SHIFT
                                (word_of_int dataMove + index (newTrie trie) i)))
                [BMP_I_LIMIT .. iLimit - 1])
      else [])"

text \<open>
  The last part of \<^verbatim>\<open>utrie3bld_freeze\<close>, after the allocation of \<^verbatim>\<open>trie->memory\<close>: the
  header, the index and data arrays, and the release of the builder.
\<close>

definition freeze_write :: "UTrie3 \<Rightarrow> (int \<Rightarrow> u16) \<Rightarrow> int \<Rightarrow> int \<Rightarrow> int \<Rightarrow> UTrie3" where
  "freeze_write trie2 index1 valueBits dataMove len =
     (let options0 = (word_of_int (dataNullOffset trie2) :: u32);
          options1 = (if options0 \<noteq> word_of_int UTRIE3_NO_DATA_NULL_OFFSET
                      then options0 + word_of_int dataMove else options0);
          header =
            \<lparr> signature = UTRIE3_SIG,
              options = push_bit 12 options1 OR word_of_int valueBits,
              hdr_indexLength = word_of_int (indexLength trie2),
              hdr_shiftedDataLength =
                word_of_int (drop_bit UTRIE3_INDEX_SHIFT (trie_dataLength trie2)),
              hdr_index2NullOffset = word_of_int (index2NullOffset trie2),
              hdr_shiftedHighStart = word_of_int (shiftedHighStart trie2),
              hdr_highValue = highValue trie2,
              hdr_errorValue = errorValue trie2 \<rparr>;
          vals = map (data (newTrie trie2)) [0 .. trie_dataLength trie2 - 1]
      in trie2 \<lparr> memory := Some header, memLength := len,
                  isMemoryOwned := True,
                  index16 := Some (freeze_index trie2 index1 dataMove),
                  data16 := (if valueBits = UTRIE3_16_VALUE_BITS
                             then Some (map ucast vals)
                             else if valueBits = UTRIE3_32_VALUE_BITS
                             then None else data16 trie2),
                  data32 := (if valueBits = UTRIE3_16_VALUE_BITS then None
                             else if valueBits = UTRIE3_32_VALUE_BITS
                             then Some vals else data32 trie2),
                  newTrie_null := True \<rparr>)"

text \<open>
  The part of \<^verbatim>\<open>utrie3bld_freeze\<close> after a successful \<^verbatim>\<open>compactTrie\<close>: the two range
  checks, the allocation and the writing.
\<close>

definition freeze_finish ::
  "allocator \<Rightarrow> UTrie3 \<Rightarrow> (int \<Rightarrow> u16) \<Rightarrow> int \<Rightarrow> UErrorCode \<Rightarrow> UErrorCode \<times> UTrie3" where
  "freeze_finish uprv_malloc trie2 index1 valueBits e =
     (let dataMove = (if valueBits = UTRIE3_16_VALUE_BITS then indexLength trie2 else 0)
      in
        if drop_bit UTRIE3_INDEX_SHIFT (dataMove + trie_dataLength trie2) > 0xFFFF
          then (U_INDEX_OUTOFBOUNDS_ERROR, trie2)
        else if \<not> freeze_bmp_ok (index (newTrie trie2)) dataMove 0 UTRIE3_INDEX_2_BMP_LENGTH
          then (U_INDEX_OUTOFBOUNDS_ERROR, trie2)
        else
          (let len = sizeof_UTrie3Header + indexLength trie2 * 2 +
                       (if valueBits = UTRIE3_16_VALUE_BITS
                        then trie_dataLength trie2 * 2 else trie_dataLength trie2 * 4)
           in case uprv_malloc len of
                None \<Rightarrow> (U_MEMORY_ALLOCATION_ERROR, trie2)
              | Some buffer \<Rightarrow> (e, freeze_write trie2 index1 valueBits dataMove len)))"

definition utrie3bld_freeze ::
  "allocator \<Rightarrow> locals \<Rightarrow> UTrie3 \<Rightarrow> int \<Rightarrow> UErrorCode \<Rightarrow> UErrorCode \<times> UTrie3" where
  "utrie3bld_freeze uprv_malloc stack trie valueBits pErrorCode =
     (if U_FAILURE pErrorCode then (pErrorCode, trie)
      else if valueBits > UTRIE3_32_VALUE_BITS then (U_ILLEGAL_ARGUMENT_ERROR, trie)
      else if newTrie_null trie then
        (let frozenValueBits = (if data16 trie \<noteq> None then UTRIE3_16_VALUE_BITS
                                else UTRIE3_32_VALUE_BITS)
         in if valueBits \<noteq> frozenValueBits then (U_ILLEGAL_ARGUMENT_ERROR, trie)
            else (pErrorCode, trie))
      else
        (let trie1 = (if valueBits \<noteq> UTRIE3_32_VALUE_BITS then maskValues trie 0xFFFF else trie)
         in case compactTrie uprv_malloc stack trie1 pErrorCode of
              (e, trie2, index1) \<Rightarrow>
                if U_FAILURE e then (e, trie2)
                else freeze_finish uprv_malloc trie2 index1 valueBits e))"

subsection \<open>Notions for the statements about compaction\<close>

text \<open>
  Slot \<open>i\<close> matches the value \<open>hv\<close> in the sense of \<^verbatim>\<open>findHighStart\<close>: it is ALL_SAME
  with that value, or all sixteen entries of its block have it.
\<close>

definition slot_matches :: "UNewTrie3 \<Rightarrow> int \<Rightarrow> u32 \<Rightarrow> bool" where
  "slot_matches nt i hv \<longleftrightarrow>
     (if flags nt i = ALL_SAME then index nt i = hv
      else (\<forall>j. 0 \<le> j \<and> j < 16 \<longrightarrow> data nt (uint (index nt i) + j) = hv))"

text \<open>A blank stack frame for concrete runs.\<close>

definition blank_locals :: locals where
  "blank_locals =
     \<lparr> uninit_blocks = \<lparr> asb_length = 0, mostRecent = 0, indexes = (\<lambda>_. 0),
                          asb_values = (\<lambda>_. 0), refCounts = (\<lambda>_. 0) \<rparr>,
       uninit_index1 = (\<lambda>_. 0) \<rparr>"

text \<open>
  The mask that \<^verbatim>\<open>utrie3bld_freeze\<close> applies to the values: \<open>0xFFFF\<close> unless the values are
  32 bits wide, and then none.
\<close>

definition value_mask :: "int \<Rightarrow> u32" where
  "value_mask valueBits = (if valueBits \<noteq> UTRIE3_32_VALUE_BITS then 0xFFFF else 0xFFFFFFFF)"

text \<open>An environment in which every \<^verbatim>\<open>uprv_malloc\<close> succeeds and returns zeroed memory.\<close>

definition zero_memory :: allocator where
  "zero_memory = (\<lambda>_. Some (\<lambda>_. 0))"

text \<open>
  The mutable trie that \<^verbatim>\<open>utrie3bld_open(0, 0)\<close> followed by \<^verbatim>\<open>utrie3bld_set(c, c)\<close> for
  every \<open>c\<close> from \<open>0\<close> to \<open>0xFFFF\<close> in ascending order builds: \<open>highStart\<close> is
  \<open>0x10000\<close>, every BMP slot \<open>i\<close> is MIXED and owns the block at offset \<open>16 i\<close>, entry
  \<open>k\<close> of the block store is \<open>k\<close>, and the store has grown once. The entries of the
  arrays beyond the used part are uninitialised memory in C; here they follow the same
  formulas.
\<close>

definition identity_bmp_trie :: UTrie3 where
  "identity_bmp_trie =
     \<lparr> index16 = None, data16 = None, data32 = None, indexLength = 0, trie_dataLength = 0,
       index2NullOffset = UTRIE3_NO_INDEX2_NULL_OFFSET,
       dataNullOffset = UTRIE3_NO_DATA_NULL_OFFSET,
       initialValue = 0, errorValue = 0, highValue = 0, highStart = BMP_LIMIT,
       highStartLead16 = 0, shiftedHighStart = 0,
       memory = None, memLength = 0, isMemoryOwned = False,
       newTrie = \<lparr> flags = (\<lambda>i. MIXED), index = (\<lambda>i. word_of_int (16 * i)),
                    data = (\<lambda>k. word_of_int k),
                    dataCapacity = UNEWTRIE3_MEDIUM_DATA_LENGTH, dataLength = 0x10000,
                    dataNullIndex = -1 \<rparr>,
       newTrie_null = False \<rparr>"

text \<open>
  The state of the placement loop of \<^verbatim>\<open>compactData\<close> on that trie when the first pass
  reaches slot \<open>i\<close>: the blocks of the slots below \<open>i\<close> have been copied in order.
\<close>

definition identity_placed :: "cd_state \<Rightarrow> int \<Rightarrow> bool" where
  "identity_placed st i \<longleftrightarrow>
     cd_granularity st = 1 \<and> cd_iLimit st = BMP_I_LIMIT \<and> cd_newStart st = 16 * i \<and>
     (\<forall>k. 0 \<le> k \<and> k < 16 * i \<longrightarrow> cd_newData st k = word_of_int k) \<and>
     (\<forall>k. 0 \<le> k \<and> k < 65536 \<longrightarrow> data (cd_nt st) k = word_of_int k) \<and>
     (\<forall>j. 0 \<le> j \<and> j < 4096 \<longrightarrow>
          index (cd_nt st) j = word_of_int (16 * j) \<and>
          flags (cd_nt st) j = (if j < i then MOVED else MIXED)) \<and>
     dataNullIndex (cd_nt st) = -1"

subsection \<open>\<^verbatim>\<open>utrie3bld_getRange\<close>\<close>

text \<open>
  The callback \<^verbatim>\<open>UTrie3HandleValue *handleValue\<close> is \<open>None\<close> for a \<^verbatim>\<open>NULL\<close> pointer and
  otherwise a function of the value; the \<^verbatim>\<open>context\<close> pointer that the C code passes
  through to it is part of that function.
\<close>

definition maybeHandleValue :: "u32 \<Rightarrow> u32 \<Rightarrow> u32 \<Rightarrow> (u32 \<Rightarrow> u32) option \<Rightarrow> u32" where
  "maybeHandleValue value' initialValue' nullValue handleValue =
     (if value' = initialValue' then nullValue
      else case handleValue of None \<Rightarrow> value' | Some h \<Rightarrow> h value')"

text \<open>
  The inner loop \<^verbatim>\<open>while ((++c & UTRIE3_DATA_MASK) != 0)\<close> over the rest of a MIXED block:
  \<open>Inl end\<close> when it returns from the function, \<open>Inr c\<close> when it runs out at the start
  \<open>c\<close> of the next block.
\<close>

function getRange_inner ::
  "UNewTrie3 \<Rightarrow> u32 \<Rightarrow> u32 \<Rightarrow> (u32 \<Rightarrow> u32) option \<Rightarrow> u32 \<Rightarrow> int \<Rightarrow> int \<Rightarrow> int + int" where
  "getRange_inner nt iv nullValue handleValue value' di c =
     (let c' = c + 1 in
      if (c' AND UTRIE3_DATA_MASK) \<noteq> 0 then
        (let di' = di + 1 in
         if maybeHandleValue (data nt di') iv nullValue handleValue \<noteq> value' then Inl (c' - 1)
         else getRange_inner nt iv nullValue handleValue value' di' c')
      else Inr c')"
  by pat_completeness auto
termination
proof (relation "measure (\<lambda>(nt, iv, nullValue, handleValue, value', di, c). nat (15 - c mod 16))",
    goal_cases)
  case 1
  then show ?case by simp
next
  case (2 nt iv nullValue handleValue value' di c c' di')
  have e: "x AND 15 = x mod 16" for x :: int
  proof -
    have "(15::int) = mask 4" by (simp add: mask_eq_exp_minus_1)
    then show ?thesis by (simp only: flip: take_bit_eq_mask) (simp add: take_bit_eq_mod)
  qed
  define r where "r = c mod 16"
  have r: "0 \<le> r" "r < 16" unfolding r_def by simp_all
  have "(c + 1) mod 16 = (r + 1) mod 16" unfolding r_def by (simp add: mod_add_left_eq)
  moreover have "(c + 1) mod 16 \<noteq> 0" using 2 by (simp add: e)
  ultimately have n0: "(r + 1) mod 16 \<noteq> 0" by simp
  have "r + 1 \<noteq> 16" using n0 by auto
  then have "r + 1 < 16" using r by simp
  then have "(c + 1) mod 16 = r + 1" using \<open>(c + 1) mod 16 = (r + 1) mod 16\<close> r by simp
  then show ?case using 2 r \<open>r + 1 < 16\<close> unfolding r_def by simp
qed

declare getRange_inner.simps [simp del]

text \<open>
  One pass through the body of the do-while loop, for the slot \<open>i\<close> of \<open>c\<close>; \<open>value'\<close>
  is \<open>None\<close> while \<^verbatim>\<open>haveValue\<close> is false. \<open>Inl (end, value)\<close> when the body returns
  from the function, \<open>Inr (c, value)\<close> when it reaches \<^verbatim>\<open>++i\<close>. The offset \<^verbatim>\<open>di\<close> is the
  \<^verbatim>\<open>uint32_t\<close> sum stored in an \<^verbatim>\<open>int32_t\<close>.
\<close>

definition getRange_body ::
  "UTrie3 \<Rightarrow> (u32 \<Rightarrow> u32) option \<Rightarrow> u32 \<Rightarrow> int \<Rightarrow> u32 option \<Rightarrow> int
     \<Rightarrow> (int \<times> u32 option) + (int \<times> u32)" where
  "getRange_body trie handleValue nullValue c value' i =
     (let nt = newTrie trie; iv = initialValue trie in
      if flags nt i = ALL_SAME then
        (let value2 = maybeHandleValue (index nt i) iv nullValue handleValue in
         case value' of
           Some v \<Rightarrow>
             if value2 \<noteq> v then Inl (c - 1, value')
             else Inr ((c + UTRIE3_DATA_BLOCK_LENGTH) AND NOT UTRIE3_DATA_MASK, v)
         | None \<Rightarrow> Inr ((c + UTRIE3_DATA_BLOCK_LENGTH) AND NOT UTRIE3_DATA_MASK, value2))
      else
        (let di = sint (index nt i + word_of_int (c AND UTRIE3_DATA_MASK));
             value2 = maybeHandleValue (data nt di) iv nullValue handleValue
         in
           case value' of
             Some v \<Rightarrow>
               if value2 \<noteq> v then Inl (c - 1, value')
               else (case getRange_inner nt iv nullValue handleValue v di c of
                       Inl end' \<Rightarrow> Inl (end', Some v)
                     | Inr c' \<Rightarrow> Inr (c', v))
           | None \<Rightarrow>
               (case getRange_inner nt iv nullValue handleValue value2 di c of
                  Inl end' \<Rightarrow> Inl (end', Some value2)
                | Inr c' \<Rightarrow> Inr (c', value2))))"

text \<open>
  The do-while loop and the test of \<open>highValue\<close> after it. The result is the returned
  end of the range and what the call wrote to \<^verbatim>\<open>*pValue\<close>.
\<close>

function getRange_loop ::
  "UTrie3 \<Rightarrow> (u32 \<Rightarrow> u32) option \<Rightarrow> u32 \<Rightarrow> int \<Rightarrow> u32 option \<Rightarrow> int \<Rightarrow> int \<times> u32 option" where
  "getRange_loop trie handleValue nullValue c value' i =
     (case getRange_body trie handleValue nullValue c value' i of
        Inl r \<Rightarrow> r
      | Inr (c', v) \<Rightarrow>
          if c' < highStart trie
          then getRange_loop trie handleValue nullValue c' (Some v) (i + 1)
          else if maybeHandleValue (highValue trie) (initialValue trie) nullValue handleValue \<noteq> v
          then (c' - 1, Some v)
          else (MAX_UNICODE, Some v))"
  by pat_completeness auto
termination
proof (relation "measure (\<lambda>(trie, handleValue, nullValue, c, value', i). nat (highStart trie - c))",
    goal_cases)
  case 1
  then show ?case by simp
next
  case (2 trie handleValue nullValue c value' i r c' v)
  have inner: "getRange_inner nt iv nv h w di x = Inr y \<Longrightarrow> x < y" for nt iv nv h w di x y
  proof (induction nt iv nv h w di x rule: getRange_inner.induct)
    case (1 nt iv nullValue handleValue value' di c)
    show ?case
    proof (cases "(c + 1 AND UTRIE3_DATA_MASK) \<noteq> 0 \<and>
                  \<not> maybeHandleValue (data nt (di + 1)) iv nullValue handleValue \<noteq> value'")
      case True
      then have "getRange_inner nt iv nullValue handleValue value' (di + 1) (c + 1) = Inr y"
        using "1.prems" by (subst (asm) getRange_inner.simps) (simp add: Let_def)
      then have "c + 1 < y" using "1.IH" [OF refl _ refl] True by simp
      then show ?thesis by simp
    next
      case False
      then show ?thesis
        using "1.prems" by (subst (asm) getRange_inner.simps) (auto simp add: Let_def split: if_splits)
    qed
  qed
  have a: "(x + 16) AND NOT 15 = 16 * ((x + 16) div 16)" for x :: int
  proof -
    have "(x + 16) AND NOT 15 = (x + 16) AND NOT (mask 4)" by (simp add: mask_eq_exp_minus_1)
    also have "\<dots> = push_bit 4 (drop_bit 4 (x + 16))"
      by (rule bit_eqI) (auto simp add: bit_simps)
    finally show ?thesis by (simp add: push_bit_eq_mult drop_bit_eq_div)
  qed
  have b: "x < 16 * ((x + 16) div 16)" for x :: int
  proof -
    define y where "y = x + 16"
    have "y = 16 * (y div 16) + y mod 16" by (rule mult_div_mod_eq [symmetric])
    moreover have "y mod 16 < 16" by simp
    ultimately have "y - 16 < 16 * (y div 16)" by linarith
    then show ?thesis unfolding y_def by simp
  qed
  have ab: "x < (x + 16 AND - 16)" for x :: int
    using a [of x] b [of x] by simp
  have "c < c'"
    using 2(1) [symmetric] 2(2)
    by (auto simp add: getRange_body_def Let_def ab split: if_splits option.splits sum.splits
        dest: inner)
  then show ?case using 2 by simp
qed

declare getRange_loop.simps [simp del]

definition utrie3bld_getRange ::
  "UTrie3 \<Rightarrow> int \<Rightarrow> (u32 \<Rightarrow> u32) option \<Rightarrow> int \<times> u32 option" where
  "utrie3bld_getRange trie start handleValue =
     (if start < 0 \<or> start > MAX_UNICODE then (-1, None)
      else if start \<ge> highStart trie then
        (MAX_UNICODE,
         Some (case handleValue of None \<Rightarrow> highValue trie | Some h \<Rightarrow> h (highValue trie)))
      else
        (let nullValue = (case handleValue of None \<Rightarrow> initialValue trie
                          | Some h \<Rightarrow> h (initialValue trie))
         in getRange_loop trie handleValue nullValue start None (drop_bit UTRIE3_SHIFT_2 start)))"

text \<open>
  The transformed value of a code point, in the words of the documentation: the value of
  the code point, replaced by \<open>nullValue = handleValue(initialValue)\<close> when it is
  \<open>initialValue\<close>, and passed through \<open>handleValue\<close> otherwise. A trie is \<open>readable\<close> when
  \<open>highStart\<close> is a multiple of the block length, at most \<open>0x110000\<close>, and every slot
  below it that is not ALL_SAME holds the offset of a whole block within the largest block
  store.
\<close>

definition transformed :: "UTrie3 \<Rightarrow> (u32 \<Rightarrow> u32) option \<Rightarrow> int \<Rightarrow> u32" where
  "transformed trie handleValue c =
     maybeHandleValue (utrie3bld_get trie c) (initialValue trie)
       (case handleValue of None \<Rightarrow> initialValue trie | Some h \<Rightarrow> h (initialValue trie))
       handleValue"

definition readable :: "UTrie3 \<Rightarrow> bool" where
  "readable t \<longleftrightarrow>
     highStart t mod 16 = 0 \<and> highStart t \<le> UNICODE_LIMIT \<and>
     (\<forall>i. 0 \<le> i \<and> i < highStart t div 16 \<and> flags (newTrie t) i \<noteq> ALL_SAME \<longrightarrow>
          uint (index (newTrie t) i) + 16 \<le> UNEWTRIE3_MAX_DATA_LENGTH)"

section \<open>Properties of the build path\<close>

lemma and_15_eq_mod: "(c::int) AND 15 = c mod 16"
proof -
  have "(15::int) = mask 4" by (simp add: mask_eq_exp_minus_1)
  then show ?thesis by (simp only: flip: take_bit_eq_mask) (simp add: take_bit_eq_mod)
qed

lemma and_not_15_eq: "(c::int) AND NOT 15 = 16 * (c div 16)"
proof -
  have "c AND NOT 15 = c AND NOT (mask 4)" by (simp add: mask_eq_exp_minus_1)
  also have "\<dots> = push_bit 4 (drop_bit 4 c)"
    by (rule bit_eqI) (auto simp add: bit_simps)
  finally show ?thesis by (simp add: push_bit_eq_mult drop_bit_eq_div)
qed

lemma drop_bit_4_eq: "drop_bit 4 (c::int) = c div 16"
  by (simp add: drop_bit_eq_div)

lemma and_minus_16_eq: "(c::int) AND - 16 = 16 * (c div 16)"
  using and_not_15_eq [of c] by simp

lemmas bit_arith = and_15_eq_mod and_not_15_eq and_minus_16_eq drop_bit_4_eq

lemma div16_cases:
  obtains q r :: int where "c = 16 * q + r" "0 \<le> r" "r < 16" "c div 16 = q" "c mod 16 = r"
proof -
  have "c = 16 * (c div 16) + c mod 16" by simp
  moreover have "0 \<le> c mod 16" "c mod 16 < 16" by simp_all
  ultimately show ?thesis using that by blast
qed

lemma div16_less_iff: "(c::int) div 16 < k \<longleftrightarrow> c < 16 * k"
  by (rule div16_cases [of c]) auto
lemma div16_le_iff: "k \<le> (c::int) div 16 \<longleftrightarrow> 16 * k \<le> c"
  by (rule div16_cases [of c]) auto
lemma div16_eq_iff: "(c::int) div 16 = i \<and> c mod 16 = k \<longleftrightarrow> c = 16 * i + k \<and> 0 \<le> k \<and> k < 16"
proof
  assume "c div 16 = i \<and> c mod 16 = k"
  then show "c = 16 * i + k \<and> 0 \<le> k \<and> k < 16" by auto
next
  assume a: "c = 16 * i + k \<and> 0 \<le> k \<and> k < 16"
  then have "(16 * i + k) div 16 = i" "(16 * i + k) mod 16 = k" by simp_all
  with a show "c div 16 = i \<and> c mod 16 = k" by simp
qed
lemma mod16_div_less_aux: "(h::int) mod 16 = 0 \<Longrightarrow> c < h \<Longrightarrow> c div 16 < h div 16"
  by (rule div16_cases [of c], rule div16_cases [of h]) auto

lemma mod16_div_less: "(h::int) mod 16 = 0 \<Longrightarrow> c < h \<Longrightarrow> c div 16 < h div 16"
  by (rule mod16_div_less_aux)

lemma writeBlock_apply:
  "writeBlock d b l v j = (if b \<le> j \<and> j < l then v else d j)"
proof (induction d b l v rule: writeBlock.induct)
  case (1 d block limit v)
  show ?case
    by (subst writeBlock.simps) (simp add: "1.IH")
qed

lemma fillBlock_apply:
  "fillBlock d block s l v iv ow j =
     (if block + s \<le> j \<and> j < block + l \<and> (ow \<or> d j = iv) then v else d j)"
proof (induction d block s l v iv ow rule: fillBlock.induct)
  case (1 d block start limit v iv overwrite)
  show ?case
  proof (cases "start < limit")
    case False
    then show ?thesis by (subst fillBlock.simps) auto
  next
    case True
    show ?thesis
    proof (cases overwrite)
      case ow: True
      have "fillBlock d block start limit v iv overwrite =
            fillBlock (d(block + start := v)) block (start + 1) limit v iv overwrite"
        using True ow by (subst fillBlock.simps) simp
      then have "fillBlock d block start limit v iv overwrite j =
            fillBlock (d(block + start := v)) block (start + 1) limit v iv overwrite j"
        by simp
      also note "1.IH"(1) [OF True ow]
      finally show ?thesis using ow True by auto
    next
      case ow: False
      have "fillBlock d block start limit v iv overwrite =
            fillBlock (if d (block + start) = iv then d(block + start := v) else d)
              block (start + 1) limit v iv overwrite"
        using True ow by (subst fillBlock.simps) simp
      then have "fillBlock d block start limit v iv overwrite j =
            fillBlock (if d (block + start) = iv then d(block + start := v) else d)
              block (start + 1) limit v iv overwrite j"
        by simp
      also note "1.IH"(2) [OF True ow]
      finally show ?thesis using ow True by auto
    qed
  qed
qed

lemma ensureHighStart_loop_flags:
  "flags (ensureHighStart_loop nt iv i iLimit) j =
     (if i \<le> j \<and> (j < iLimit \<or> j = i) then ALL_SAME else flags nt j)"
proof (induction nt iv i iLimit rule: ensureHighStart_loop.induct)
  case (1 nt iv i iLimit)
  show ?case
    using "1.IH" by (subst ensureHighStart_loop.simps) (auto simp: Let_def)
qed

lemma ensureHighStart_loop_index:
  "index (ensureHighStart_loop nt iv i iLimit) j =
     (if i \<le> j \<and> (j < iLimit \<or> j = i) then iv else index nt j)"
proof (induction nt iv i iLimit rule: ensureHighStart_loop.induct)
  case (1 nt iv i iLimit)
  show ?case
    using "1.IH" by (subst ensureHighStart_loop.simps) (auto simp: Let_def)
qed

lemma ensureHighStart_loop_rest:
  "data (ensureHighStart_loop nt iv i iLimit) = data nt"
  "dataCapacity (ensureHighStart_loop nt iv i iLimit) = dataCapacity nt"
  "dataLength (ensureHighStart_loop nt iv i iLimit) = dataLength nt"
  "dataNullIndex (ensureHighStart_loop nt iv i iLimit) = dataNullIndex nt"
proof (induction nt iv i iLimit rule: ensureHighStart_loop.induct)
  case (1 nt iv i iLimit)
  { case 1 show ?case using "1.IH"(1) by (subst ensureHighStart_loop.simps) (auto simp: Let_def) }
  { case 2 show ?case using "1.IH"(2) by (subst ensureHighStart_loop.simps) (auto simp: Let_def) }
  { case 3 show ?case using "1.IH"(3) by (subst ensureHighStart_loop.simps) (auto simp: Let_def) }
  { case 4 show ?case using "1.IH"(4) by (subst ensureHighStart_loop.simps) (auto simp: Let_def) }
qed

lemma builder_inv_dataLength:
  "builder_inv t \<Longrightarrow> dataLength (newTrie t) \<le> UNEWTRIE3_MAX_DATA_LENGTH"
  unfolding builder_inv_def by auto

lemma builder_inv_slot_ok:
  "builder_inv t \<Longrightarrow> 0 \<le> i \<Longrightarrow> i < highStart t div 16 \<Longrightarrow> slot_ok (newTrie t) i"
  unfolding builder_inv_def by simp

lemma builder_inv_slot_ok_cp:
  assumes "builder_inv t" "0 \<le> c" "c < highStart t"
  shows "slot_ok (newTrie t) (c div 16)"
proof -
  have "highStart t mod 16 = 0" using assms(1) unfolding builder_inv_def by simp
  then have "c div 16 < highStart t div 16" using assms(3) by (rule mod16_div_less)
  then show ?thesis using assms by (simp add: builder_inv_slot_ok pos_imp_zdiv_nonneg_iff)
qed

lemma uint_offset_add:
  assumes "uint (w::u32) + 16 \<le> 0x110000" "0 \<le> k" "k < 16"
  shows "uint (w + word_of_int k) = uint w + k"
proof -
  have "uint (word_of_int k :: u32) = k"
    using assms by (simp add: uint_word_of_int take_bit_int_eq_self)
  moreover have "0 \<le> uint w + k" "uint w + k < 2 ^ 32" using assms by simp_all
  ultimately show ?thesis
    by (simp add: uint_word_ariths)
qed

lemma get_slot:
  assumes "builder_inv t" "0 \<le> c" "c < highStart t"
  shows "utrie3bld_get t c =
           (if flags (newTrie t) (c div 16) = ALL_SAME then index (newTrie t) (c div 16)
            else data (newTrie t) (uint (index (newTrie t) (c div 16)) + c mod 16))"
proof -
  have ok: "slot_ok (newTrie t) (c div 16)"
    using assms by (rule builder_inv_slot_ok_cp)
  have c: "c \<le> MAX_UNICODE" using assms unfolding builder_inv_def by simp
  show ?thesis
  proof (cases "flags (newTrie t) (c div 16) = ALL_SAME")
    case True
    then show ?thesis using assms c by (simp add: utrie3bld_get_def bit_arith)
  next
    case False
    then have "uint (index (newTrie t) (c div 16)) + 16 \<le> 0x110000"
      using ok builder_inv_dataLength [OF assms(1)] unfolding slot_ok_def by simp
    then have "uint (index (newTrie t) (c div 16) + word_of_int (c mod 16)) =
               uint (index (newTrie t) (c div 16)) + c mod 16"
      by (intro uint_offset_add) simp_all
    then show ?thesis using False assms c by (simp add: utrie3bld_get_def bit_arith)
  qed
qed

lemma get_high:
  assumes "builder_inv t" "highStart t \<le> c" "c \<le> MAX_UNICODE"
  shows "utrie3bld_get t c = initialValue t"
  using assms unfolding builder_inv_def by (simp add: utrie3bld_get_def)

lemma get_error: "c < 0 \<or> c > MAX_UNICODE \<Longrightarrow> utrie3bld_get t c = errorValue t"
  by (auto simp add: utrie3bld_get_def)

lemma ensureHighStart_low:
  "c < highStart t \<Longrightarrow> ensureHighStart t c = t"
  by (simp add: ensureHighStart_def)

lemma ensureHighStart_fields:
  "initialValue (ensureHighStart t c) = initialValue t"
  "errorValue (ensureHighStart t c) = errorValue t"
  "highValue (ensureHighStart t c) = highValue t"
  "newTrie_null (ensureHighStart t c) = newTrie_null t"
  "dataLength (newTrie (ensureHighStart t c)) = dataLength (newTrie t)"
  "dataCapacity (newTrie (ensureHighStart t c)) = dataCapacity (newTrie t)"
  "data (newTrie (ensureHighStart t c)) = data (newTrie t)"
  by (simp_all add: ensureHighStart_def Let_def ensureHighStart_loop_rest)

lemma ensureHighStart_highStart:
  "highStart (ensureHighStart t c) =
     (if highStart t \<le> c then 16 * ((c + 16) div 16) else highStart t)"
  by (simp add: ensureHighStart_def Let_def bit_arith)

lemma ensureHighStart_flags:
  assumes "highStart t \<le> c"
  shows "flags (newTrie (ensureHighStart t c)) j =
           (if highStart t div 16 \<le> j \<and> j < (c + 16) div 16 then ALL_SAME
            else flags (newTrie t) j)"
proof -
  have "highStart t div 16 < (c + 16) div 16" using assms by simp
  then show ?thesis
    using assms
    by (auto simp add: ensureHighStart_def Let_def bit_arith ensureHighStart_loop_flags)
qed

lemma ensureHighStart_index:
  assumes "highStart t \<le> c"
  shows "index (newTrie (ensureHighStart t c)) j =
           (if highStart t div 16 \<le> j \<and> j < (c + 16) div 16 then initialValue t
            else index (newTrie t) j)"
proof -
  have "highStart t div 16 < (c + 16) div 16" using assms by simp
  then show ?thesis
    using assms
    by (auto simp add: ensureHighStart_def Let_def bit_arith ensureHighStart_loop_index)
qed

lemma ensureHighStart_inv:
  assumes "builder_inv t" "0 \<le> c" "c \<le> MAX_UNICODE"
  shows "builder_inv (ensureHighStart t c)"
proof (cases "highStart t \<le> c")
  case False
  then show ?thesis using assms by (simp add: ensureHighStart_low)
next
  case True
  let ?t = "ensureHighStart t c"
  have hs: "highStart ?t = 16 * ((c + 16) div 16)" "highStart ?t div 16 = (c + 16) div 16"
    using True by (simp_all add: ensureHighStart_highStart)
  have ok: "slot_ok (newTrie ?t) i" if "i \<in> {0..<(c + 16) div 16}" for i
  proof (cases "highStart t div 16 \<le> i")
    case True
    then show ?thesis using that \<open>highStart t \<le> c\<close>
      by (simp add: slot_ok_def ensureHighStart_flags)
  next
    case False
    then have "slot_ok (newTrie t) i" using assms(1) that unfolding builder_inv_def by simp
    then show ?thesis using False \<open>highStart t \<le> c\<close>
      by (simp add: slot_ok_def ensureHighStart_flags ensureHighStart_index ensureHighStart_fields)
  qed
  have ap: "slots_apart (newTrie ?t) i j"
    if "i \<in> {0..<(c + 16) div 16}" "j \<in> {0..<(c + 16) div 16}" for i j
  proof (cases "highStart t div 16 \<le> i \<or> highStart t div 16 \<le> j")
    case True
    then show ?thesis using that \<open>highStart t \<le> c\<close>
      by (auto simp add: slots_apart_def ensureHighStart_flags)
  next
    case False
    then have "slots_apart (newTrie t) i j" using assms(1) that unfolding builder_inv_def by simp
    then show ?thesis using False \<open>highStart t \<le> c\<close>
      by (simp add: slots_apart_def ensureHighStart_flags ensureHighStart_index)
  qed
  have "16 * ((c + 16) div 16) \<le> UNICODE_LIMIT" "0 \<le> 16 * ((c + 16) div 16)"
    using assms(2,3) by simp_all
  then show ?thesis
    using assms(1) ok ap unfolding builder_inv_def [of ?t] hs
    by (simp add: ensureHighStart_fields builder_inv_def)
qed

lemma ensureHighStart_get:
  assumes "builder_inv t" "0 \<le> c" "c \<le> MAX_UNICODE"
  shows "utrie3bld_get (ensureHighStart t c) c' = utrie3bld_get t c'"
proof (cases "highStart t \<le> c")
  case False
  then show ?thesis by (simp add: ensureHighStart_low)
next
  case True
  let ?t = "ensureHighStart t c"
  have inv': "builder_inv ?t" using assms by (rule ensureHighStart_inv)
  have hs: "highStart ?t = 16 * ((c + 16) div 16)"
    using True by (simp add: ensureHighStart_highStart)
  consider "c' < 0 \<or> c' > MAX_UNICODE" | "0 \<le> c'" "c' < highStart t"
    | "highStart t \<le> c'" "c' < highStart ?t" | "highStart ?t \<le> c'" "c' \<le> MAX_UNICODE"
    by linarith
  then show ?thesis
  proof cases
    case 1
    then show ?thesis by (simp add: get_error ensureHighStart_fields)
  next
    case 2
    then have "c' < highStart ?t" "\<not> highStart t div 16 \<le> c' div 16"
      using True hs assms(1) unfolding builder_inv_def by auto
    then show ?thesis
      using 2 assms(1) inv' True
      by (simp add: get_slot ensureHighStart_flags ensureHighStart_index ensureHighStart_fields)
  next
    case 3
    have "0 \<le> c'" using 3 assms(1) unfolding builder_inv_def by simp
    moreover have "highStart t div 16 \<le> c' div 16" "c' div 16 < (c + 16) div 16"
      using 3 hs by (simp_all add: zdiv_mono1)
    moreover have "c' \<le> MAX_UNICODE"
      using 3 inv' unfolding builder_inv_def by simp
    ultimately show ?thesis
      using 3 assms(1) inv' True
      by (simp add: get_slot get_high ensureHighStart_flags ensureHighStart_index)
  next
    case 4
    moreover have "highStart t \<le> c'" using 4 True hs by simp
    ultimately show ?thesis
      using assms(1) inv' by (simp add: get_high ensureHighStart_fields)
  qed
qed

lemma allocDataBlock_fail:
  assumes "allocDataBlock m nt v = (b, nt')" "b < 0" "0 \<le> dataLength nt"
  shows "nt' = nt"
  using assms by (auto simp add: allocDataBlock_def Let_def split: if_splits option.splits)

lemma allocDataBlock_ok:
  assumes "allocDataBlock m nt v = (b, nt')" "0 \<le> b"
  shows "b = dataLength nt" "flags nt' = flags nt" "index nt' = index nt"
    "dataLength nt' = dataLength nt + 16" "dataNullIndex nt' = dataNullIndex nt"
    "0 \<le> j \<Longrightarrow> j < dataLength nt \<Longrightarrow> data nt' j = data nt j"
    "dataLength nt \<le> j \<Longrightarrow> j < dataLength nt + 16 \<Longrightarrow> data nt' j = v"
  using assms
  by (auto simp add: allocDataBlock_def Let_def writeBlock_apply split: if_splits option.splits)

lemma allocDataBlock_capacity:
  assumes "allocDataBlock m nt v = (b, nt')" "0 \<le> b"
    "dataLength nt mod 16 = 0" "dataLength nt \<le> dataCapacity nt"
    "dataCapacity nt \<in> {UNEWTRIE3_INITIAL_DATA_LENGTH, UNEWTRIE3_MEDIUM_DATA_LENGTH,
                         UNEWTRIE3_MAX_DATA_LENGTH}"
  shows "dataLength nt + 16 \<le> dataCapacity nt'"
    "dataCapacity nt' \<in> {UNEWTRIE3_INITIAL_DATA_LENGTH, UNEWTRIE3_MEDIUM_DATA_LENGTH,
                          UNEWTRIE3_MAX_DATA_LENGTH}"
  using assms
  by (auto simp add: allocDataBlock_def Let_def split: if_splits option.splits)

lemma sint_uint_small:
  "uint (w::u32) < 2 ^ 31 \<Longrightarrow> sint w = uint w"
proof -
  assume a: "uint w < 2 ^ 31"
  have "signed_take_bit 31 (uint w) = uint w"
  proof (rule signed_take_bit_int_eq_self)
    show "- (2 ^ 31) \<le> uint w" by (rule order_trans [of _ 0]) simp_all
    show "uint w < 2 ^ 31" by (rule a)
  qed
  then show ?thesis by (simp add: sint_uint)
qed

lemma uint_word_of_int_small:
  "0 \<le> n \<Longrightarrow> n \<le> UNEWTRIE3_MAX_DATA_LENGTH \<Longrightarrow> uint (word_of_int n :: u32) = n"
  by (simp add: uint_word_of_int take_bit_int_eq_self)

lemma getDataBlock_fail:
  assumes "builder_inv t" "0 \<le> c" "c < highStart t"
    "getDataBlock m (newTrie t) c = (b, nt')" "b < 0"
  shows "nt' = newTrie t"
proof (cases "flags (newTrie t) (c div 16) = MIXED")
  case True
  then have "b = sint (index (newTrie t) (c div 16))"
    using assms(4) by (auto simp add: getDataBlock_def Let_def bit_arith)
  moreover have "slot_ok (newTrie t) (c div 16)"
    using assms(1,2,3) by (rule builder_inv_slot_ok_cp)
  then have "uint (index (newTrie t) (c div 16)) < 2 ^ 31"
    using True builder_inv_dataLength [OF assms(1)] unfolding slot_ok_def by auto
  ultimately show ?thesis using assms(5) by (simp add: sint_uint_small)
next
  case False
  obtain b' n' where a: "allocDataBlock m (newTrie t) (index (newTrie t) (c div 16)) = (b', n')"
    by (cases "allocDataBlock m (newTrie t) (index (newTrie t) (c div 16))")
  with False assms(4,5) have "b' < 0" "n' = nt'"
    by (auto simp add: getDataBlock_def Let_def bit_arith split: if_splits)
  with a assms(1) show ?thesis
    using allocDataBlock_fail [OF a] unfolding builder_inv_def by simp
qed

lemma getDataBlock_ok_conj:
  assumes "builder_inv t" "0 \<le> c" "c < highStart t"
    "getDataBlock m (newTrie t) c = (b, nt')" "0 \<le> b"
  shows "builder_inv (t \<lparr> newTrie := nt' \<rparr>) \<and> flags nt' (c div 16) = MIXED \<and>
        uint (index nt' (c div 16)) = b \<and>
        (\<forall>c'. utrie3bld_get (t \<lparr> newTrie := nt' \<rparr>) c' = utrie3bld_get t c')"
proof -
  let ?nt = "newTrie t" and ?i = "c div 16"
  have ok: "slot_ok ?nt ?i" using assms(1,2,3) by (rule builder_inv_slot_ok_cp)
  have dl: "dataLength ?nt \<le> UNEWTRIE3_MAX_DATA_LENGTH" using assms(1) by (rule builder_inv_dataLength)
  have i: "0 \<le> ?i" "?i < highStart t div 16"
    using assms(1,2,3) unfolding builder_inv_def by (simp_all add: mod16_div_less pos_imp_zdiv_nonneg_iff)
  show ?thesis
  proof (cases "flags ?nt ?i = MIXED")
    case True
    then have e: "nt' = ?nt" "b = sint (index ?nt ?i)"
      using assms(4) by (auto simp add: getDataBlock_def Let_def bit_arith)
    have "uint (index ?nt ?i) < 2 ^ 31" using ok True dl unfolding slot_ok_def by auto
    then show ?thesis
      using e True assms(1) by (simp add: sint_uint_small)
  next
    case False
    then have as: "flags ?nt ?i = ALL_SAME" using ok unfolding slot_ok_def by simp
    obtain n' where a: "allocDataBlock m ?nt (index ?nt ?i) = (b, n')"
      and nt': "nt' = n' \<lparr> flags := (flags n')(?i := MIXED), index := (index n')(?i := word_of_int b) \<rparr>"
      using False assms(4,5)
      by (cases "allocDataBlock m ?nt (index ?nt ?i)")
         (auto simp add: getDataBlock_def Let_def bit_arith split: if_splits)
    note al = allocDataBlock_ok [OF a assms(5)]
    have cap: "dataLength ?nt + 16 \<le> dataCapacity n'"
      "dataCapacity n' \<in> {UNEWTRIE3_INITIAL_DATA_LENGTH, UNEWTRIE3_MEDIUM_DATA_LENGTH,
                            UNEWTRIE3_MAX_DATA_LENGTH}"
      using allocDataBlock_capacity [OF a assms(5)] assms(1) unfolding builder_inv_def by auto
    have ub: "uint (word_of_int b :: u32) = b"
      using al(1) dl assms(5) by (simp add: uint_word_of_int_small)
    let ?t' = "t \<lparr> newTrie := nt' \<rparr>"
    have fl: "flags nt' j = (if j = ?i then MIXED else flags ?nt j)" for j
      by (simp add: nt' al)
    have ix: "index nt' j = (if j = ?i then word_of_int b else index ?nt j)" for j
      by (simp add: nt' al)
    have len: "dataLength nt' = dataLength ?nt + 16" by (simp add: nt' al)
    have ok': "slot_ok nt' j" if "j \<in> {0..<highStart t div 16}" for j
    proof -
      have "slot_ok ?nt j" using assms(1) that unfolding builder_inv_def by simp
      then show ?thesis unfolding slot_ok_def fl ix len using ub al(1) by auto
    qed
    have ap': "slots_apart nt' j k"
      if "j \<in> {0..<highStart t div 16}" "k \<in> {0..<highStart t div 16}" for j k
    proof -
      have "slots_apart ?nt j k" "slot_ok ?nt j" "slot_ok ?nt k"
        using assms(1) that unfolding builder_inv_def by simp_all
      then show ?thesis unfolding slots_apart_def slot_ok_def fl ix using ub al(1) as by auto
    qed
    have d: "0 \<le> dataLength nt'" "dataLength nt' mod 16 = 0"
      "dataLength nt' \<le> dataCapacity nt'"
      "dataCapacity nt' \<in> {UNEWTRIE3_INITIAL_DATA_LENGTH, UNEWTRIE3_MEDIUM_DATA_LENGTH,
                             UNEWTRIE3_MAX_DATA_LENGTH}"
      using assms(1) cap unfolding builder_inv_def len by (simp_all add: nt')
    have inv': "builder_inv ?t'"
      unfolding builder_inv_def using assms(1) ok' ap' d
      by (simp add: builder_inv_def)
    have g: "utrie3bld_get ?t' c' = utrie3bld_get t c'" for c'
    proof -
      consider "c' < 0 \<or> c' > MAX_UNICODE" | "0 \<le> c'" "c' < highStart t"
        | "highStart t \<le> c'" "c' \<le> MAX_UNICODE"
        by linarith
      then show ?thesis
      proof cases
        case 1
        then show ?thesis by (simp add: get_error)
      next
        case 3
        then show ?thesis using inv' assms(1) by (simp add: get_high)
      next
        case 2
        have okj: "slot_ok ?nt (c' div 16)" using assms(1) 2 by (rule builder_inv_slot_ok_cp)
        have r: "0 \<le> c' mod 16" "c' mod 16 < 16" by simp_all
        have dt: "data nt' = data n'" by (simp add: nt')
        have L: "utrie3bld_get ?t' c' =
            (if flags nt' (c' div 16) = ALL_SAME then index nt' (c' div 16)
             else data n' (uint (index nt' (c' div 16)) + c' mod 16))"
          using get_slot [OF inv'] 2 by (simp add: dt)
        have R: "utrie3bld_get t c' =
            (if flags ?nt (c' div 16) = ALL_SAME then index ?nt (c' div 16)
             else data ?nt (uint (index ?nt (c' div 16)) + c' mod 16))"
          using get_slot [OF assms(1)] 2 by simp
        show ?thesis
        proof (cases "c' div 16 = ?i")
          case True
          have "data n' (dataLength ?nt + c' mod 16) = index ?nt ?i"
            using r by (intro al(7)) simp_all
          then show ?thesis
            unfolding L R fl ix using True as ub al(1) by simp
        next
          case False
          show ?thesis
          proof (cases "flags ?nt (c' div 16) = ALL_SAME")
            case True
            then show ?thesis unfolding L R fl ix using False by simp
          next
            case mixed: False
            then have "uint (index ?nt (c' div 16)) + 16 \<le> dataLength ?nt"
              using okj unfolding slot_ok_def by simp
            then have "data n' (uint (index ?nt (c' div 16)) + c' mod 16) =
                       data ?nt (uint (index ?nt (c' div 16)) + c' mod 16)"
              using r by (intro al(6)) simp_all
            then show ?thesis unfolding L R fl ix using False mixed by simp
          qed
        qed
      qed
    qed
    show ?thesis
      using inv' g fl ix ub by simp
  qed
qed

lemma builder_inv_data [simp]:
  "builder_inv (t \<lparr> newTrie := nt \<lparr> data := d' \<rparr> \<rparr>) = builder_inv (t \<lparr> newTrie := nt \<rparr>)"
  by (simp add: builder_inv_def slot_ok_def slots_apart_def)

lemma newTrie_same [simp]: "t \<lparr> newTrie := newTrie t \<rparr> = t"
  by simp

lemma data_update_get:
  assumes "builder_inv t" "0 \<le> i" "i < highStart t div 16" "flags (newTrie t) i = MIXED"
    and fr: "\<And>j. \<not> (uint (index (newTrie t) i) \<le> j \<and> j < uint (index (newTrie t) i) + 16)
               \<Longrightarrow> d' j = data (newTrie t) j"
  shows "utrie3bld_get (t \<lparr> newTrie := (newTrie t) \<lparr> data := d' \<rparr> \<rparr>) c' =
           (if 0 \<le> c' \<and> c' < highStart t \<and> c' div 16 = i
            then d' (uint (index (newTrie t) i) + c' mod 16)
            else utrie3bld_get t c')"
proof -
  let ?nt = "newTrie t"
  let ?t' = "t \<lparr> newTrie := ?nt \<lparr> data := d' \<rparr> \<rparr>"
  have inv': "builder_inv ?t'" using assms(1) by simp
  consider "c' < 0 \<or> c' > MAX_UNICODE" | "0 \<le> c'" "c' < highStart t"
    | "highStart t \<le> c'" "c' \<le> MAX_UNICODE"
    by linarith
  then show ?thesis
  proof cases
    case 1
    then show ?thesis using assms(1) unfolding builder_inv_def by (auto simp add: get_error)
  next
    case 3
    then show ?thesis using inv' assms(1) by (simp add: get_high)
  next
    case 2
    have L: "utrie3bld_get ?t' c' =
        (if flags ?nt (c' div 16) = ALL_SAME then index ?nt (c' div 16)
         else d' (uint (index ?nt (c' div 16)) + c' mod 16))"
      using get_slot [OF inv'] 2 by simp
    have R: "utrie3bld_get t c' =
        (if flags ?nt (c' div 16) = ALL_SAME then index ?nt (c' div 16)
         else data ?nt (uint (index ?nt (c' div 16)) + c' mod 16))"
      using get_slot [OF assms(1)] 2 by simp
    have r: "0 \<le> c' mod 16" "c' mod 16 < 16" by simp_all
    show ?thesis
    proof (cases "c' div 16 = i")
      case True
      then show ?thesis unfolding L using 2 assms(4) by simp
    next
      case False
      show ?thesis
      proof (cases "flags ?nt (c' div 16) = ALL_SAME")
        case True
        then show ?thesis unfolding L R using False by simp
      next
        case mixed: False
        have j: "c' div 16 \<in> {0..<highStart t div 16}"
          using 2 assms(1) unfolding builder_inv_def
          by (simp add: mod16_div_less pos_imp_zdiv_nonneg_iff)
        have okj: "slot_ok ?nt (c' div 16)" using assms(1) 2 by (rule builder_inv_slot_ok_cp)
        have "slots_apart ?nt (c' div 16) i"
          using assms(1,2,3) j unfolding builder_inv_def by simp
        then have "uint (index ?nt (c' div 16)) + 16 \<le> uint (index ?nt i) \<or>
                   uint (index ?nt i) + 16 \<le> uint (index ?nt (c' div 16))"
          using mixed okj assms(4) False unfolding slots_apart_def slot_ok_def by simp
        then have "d' (uint (index ?nt (c' div 16)) + c' mod 16) =
                   data ?nt (uint (index ?nt (c' div 16)) + c' mod 16)"
          using r by (intro fr) linarith
        then show ?thesis unfolding L R using False mixed by simp
      qed
    qed
  qed
qed

lemma set_ok:
  assumes "builder_inv t" "utrie3bld_set m t c v U_ZERO_ERROR = (U_ZERO_ERROR, t')"
  shows "builder_inv t'" and "0 \<le> c" and "c \<le> MAX_UNICODE"
    and "utrie3bld_get t' c' = (if c' = c then v else utrie3bld_get t c')"
    and "errorValue t' = errorValue t" and "initialValue t' = initialValue t"
    and "highStart t \<le> highStart t'"
proof -
  have c: "0 \<le> c" "c \<le> MAX_UNICODE"
    using assms(2) by (auto simp add: utrie3bld_set_def split: if_splits)
  let ?t1 = "ensureHighStart t c"
  have inv1: "builder_inv ?t1" using assms(1) c by (rule ensureHighStart_inv)
  have hs1: "c < highStart ?t1" "highStart t \<le> highStart ?t1"
    using c by (auto simp add: ensureHighStart_highStart) 
  obtain b nt where g: "getDataBlock m (newTrie ?t1) c = (b, nt)"
    by (cases "getDataBlock m (newTrie ?t1) c")
  have nn: "\<not> newTrie_null t" using assms(1) unfolding builder_inv_def by simp
  have b: "0 \<le> b" and t': "t' = ?t1 \<lparr> newTrie := nt \<lparr> data := (data nt)(b + c mod 16 := v) \<rparr> \<rparr>"
    using assms(2) c g nn
    by (auto simp add: utrie3bld_set_def Let_def bit_arith split: if_splits)
  let ?t2 = "?t1 \<lparr> newTrie := nt \<rparr>"
  have gb: "builder_inv ?t2" "flags nt (c div 16) = MIXED" "uint (index nt (c div 16)) = b"
    "\<And>c'. utrie3bld_get ?t2 c' = utrie3bld_get ?t1 c'"
    using getDataBlock_ok_conj [OF inv1 c(1) hs1(1) g b] by simp_all
  have t'2: "t' = ?t2 \<lparr> newTrie := (newTrie ?t2) \<lparr> data := (data nt)(b + c mod 16 := v) \<rparr> \<rparr>"
    by (simp add: t')
  show "builder_inv t'" using gb(1) by (simp add: t')
  show "0 \<le> c" "c \<le> MAX_UNICODE" by (rule c)+
  show "errorValue t' = errorValue t" "initialValue t' = initialValue t"
    by (simp_all add: t' ensureHighStart_fields)
  show "highStart t \<le> highStart t'" using hs1 by (simp add: t')
  have i: "0 \<le> c div 16" "c div 16 < highStart ?t2 div 16"
    using c hs1 inv1 unfolding builder_inv_def
    by (simp_all add: mod16_div_less pos_imp_zdiv_nonneg_iff)
  have "utrie3bld_get t' c' =
          (if 0 \<le> c' \<and> c' < highStart ?t2 \<and> c' div 16 = c div 16
           then ((data nt)(b + c mod 16 := v)) (uint (index (newTrie ?t2) (c div 16)) + c' mod 16)
           else utrie3bld_get ?t2 c')"
    unfolding t'2
    by (rule data_update_get [OF gb(1) i]) (use gb in \<open>auto\<close>)
  also have "\<dots> = (if c' = c then v else utrie3bld_get ?t2 c')"
  proof (cases "c' = c")
    case True
    then show ?thesis using c hs1 gb(3) by simp
  next
    case False
    then have ne: "c' div 16 = c div 16 \<Longrightarrow> c' mod 16 \<noteq> c mod 16"
      by (metis div_mult_mod_eq)
    show ?thesis
    proof (cases "0 \<le> c' \<and> c' < highStart ?t2 \<and> c' div 16 = c div 16")
      case True
      then have "utrie3bld_get ?t2 c' = data nt (b + c' mod 16)"
        using get_slot [OF gb(1), of c'] gb(2,3) by simp
      then show ?thesis using True False ne gb(3) by simp
    next
      case False
      then show ?thesis using \<open>c' \<noteq> c\<close> by auto
    qed
  qed
  also have "\<dots> = (if c' = c then v else utrie3bld_get t c')"
    using gb(4) ensureHighStart_get [OF assms(1) c] by simp
  finally show "utrie3bld_get t' c' = (if c' = c then v else utrie3bld_get t c')" .
qed

lemma in_block_iff:
  fixes c i lo hi :: int
  assumes "0 \<le> lo" "hi \<le> 16"
  shows "c div 16 = i \<and> lo \<le> c mod 16 \<and> c mod 16 < hi \<longleftrightarrow> 16 * i + lo \<le> c \<and> c < 16 * i + hi"
proof (rule div16_cases [of c])
  fix q r :: int
  assume c: "c = 16 * q + r" "0 \<le> r" "r < 16" "c div 16 = q" "c mod 16 = r"
  have "q = i" if "16 * i + lo \<le> c" "c < 16 * i + hi"
    using that c(1,2,3) assms by linarith
  then show ?thesis using c by auto
qed

lemma fill_slot:
  fixes v :: u32 and ow :: bool
  assumes "builder_inv t" "0 \<le> i" "i < highStart t div 16" "flags (newTrie t) i = MIXED"
    "0 \<le> lo" "hi \<le> 16"
  defines "t' \<equiv> t \<lparr> newTrie := (newTrie t) \<lparr> data :=
             fillBlock (data (newTrie t)) (uint (index (newTrie t) i)) lo hi v (initialValue t) ow \<rparr> \<rparr>"
  shows "builder_inv t'"
    and "utrie3bld_get t' c' =
           (if 16 * i + lo \<le> c' \<and> c' < 16 * i + hi \<and> (ow \<or> utrie3bld_get t c' = initialValue t)
            then v else utrie3bld_get t c')"
proof -
  let ?nt = "newTrie t" and ?b = "uint (index (newTrie t) i)"
  let ?d = "fillBlock (data ?nt) ?b lo hi v (initialValue t) ow"
  show "builder_inv t'" using assms(1) by (simp add: t'_def)
  have g: "utrie3bld_get t' c' =
           (if 0 \<le> c' \<and> c' < highStart t \<and> c' div 16 = i then ?d (?b + c' mod 16)
            else utrie3bld_get t c')"
    unfolding t'_def using assms(1-4)
    by (rule data_update_get) (use assms(5,6) in \<open>auto simp add: fillBlock_apply\<close>)
  have hs: "highStart t = 16 * (highStart t div 16)"
    using assms(1) unfolding builder_inv_def by auto
  show "utrie3bld_get t' c' =
           (if 16 * i + lo \<le> c' \<and> c' < 16 * i + hi \<and> (ow \<or> utrie3bld_get t c' = initialValue t)
            then v else utrie3bld_get t c')"
  proof (cases "c' div 16 = i")
    case False
    then have "\<not> (16 * i + lo \<le> c' \<and> c' < 16 * i + hi)"
      using in_block_iff [OF assms(5,6), of c' i] by simp
    then show ?thesis using False g by auto
  next
    case True
    then have r: "0 \<le> c'" "c' < highStart t"
      using assms(2,3) hs by (simp_all add: div16_le_iff [symmetric] div16_less_iff [symmetric])
    then have old: "utrie3bld_get t c' = data ?nt (?b + c' mod 16)"
      using get_slot [OF assms(1), of c'] True assms(4) by simp
    have "utrie3bld_get t' c' = ?d (?b + c' mod 16)" using g r True by simp
    then show ?thesis
      unfolding fillBlock_apply old using in_block_iff [OF assms(5,6), of c' i] True
      by auto
  qed
qed

lemma allsame_update:
  fixes v :: u32
  assumes "builder_inv t" "0 \<le> i" "i < highStart t div 16" "flags (newTrie t) i = ALL_SAME"
  defines "t' \<equiv> t \<lparr> newTrie := (newTrie t) \<lparr> index := (index (newTrie t))(i := v) \<rparr> \<rparr>"
  shows "builder_inv t'"
    and "utrie3bld_get t' c' =
           (if 16 * i \<le> c' \<and> c' < 16 * i + 16 then v else utrie3bld_get t c')"
proof -
  let ?nt = "newTrie t"
  have ok: "slot_ok (newTrie t') j" if "slot_ok ?nt j" for j
    using that assms(4) unfolding slot_ok_def t'_def by auto
  have ap: "slots_apart (newTrie t') j k" if "slots_apart ?nt j k" for j k
    using that assms(4) unfolding slots_apart_def t'_def by auto
  show inv': "builder_inv t'"
    using assms(1) ok ap unfolding builder_inv_def by (simp add: t'_def)
  have hs: "highStart t = 16 * (highStart t div 16)"
    using assms(1) unfolding builder_inv_def by auto
  have blk: "c' div 16 = i \<longleftrightarrow> 16 * i \<le> c' \<and> c' < 16 * i + 16"
    using in_block_iff [of 0 16 c' i] by simp
  consider "c' < 0 \<or> c' > MAX_UNICODE" | "0 \<le> c'" "c' < highStart t"
    | "highStart t \<le> c'" "c' \<le> MAX_UNICODE"
    by linarith
  then show "utrie3bld_get t' c' =
           (if 16 * i \<le> c' \<and> c' < 16 * i + 16 then v else utrie3bld_get t c')"
  proof cases
    case 1
    have "c' div 16 \<noteq> i"
      using 1 assms(1,2,3) hs unfolding builder_inv_def
      by (auto simp add: div16_le_iff div16_less_iff)
    then show ?thesis using 1 blk by (auto simp add: get_error t'_def)
  next
    case 3
    have "c' div 16 \<noteq> i" using 3 assms(3) hs by (auto simp add: div16_less_iff)
    moreover have "utrie3bld_get t' c' = utrie3bld_get t c'"
      using 3 inv' assms(1) by (simp add: get_high t'_def)
    ultimately show ?thesis using blk by auto
  next
    case 2
    have "highStart t' = highStart t" by (simp add: t'_def)
    then have L: "utrie3bld_get t' c' =
        (if flags ?nt (c' div 16) = ALL_SAME then ((index ?nt)(i := v)) (c' div 16)
         else data ?nt (uint (((index ?nt)(i := v)) (c' div 16)) + c' mod 16))"
      using get_slot [OF inv', of c'] 2 by (simp add: t'_def)
    show ?thesis
      unfolding L get_slot [OF assms(1) 2] using blk assms(4) by auto
  qed
qed

lemma setRange_loop_unfold:
  "start < limit \<Longrightarrow>
   setRange_loop nt start limit v iv ow =
     setRange_loop (setRange_body nt (start div 16) v iv ow) (start + 16) limit v iv ow"
  by (subst setRange_loop.simps) (simp add: bit_arith)

lemma setRange_loop_done:
  "\<not> start < limit \<Longrightarrow> setRange_loop nt start limit v iv ow = (nt, start)"
  by (subst setRange_loop.simps) simp

lemma setRange_body_ok:
  fixes v :: u32 and ow :: bool
  assumes "builder_inv t" "0 \<le> start" "start mod 16 = 0" "start < highStart t"
  defines "t1 \<equiv> t \<lparr> newTrie := setRange_body (newTrie t) (start div 16) v (initialValue t) ow \<rparr>"
  shows "builder_inv t1"
    and "utrie3bld_get t1 c' =
           (if start \<le> c' \<and> c' < start + 16 \<and> (ow \<or> utrie3bld_get t c' = initialValue t)
            then v else utrie3bld_get t c')"
proof -
  let ?nt = "newTrie t" and ?i = "start div 16"
  have i: "0 \<le> ?i" "?i < highStart t div 16"
    using assms(1-4) unfolding builder_inv_def
    by (simp_all add: mod16_div_less pos_imp_zdiv_nonneg_iff)
  have s: "16 * ?i = start" using assms(3) by auto
  have ok: "slot_ok ?nt ?i" using assms(1) i by (rule builder_inv_slot_ok)
  have "builder_inv t1 \<and> utrie3bld_get t1 c' =
           (if start \<le> c' \<and> c' < start + 16 \<and> (ow \<or> utrie3bld_get t c' = initialValue t)
            then v else utrie3bld_get t c')"
  proof (cases "flags ?nt ?i = ALL_SAME")
    case False
    then have m: "flags ?nt ?i = MIXED" using ok unfolding slot_ok_def by simp
    have t1: "t1 = t \<lparr> newTrie := ?nt \<lparr> data :=
                 fillBlock (data ?nt) (uint (index ?nt ?i)) 0 16 v (initialValue t) ow \<rparr> \<rparr>"
      using False by (simp add: t1_def setRange_body_def)
    show ?thesis
      unfolding t1
      using fill_slot [OF assms(1) i m, of 0 16 v ow] s by simp
  next
    case True
    have old: "utrie3bld_get t c' = index ?nt ?i" if "start \<le> c'" "c' < start + 16"
    proof -
      have "c' div 16 = ?i" using that s in_block_iff [of 0 16 c' ?i] by simp
      moreover have "c' < highStart t"
        using that i(2) s assms(1) unfolding builder_inv_def
        by (rule_tac c = "highStart t" in div16_cases) auto
      ultimately show ?thesis
        using get_slot [OF assms(1), of c'] that assms(2) True by simp
    qed
    show ?thesis
    proof (cases "ow \<or> index ?nt ?i = initialValue t")
      case w: True
      then have t1: "t1 = t \<lparr> newTrie := ?nt \<lparr> index := (index ?nt)(?i := v) \<rparr> \<rparr>"
        using True by (simp add: t1_def setRange_body_def)
      show ?thesis
        unfolding t1
        using allsame_update [OF assms(1) i True, of v] s old w by auto
    next
      case w: False
      then have t1: "t1 = t" using True by (simp add: t1_def setRange_body_def)
      show ?thesis unfolding t1 using assms(1) old w by auto
    qed
  qed
  then show "builder_inv t1"
    and "utrie3bld_get t1 c' =
           (if start \<le> c' \<and> c' < start + 16 \<and> (ow \<or> utrie3bld_get t c' = initialValue t)
            then v else utrie3bld_get t c')"
    by simp_all
qed

lemma setRange_loop_ok:
  fixes v :: u32 and ow :: bool
  assumes "builder_inv t" "0 \<le> start" "start mod 16 = 0" "limit mod 16 = 0"
    "limit \<le> highStart t" "start \<le> limit"
    "setRange_loop (newTrie t) start limit v (initialValue t) ow = (nt', s')"
  shows "builder_inv (t \<lparr> newTrie := nt' \<rparr>) \<and> s' = limit \<and>
     (\<forall>c'. utrie3bld_get (t \<lparr> newTrie := nt' \<rparr>) c' =
        (if start \<le> c' \<and> c' < limit \<and> (ow \<or> utrie3bld_get t c' = initialValue t)
         then v else utrie3bld_get t c'))"
  using assms
proof (induction "nat (limit - start)" arbitrary: t start rule: less_induct)
  case less
  show ?case
  proof (cases "start < limit")
    case False
    then have "nt' = newTrie t" "s' = start" "start = limit"
      using less.prems by (simp_all add: setRange_loop_done)
    then show ?thesis using less.prems(1) by auto
  next
    case True
    define t1 where "t1 = t \<lparr> newTrie := setRange_body (newTrie t) (start div 16) v (initialValue t) ow \<rparr>"
    have lt: "start < highStart t" using True less.prems(5) by simp
    have b: "builder_inv t1"
      "\<And>c'. utrie3bld_get t1 c' =
           (if start \<le> c' \<and> c' < start + 16 \<and> (ow \<or> utrie3bld_get t c' = initialValue t)
            then v else utrie3bld_get t c')"
      unfolding t1_def
      using setRange_body_ok [OF less.prems(1,2,3) lt] by blast+
    have le: "start + 16 \<le> limit"
      using True less.prems(3,4)
      by (rule_tac c = start in div16_cases, rule_tac c = limit in div16_cases) auto
    have run: "setRange_loop (newTrie t1) (start + 16) limit v (initialValue t1) ow = (nt', s')"
      using less.prems(7) True by (simp add: setRange_loop_unfold t1_def)
    have "builder_inv (t1 \<lparr> newTrie := nt' \<rparr>) \<and> s' = limit \<and>
     (\<forall>c'. utrie3bld_get (t1 \<lparr> newTrie := nt' \<rparr>) c' =
        (if start + 16 \<le> c' \<and> c' < limit \<and> (ow \<or> utrie3bld_get t1 c' = initialValue t1)
         then v else utrie3bld_get t1 c'))"
    proof (rule less.hyps [OF _ b(1) _ _ _ _ le run])
      show "nat (limit - (start + 16)) < nat (limit - start)" using True by simp
      show "0 \<le> start + 16" using less.prems(2) by simp
      show "(start + 16) mod 16 = 0" using less.prems(3) by simp
      show "limit mod 16 = 0" by (rule less.prems(4))
      show "limit \<le> highStart t1" using less.prems(5) by (simp add: t1_def)
    qed
    moreover have "t1 \<lparr> newTrie := nt' \<rparr> = t \<lparr> newTrie := nt' \<rparr>" "initialValue t1 = initialValue t"
      by (simp_all add: t1_def)
    ultimately show ?thesis using b(2) le by auto
  qed
qed

lemma setRange_rest_ok:
  fixes v :: u32 and ow :: bool
  assumes "builder_inv t" "0 \<le> start" "start mod 16 = 0" "start \<le> limit"
    "limit \<le> highStart t"
    "setRange_rest m t start limit v ow U_ZERO_ERROR = (e', t')"
  shows "builder_inv t' \<and> highStart t' = highStart t \<and> initialValue t' = initialValue t \<and>
     errorValue t' = errorValue t \<and>
     (e' = U_ZERO_ERROR \<longrightarrow>
       (\<forall>c'. utrie3bld_get t' c' =
          (if start \<le> c' \<and> c' < limit \<and> (ow \<or> utrie3bld_get t c' = initialValue t)
           then v else utrie3bld_get t c')))"
proof -
  define L where "L = 16 * (limit div 16)"
  define rest where "rest = limit mod 16"
  have lim: "limit = L + rest" "0 \<le> rest" "rest < 16" "L mod 16 = 0"
    by (simp_all add: L_def rest_def)
  have sL: "start \<le> L"
    using assms(3,4) unfolding L_def
    by (rule_tac c = start in div16_cases, rule_tac c = limit in div16_cases) auto
  obtain nt1 s1 where loop: "setRange_loop (newTrie t) start L v (initialValue t) ow = (nt1, s1)"
    by (cases "setRange_loop (newTrie t) start L v (initialValue t) ow")
  let ?t1 = "t \<lparr> newTrie := nt1 \<rparr>"
  have Lh: "L \<le> highStart t" using lim assms(5) by simp
  have l1: "builder_inv ?t1" "s1 = L"
    "\<And>c'. utrie3bld_get ?t1 c' =
        (if start \<le> c' \<and> c' < L \<and> (ow \<or> utrie3bld_get t c' = initialValue t)
         then v else utrie3bld_get t c')"
    using setRange_loop_ok [OF assms(1,2,3) lim(4) Lh sL loop] by blast+
  show ?thesis
  proof (cases "rest > 0")
    case False
    then have "rest = 0" "limit = L" using lim by simp_all
    moreover have "e' = U_ZERO_ERROR" "t' = ?t1"
      using assms(6) loop False
      by (simp_all add: setRange_rest_def Let_def bit_arith L_def rest_def)
    ultimately show ?thesis using l1 by simp
  next
    case True
    obtain b nt2 where g: "getDataBlock m (newTrie ?t1) L = (b, nt2)"
      by (cases "getDataBlock m (newTrie ?t1) L")
    have L0: "0 \<le> L" using assms(2) sL by simp
    have L1: "L < highStart ?t1" using True lim assms(5) by simp
    show ?thesis
    proof (cases "b < 0")
      case neg: True
      then have "nt2 = nt1" using getDataBlock_fail [OF l1(1) L0 L1 g] by simp
      moreover have "e' = U_MEMORY_ALLOCATION_ERROR" "t' = t \<lparr> newTrie := nt2 \<rparr>"
        using assms(6) loop True g neg l1(2)
        by (simp_all add: setRange_rest_def Let_def bit_arith L_def rest_def)
      ultimately show ?thesis using l1(1) by simp
    next
      case False
      then have b0: "0 \<le> b" by simp
      let ?t2 = "?t1 \<lparr> newTrie := nt2 \<rparr>"
      have gb: "builder_inv ?t2" "flags nt2 (L div 16) = MIXED" "uint (index nt2 (L div 16)) = b"
        "\<And>c'. utrie3bld_get ?t2 c' = utrie3bld_get ?t1 c'"
        using getDataBlock_ok_conj [OF l1(1) L0 L1 g b0] by simp_all
      have e': "e' = U_ZERO_ERROR"
        and t': "t' = ?t2 \<lparr> newTrie := (newTrie ?t2) \<lparr> data :=
                   fillBlock (data (newTrie ?t2)) (uint (index (newTrie ?t2) (L div 16)))
                     0 rest v (initialValue ?t2) ow \<rparr> \<rparr>"
        using assms(6) loop True g False l1(2) gb(3)
        by (simp_all add: setRange_rest_def Let_def bit_arith L_def rest_def)
      have i: "0 \<le> L div 16" "L div 16 < highStart ?t2 div 16"
        using L0 L1 gb(1) unfolding builder_inv_def
        by (simp_all add: mod16_div_less pos_imp_zdiv_nonneg_iff)
      have m: "flags (newTrie ?t2) (L div 16) = MIXED" using gb(2) by simp
      have r16: "rest \<le> 16" using lim by simp
      have LL: "16 * (L div 16) = L" by (simp add: L_def)
      have f: "builder_inv t'"
        "\<And>c'. utrie3bld_get t' c' =
           (if L \<le> c' \<and> c' < L + rest \<and> (ow \<or> utrie3bld_get ?t2 c' = initialValue ?t2)
            then v else utrie3bld_get ?t2 c')"
        unfolding t'
        using fill_slot [OF gb(1) i m order_refl r16, of v ow] LL by simp_all
      have "utrie3bld_get t' c' =
          (if start \<le> c' \<and> c' < limit \<and> (ow \<or> utrie3bld_get t c' = initialValue t)
           then v else utrie3bld_get t c')" for c'
        unfolding f(2) gb(4) l1(3) using lim sL by auto
      then show ?thesis using f(1) e' by (simp add: t')
    qed
  qed
qed

lemma setRange_any:
  fixes v :: u32 and ow :: bool
  assumes "builder_inv t" "utrie3bld_setRange m t start end' v ow e = (e', t')"
  shows "builder_inv t' \<and> highStart t \<le> highStart t' \<and> initialValue t' = initialValue t \<and>
     errorValue t' = errorValue t \<and>
     (e = U_ZERO_ERROR \<and> e' = U_ZERO_ERROR \<longrightarrow>
        0 \<le> start \<and> start \<le> end' \<and> end' \<le> MAX_UNICODE \<and>
        (\<forall>c'. utrie3bld_get t' c' =
          (if start \<le> c' \<and> c' \<le> end' \<and> (ow \<or> utrie3bld_get t c' = initialValue t)
           then v else utrie3bld_get t c')))"
proof -
  have nn: "\<not> newTrie_null t" using assms(1) unfolding builder_inv_def by simp
  consider (fail) "U_FAILURE e"
    | (illegal) "\<not> U_FAILURE e" "start < 0 \<or> start > MAX_UNICODE \<or> end' < 0 \<or> end' > MAX_UNICODE \<or> start > end'"
    | (noop) "\<not> U_FAILURE e" "0 \<le> start" "start \<le> end'" "end' \<le> MAX_UNICODE"
        "\<not> ow \<and> v = initialValue t"
    | (work) "\<not> U_FAILURE e" "0 \<le> start" "start \<le> end'" "end' \<le> MAX_UNICODE"
        "\<not> (\<not> ow \<and> v = initialValue t)"
    by linarith
  then show ?thesis
  proof cases
    case fail
    then have "t' = t" "e' = e" using assms(2) by (simp_all add: utrie3bld_setRange_def)
    then show ?thesis using assms(1) fail by auto
  next
    case illegal
    then have "t' = t" "e' = U_ILLEGAL_ARGUMENT_ERROR"
      using assms(2) by (auto simp add: utrie3bld_setRange_def)
    then show ?thesis using assms(1) by simp
  next
    case noop
    then have "t' = t" "e' = e"
      using assms(2) nn by (auto simp add: utrie3bld_setRange_def)
    then show ?thesis using assms(1) noop by auto
  next
    case work
    then have e: "e = U_ZERO_ERROR" by (cases e) simp_all
    let ?t1 = "ensureHighStart t end'"
    have e0: "0 \<le> end'" using work by simp
    have inv1: "builder_inv ?t1" using assms(1) e0 work(4) by (rule ensureHighStart_inv)
    have hs1: "end' + 1 \<le> highStart ?t1" "highStart t \<le> highStart ?t1"
      by (auto simp add: ensureHighStart_highStart)
    have g1: "utrie3bld_get ?t1 c' = utrie3bld_get t c'" for c'
      using assms(1) e0 work(4) by (rule ensureHighStart_get)
    have f1: "initialValue ?t1 = initialValue t" "errorValue ?t1 = errorValue t"
      by (simp_all add: ensureHighStart_fields)
    show ?thesis
    proof (cases "start mod 16 = 0")
      case True
      then have "setRange_rest m ?t1 start (end' + 1) v ow U_ZERO_ERROR = (e', t')"
        using assms(2) work nn e
        by (auto simp add: utrie3bld_setRange_def Let_def bit_arith)
      from setRange_rest_ok [OF inv1 work(2) True _ hs1(1) this] work(3)
      show ?thesis using hs1(2) g1 f1 work by auto
    next
      case False
      obtain b nt where g: "getDataBlock m (newTrie ?t1) start = (b, nt)"
        by (cases "getDataBlock m (newTrie ?t1) start")
      have s1: "start < highStart ?t1" using hs1 work(3) by simp
      show ?thesis
      proof (cases "b < 0")
        case True
        then have "nt = newTrie ?t1" using getDataBlock_fail [OF inv1 work(2) s1 g] by simp
        moreover have "e' = U_MEMORY_ALLOCATION_ERROR" "t' = ?t1 \<lparr> newTrie := nt \<rparr>"
          using assms(2) work nn e False g True
          by (auto simp add: utrie3bld_setRange_def Let_def bit_arith)
        ultimately show ?thesis using inv1 hs1(2) f1 by simp
      next
        case bpos: False
        then have b0: "0 \<le> b" by simp
        let ?t2 = "?t1 \<lparr> newTrie := nt \<rparr>"
        let ?i = "start div 16"
        have gb: "builder_inv ?t2" "flags nt ?i = MIXED" "uint (index nt ?i) = b"
          "\<And>c'. utrie3bld_get ?t2 c' = utrie3bld_get ?t1 c'"
          using getDataBlock_ok_conj [OF inv1 work(2) s1 g b0] by simp_all
        have i: "0 \<le> ?i" "?i < highStart ?t2 div 16"
          using work(2) s1 inv1 unfolding builder_inv_def
          by (simp_all add: mod16_div_less pos_imp_zdiv_nonneg_iff)
        have m: "flags (newTrie ?t2) ?i = MIXED" using gb(2) by simp
        have lo: "0 \<le> start mod 16" by simp
        have st: "16 * ?i + start mod 16 = start" by simp
        define next' where "next' = 16 * ((start + 15) div 16)"
        have "(start + 15) div 16 = ?i + 1 \<and> (start + 15) mod 16 = start mod 16 - 1"
          unfolding div16_eq_iff using False
          by (rule_tac c = start in div16_cases) auto
        then have nx: "next' = 16 * ?i + 16"
          unfolding next'_def by simp
        show ?thesis
        proof (cases "next' \<le> end' + 1")
          case True
          define t3 where "t3 = ?t2 \<lparr> newTrie := (newTrie ?t2) \<lparr> data :=
                   fillBlock (data (newTrie ?t2)) (uint (index (newTrie ?t2) ?i))
                     (start mod 16) 16 v (initialValue ?t2) ow \<rparr> \<rparr>"
          have f: "builder_inv t3"
            "\<And>c'. utrie3bld_get t3 c' =
               (if start \<le> c' \<and> c' < next' \<and> (ow \<or> utrie3bld_get ?t2 c' = initialValue ?t2)
                then v else utrie3bld_get ?t2 c')"
            unfolding t3_def nx
            using fill_slot [OF gb(1) i m lo order_refl, of v ow] st by simp_all
          have r: "setRange_rest m t3 next' (end' + 1) v ow U_ZERO_ERROR = (e', t')"
            using assms(2) work nn e False g bpos True gb(3)
            by (auto simp add: utrie3bld_setRange_def Let_def bit_arith t3_def next'_def f1)
          have n0: "0 \<le> next'" "next' mod 16 = 0" using nx i(1) by simp_all
          have h3: "end' + 1 \<le> highStart t3" "highStart t3 = highStart ?t1"
            "initialValue t3 = initialValue t" "errorValue t3 = errorValue t"
            using hs1 by (simp_all add: t3_def f1)
          have sn: "start < next'" using nx st by linarith
          from setRange_rest_ok [OF f(1) n0 True h3(1) r]
          show ?thesis unfolding f(2) gb(4) g1 h3 using hs1(2) work True sn f1 by auto
        next
          case over: False
          have "16 * ?i + start mod 16 \<le> end' + 1 \<and> end' + 1 < 16 * ?i + 16"
            using over work(3) nx st by linarith
          then have "(end' + 1) div 16 = ?i \<and> start mod 16 \<le> (end' + 1) mod 16 \<and>
                     (end' + 1) mod 16 < 16"
            using in_block_iff [OF lo order_refl, of "end' + 1" ?i] by simp
          then have same: "(end' + 1) div 16 = ?i" by simp
          have hi: "(end' + 1) mod 16 \<le> 16" by simp
          have en: "16 * ?i + (end' + 1) mod 16 = end' + 1"
            using same(1) by (metis mult_div_mod_eq)
          have t': "t' = ?t2 \<lparr> newTrie := (newTrie ?t2) \<lparr> data :=
                   fillBlock (data (newTrie ?t2)) (uint (index (newTrie ?t2) ?i))
                     (start mod 16) ((end' + 1) mod 16) v (initialValue ?t2) ow \<rparr> \<rparr>"
            and e': "e' = U_ZERO_ERROR"
            using assms(2) work nn e False g bpos over gb(3)
            by (auto simp add: utrie3bld_setRange_def Let_def bit_arith next'_def f1)
          have f: "builder_inv t'"
            "\<And>c'. utrie3bld_get t' c' =
               (if start \<le> c' \<and> c' < end' + 1 \<and> (ow \<or> utrie3bld_get ?t2 c' = initialValue ?t2)
                then v else utrie3bld_get ?t2 c')"
            unfolding t'
            using fill_slot [OF gb(1) i m lo hi, of v ow] st en by simp_all
          show ?thesis
            unfolding f(2) gb(4) g1 using f(1) hs1(2) work f1
            by (auto simp add: t')
        qed
      qed
    qed
  qed
qed

lemma open_ok:
  assumes "utrie3bld_open alloc iv ev U_ZERO_ERROR = (e, Some t)"
  shows "builder_inv t" and "e = U_ZERO_ERROR" and "initialValue t = iv" and "errorValue t = ev"
    and "highStart t = 0"
  using assms
  by (auto simp add: utrie3bld_open_def builder_inv_def split: option.splits)

lemma set_any:
  assumes "builder_inv t" "utrie3bld_set m t c v e = (e', t')"
  shows "builder_inv t' \<and> highStart t \<le> highStart t' \<and> initialValue t' = initialValue t \<and>
     errorValue t' = errorValue t \<and>
     (e = U_ZERO_ERROR \<and> e' = U_ZERO_ERROR \<longrightarrow>
        0 \<le> c \<and> c \<le> MAX_UNICODE \<and>
        (\<forall>c'. utrie3bld_get t' c' = (if c' = c then v else utrie3bld_get t c')))"
proof -
  have nn: "\<not> newTrie_null t" using assms(1) unfolding builder_inv_def by simp
  consider (fail) "U_FAILURE e" | (illegal) "\<not> U_FAILURE e" "c < 0 \<or> c > MAX_UNICODE"
    | (work) "\<not> U_FAILURE e" "0 \<le> c" "c \<le> MAX_UNICODE"
    by linarith
  then show ?thesis
  proof cases
    case fail
    then have "t' = t" "e' = e" using assms(2) by (simp_all add: utrie3bld_set_def)
    then show ?thesis using assms(1) fail by auto
  next
    case illegal
    then have "t' = t" "e' = U_ILLEGAL_ARGUMENT_ERROR"
      using assms(2) by (auto simp add: utrie3bld_set_def)
    then show ?thesis using assms(1) by simp
  next
    case work
    then have e: "e = U_ZERO_ERROR" by (cases e) simp_all
    show ?thesis
    proof (cases "e' = U_ZERO_ERROR")
      case True
      show ?thesis
        using set_ok [OF assms(1) assms(2) [unfolded e True]] by simp
    next
      case False
      let ?t1 = "ensureHighStart t c"
      have inv1: "builder_inv ?t1" using assms(1) work(2,3) by (rule ensureHighStart_inv)
      have hs1: "c < highStart ?t1" "highStart t \<le> highStart ?t1"
        using work by (auto simp add: ensureHighStart_highStart)
      obtain b nt where g: "getDataBlock m (newTrie ?t1) c = (b, nt)"
        by (cases "getDataBlock m (newTrie ?t1) c")
      have "b < 0" and t': "t' = ?t1 \<lparr> newTrie := nt \<rparr>"
        using assms(2) work g nn False e
        by (auto simp add: utrie3bld_set_def Let_def split: if_splits)
      then have "nt = newTrie ?t1" using getDataBlock_fail [OF inv1 work(2) hs1(1) g] by simp
      then show ?thesis using inv1 hs1(2) False by (simp add: t' ensureHighStart_fields)
    qed
  qed
qed

lemma apply_op_any:
  assumes "builder_inv t" "apply_op m x (e, t) = (e', t')"
  shows "builder_inv t' \<and> highStart t \<le> highStart t' \<and> initialValue t' = initialValue t \<and>
     errorValue t' = errorValue t \<and> (U_FAILURE e \<longrightarrow> e' = e) \<and>
     (e = U_ZERO_ERROR \<and> e' = U_ZERO_ERROR \<longrightarrow>
        (\<forall>c'. utrie3bld_get t' c' = written_op (initialValue t) x (utrie3bld_get t) c'))"
proof (cases x)
  case (Set c v)
  then have s: "utrie3bld_set m t c v e = (e', t')" using assms(2) by simp
  have "U_FAILURE e \<longrightarrow> e' = e" using s by (auto simp add: utrie3bld_set_def)
  then show ?thesis using set_any [OF assms(1) s] Set by auto
next
  case (SetRange s' en v ow)
  then have s: "utrie3bld_setRange m t s' en v ow e = (e', t')" using assms(2) by simp
  have "U_FAILURE e \<longrightarrow> e' = e" using s by (auto simp add: utrie3bld_setRange_def)
  then show ?thesis using setRange_any [OF assms(1) s] SetRange by auto
qed

lemma run_ops_any:
  assumes "builder_inv t" "run_ops m ops (e, t) = (e', t')"
  shows "builder_inv t' \<and> highStart t \<le> highStart t' \<and> initialValue t' = initialValue t \<and>
     errorValue t' = errorValue t \<and> (U_FAILURE e \<longrightarrow> e' = e) \<and>
     (e' = U_ZERO_ERROR \<longrightarrow>
        (\<forall>c'. utrie3bld_get t' c' = written (initialValue t) ops (utrie3bld_get t) c'))"
  using assms
proof (induction ops arbitrary: e t)
  case Nil
  then show ?case by simp
next
  case (Cons x xs)
  obtain e1 t1 where a: "apply_op m x (e, t) = (e1, t1)" by (cases "apply_op m x (e, t)")
  then have r: "run_ops m xs (e1, t1) = (e', t')" using Cons.prems(2) by simp
  note A = apply_op_any [OF Cons.prems(1) a]
  note R = Cons.IH [OF conjunct1 [OF A] r]
  have z: "e = U_ZERO_ERROR \<and> e1 = U_ZERO_ERROR" if "e' = U_ZERO_ERROR"
  proof -
    have "\<not> U_FAILURE e1" using R that by auto
    moreover then have "\<not> U_FAILURE e" using A by auto
    ultimately show ?thesis by (cases e; cases e1) simp_all
  qed
  have g1: "utrie3bld_get t1 = written_op (initialValue t) x (utrie3bld_get t)"
    if "e' = U_ZERO_ERROR"
  proof
    fix c'
    show "utrie3bld_get t1 c' = written_op (initialValue t) x (utrie3bld_get t) c'"
      using A z [OF that] by blast
  qed
  have 1: "builder_inv t'" using R by blast
  have 2: "highStart t \<le> highStart t'"
    using A R by (meson order_trans)
  have 3: "initialValue t' = initialValue t" "errorValue t' = errorValue t"
    using A R by simp_all
  have 4: "U_FAILURE e \<longrightarrow> e' = e"
  proof
    assume f: "U_FAILURE e"
    then have "e1 = e" using A by blast
    then show "e' = e" using R f by blast
  qed
  have 5: "e' = U_ZERO_ERROR \<longrightarrow>
        (\<forall>c'. utrie3bld_get t' c' = written (initialValue t) (x # xs) (utrie3bld_get t) c')"
  proof (intro impI allI)
    fix c'
    assume e': "e' = U_ZERO_ERROR"
    have i1: "initialValue t1 = initialValue t" using A by blast
    have "utrie3bld_get t' c' = written (initialValue t1) xs (utrie3bld_get t1) c'"
      using R e' by blast
    then show "utrie3bld_get t' c' = written (initialValue t) (x # xs) (utrie3bld_get t) c'"
      unfolding g1 [OF e'] i1 by simp
  qed
  show ?case by (intro conjI 1 2 3 4 5)
qed

lemma written_cong:
  "f c = g c \<Longrightarrow> written iv ops f c = written iv ops g c"
proof (induction ops arbitrary: f g)
  case Nil
  then show ?case by simp
next
  case (Cons x xs)
  have "written_op iv x f c = written_op iv x g c"
    using Cons.prems by (cases x) auto
  then have "written iv xs (written_op iv x f) c = written iv xs (written_op iv x g) c"
    by (rule Cons.IH)
  then show ?case by simp
qed

lemma build_any:
  assumes "build alloc m iv ev ops = Some (e, t)"
  shows "builder_inv t" and "initialValue t = iv" and "errorValue t = ev"
    and "e = U_ZERO_ERROR \<Longrightarrow> 0 \<le> c \<Longrightarrow> c \<le> MAX_UNICODE \<Longrightarrow>
           utrie3bld_get t c = written iv ops (\<lambda>_. iv) c"
proof -
  obtain e0 t0 where o: "utrie3bld_open alloc iv ev U_ZERO_ERROR = (e0, Some t0)"
    and r: "run_ops m ops (e0, t0) = (e, t)"
    using assms by (auto simp add: build_def split: prod.splits option.splits)
  note O = open_ok [OF o]
  note R = run_ops_any [OF O(1) r]
  show "builder_inv t" "initialValue t = iv" "errorValue t = ev" using R O by simp_all
  assume "e = U_ZERO_ERROR" "0 \<le> c" "c \<le> MAX_UNICODE"
  moreover from this have "utrie3bld_get t0 c = (\<lambda>_. iv) c"
    using O by (simp add: get_high)
  ultimately show "utrie3bld_get t c = written iv ops (\<lambda>_. iv) c"
    using R O written_cong [of "utrie3bld_get t0" c "\<lambda>_. iv" iv ops] by simp
qed

section \<open>The claims about the build path\<close>

text \<open>
  C1. After \<^verbatim>\<open>utrie3bld_open\<close> and any sequence of \<^verbatim>\<open>utrie3bld_set\<close> and
  \<^verbatim>\<open>utrie3bld_setRange\<close> calls that all succeed, \<^verbatim>\<open>utrie3bld_get\<close> returns at every code
  point of \<open>[0, 0x10FFFF]\<close> the last value written there by the sequence, where a range call
  without \<open>overwrite\<close> writes only where the value at that moment is the initial value, and
  the initial value where no call wrote.
\<close>

theorem get_returns_last_written:
  assumes "build alloc uprv_malloc iv ev ops = Some (U_ZERO_ERROR, t)"
    and "0 \<le> c" and "c \<le> MAX_UNICODE"
  shows "utrie3bld_get t c = written iv ops (\<lambda>_. iv) c"
  using build_any(4) [OF assms(1) refl assms(2,3)] .

theorem get_returns_last_written_witness:
  "\<exists>t. build (Some blank_builder) no_memory 0 0xBAD
         [SetRange 0x40 0x5F 9 True, Set 0x41 7, SetRange 0x30 0x4F 3 False]
         = Some (U_ZERO_ERROR, t) \<and>
       utrie3bld_get t 0x41 = 7 \<and> utrie3bld_get t 0x30 = 3 \<and> utrie3bld_get t 0x42 = 9 \<and>
       utrie3bld_get t 0x60 = 0"
proof -
  let ?ops = "[SetRange 0x40 0x5F 9 True, Set 0x41 7, SetRange 0x30 0x4F 3 False]"
  let ?b = "build (Some blank_builder) no_memory 0 0xBAD ?ops"
  have "fst (the ?b) = U_ZERO_ERROR" "?b \<noteq> None" by code_simp+
  then obtain t where b: "?b = Some (U_ZERO_ERROR, t)" by (cases ?b) auto
  have "utrie3bld_get t 0x41 = written 0 ?ops (\<lambda>_. 0) 0x41"
    "utrie3bld_get t 0x30 = written 0 ?ops (\<lambda>_. 0) 0x30"
    "utrie3bld_get t 0x42 = written 0 ?ops (\<lambda>_. 0) 0x42"
    "utrie3bld_get t 0x60 = written 0 ?ops (\<lambda>_. 0) 0x60"
    by (rule get_returns_last_written [OF b]; simp)+
  then show ?thesis using b by simp
qed

text \<open>
  C7. In every trie state reached by \<^verbatim>\<open>utrie3bld_open\<close>, \<^verbatim>\<open>utrie3bld_set\<close> and
  \<^verbatim>\<open>utrie3bld_setRange\<close>, whatever their status codes, \<^verbatim>\<open>utrie3bld_get(trie, c)\<close> returns
  \<open>errorValue\<close> when \<open>c\<close> is above \<open>0x10FFFF\<close> as an unsigned number (negative or above
  \<open>0x10FFFF\<close> as the signed \<^verbatim>\<open>UChar32\<close>), \<open>highValue\<close> when \<open>c\<close> is in
  \<open>[highStart, 0x10FFFF]\<close>, and otherwise reads slot \<open>i = c >> UTRIE3_SHIFT_2\<close>, which is
  ALL_SAME or MIXED: \<open>index[i]\<close> for ALL_SAME and
  \<open>data[index[i] + (c & UTRIE3_DATA_MASK)]\<close> for MIXED.
\<close>

theorem get_by_cases:
  assumes "build alloc uprv_malloc iv ev ops = Some (e, t)"
  shows "(c < 0 \<or> c > MAX_UNICODE \<longrightarrow> utrie3bld_get t c = errorValue t) \<and>
         (highStart t \<le> c \<and> c \<le> MAX_UNICODE \<longrightarrow> utrie3bld_get t c = highValue t) \<and>
         (0 \<le> c \<and> c < highStart t \<longrightarrow>
            (flags (newTrie t) (drop_bit UTRIE3_SHIFT_2 c) = ALL_SAME \<and>
               utrie3bld_get t c = index (newTrie t) (drop_bit UTRIE3_SHIFT_2 c)) \<or>
            (flags (newTrie t) (drop_bit UTRIE3_SHIFT_2 c) = MIXED \<and>
               utrie3bld_get t c =
                 data (newTrie t) (uint (index (newTrie t) (drop_bit UTRIE3_SHIFT_2 c)) +
                                   (c AND UTRIE3_DATA_MASK))))"
proof -
  have inv: "builder_inv t" using assms by (rule build_any(1))
  have 1: "c < 0 \<or> c > MAX_UNICODE \<longrightarrow> utrie3bld_get t c = errorValue t"
    by (simp add: get_error)
  have 2: "highStart t \<le> c \<and> c \<le> MAX_UNICODE \<longrightarrow> utrie3bld_get t c = highValue t"
    using inv unfolding builder_inv_def by (simp add: utrie3bld_get_def)
  have 3: "(flags (newTrie t) (drop_bit UTRIE3_SHIFT_2 c) = ALL_SAME \<and>
               utrie3bld_get t c = index (newTrie t) (drop_bit UTRIE3_SHIFT_2 c)) \<or>
            (flags (newTrie t) (drop_bit UTRIE3_SHIFT_2 c) = MIXED \<and>
               utrie3bld_get t c =
                 data (newTrie t) (uint (index (newTrie t) (drop_bit UTRIE3_SHIFT_2 c)) +
                                   (c AND UTRIE3_DATA_MASK)))"
    if "0 \<le> c \<and> c < highStart t"
  proof -
    have "slot_ok (newTrie t) (c div 16)" using inv that by (simp add: builder_inv_slot_ok_cp)
    then show ?thesis
      unfolding slot_ok_def using get_slot [OF inv, of c] that by (auto simp add: bit_arith)
  qed
  show ?thesis using 1 2 3 by blast
qed

theorem get_by_cases_witness:
  "\<exists>e t. build (Some blank_builder) no_memory 5 0xBAD [Set 0x41 7, SetRange 0 0x2F 3 True]
            = Some (e, t) \<and>
     utrie3bld_get t 0x110000 = 0xBAD \<and> utrie3bld_get t (-1) = 0xBAD \<and>
     highStart t = 0x50 \<and> utrie3bld_get t 0x50 = highValue t \<and>
     flags (newTrie t) 4 = MIXED \<and> utrie3bld_get t 0x41 = data (newTrie t) (uint (index (newTrie t) 4) + 1) \<and>
     flags (newTrie t) 2 = ALL_SAME \<and> utrie3bld_get t 0x2F = index (newTrie t) 2"
proof -
  let ?b = "build (Some blank_builder) no_memory 5 0xBAD [Set 0x41 7, SetRange 0 0x2F 3 True]"
  have "?b \<noteq> None" by code_simp
  then obtain e t where b: "?b = Some (e, t)" by (cases ?b) auto
  have hs: "highStart (snd (the ?b)) = 0x50" "flags (newTrie (snd (the ?b))) 4 = MIXED"
    "flags (newTrie (snd (the ?b))) 2 = ALL_SAME"
    by code_simp+
  then have hs': "highStart t = 0x50" "flags (newTrie t) 4 = MIXED" "flags (newTrie t) 2 = ALL_SAME"
    using b by simp_all
  show ?thesis
    using get_by_cases [OF b, of "0x110000"] get_by_cases [OF b, of "-1"]
      get_by_cases [OF b, of "0x50"] get_by_cases [OF b, of "0x41"]
      get_by_cases [OF b, of "0x2F"] hs' b
    by (simp add: build_any(3) [OF b])
qed

text \<open>
  C8. In every trie state reached by \<^verbatim>\<open>utrie3bld_open\<close>, \<^verbatim>\<open>utrie3bld_set\<close> and
  \<^verbatim>\<open>utrie3bld_setRange\<close>, \<open>highStart\<close> is a multiple of \<open>UTRIE3_DATA_BLOCK_LENGTH\<close>
  between \<open>0\<close> and \<open>0x110000\<close>, every slot below \<open>highStart >> UTRIE3_SHIFT_2\<close> is ALL_SAME
  or MIXED, and no further call, successful or not, decreases \<open>highStart\<close>.
\<close>

theorem highStart_invariant:
  assumes "build alloc uprv_malloc iv ev ops = Some (e, t)"
  shows "highStart t mod UTRIE3_DATA_BLOCK_LENGTH = 0 \<and> 0 \<le> highStart t \<and>
         highStart t \<le> UNICODE_LIMIT \<and>
         (\<forall>i. 0 \<le> i \<and> i < drop_bit UTRIE3_SHIFT_2 (highStart t) \<longrightarrow>
              flags (newTrie t) i = ALL_SAME \<or> flags (newTrie t) i = MIXED) \<and>
         (\<forall>uprv_malloc' x e' t'. apply_op uprv_malloc' x (e, t) = (e', t') \<longrightarrow>
              highStart t \<le> highStart t')"
proof -
  have inv: "builder_inv t" using assms by (rule build_any(1))
  have "flags (newTrie t) i = ALL_SAME \<or> flags (newTrie t) i = MIXED"
    if "0 \<le> i \<and> i < drop_bit UTRIE3_SHIFT_2 (highStart t)" for i
    using builder_inv_slot_ok [OF inv, of i] that unfolding slot_ok_def
    by (auto simp add: bit_arith)
  moreover have "highStart t \<le> highStart t'" if "apply_op m' x (e, t) = (e', t')" for m' x e' t'
    using apply_op_any [OF inv that] by blast
  ultimately show ?thesis using inv unfolding builder_inv_def by blast
qed

theorem highStart_invariant_witness:
  "\<exists>e t e' t'. build (Some blank_builder) no_memory 5 0xBAD [Set 0x41 7] = Some (e, t) \<and>
     apply_op no_memory (SetRange 0x20 0x61 1 False) (e, t) = (e', t') \<and>
     highStart t = 0x50 \<and> highStart t' = 0x70 \<and>
     flags (newTrie t) 4 = MIXED \<and> flags (newTrie t) 0 = ALL_SAME"
proof -
  let ?b = "build (Some blank_builder) no_memory 5 0xBAD [Set 0x41 7]"
  have "?b \<noteq> None" by code_simp
  then obtain e t where b: "?b = Some (e, t)" by (cases ?b) auto
  obtain e' t' where a: "apply_op no_memory (SetRange 0x20 0x61 1 False) (e, t) = (e', t')"
    by (cases "apply_op no_memory (SetRange 0x20 0x61 1 False) (e, t)")
  have "highStart (snd (the ?b)) = 0x50"
    "highStart (snd (apply_op no_memory (SetRange 0x20 0x61 1 False) (the ?b))) = 0x70"
    "flags (newTrie (snd (the ?b))) 4 = MIXED" "flags (newTrie (snd (the ?b))) 0 = ALL_SAME"
    by code_simp+
  then have v: "highStart t = 0x50" "highStart t' = 0x70"
    "flags (newTrie t) 4 = MIXED" "flags (newTrie t) 0 = ALL_SAME"
    using a b by simp_all
  have "highStart t \<le> highStart t' \<and> flags (newTrie t) 4 = MIXED"
    using highStart_invariant [OF b] a v by simp
  then show ?thesis using a b v by blast
qed



section \<open>Properties of masking and of the high start\<close>

lemma freeze_bmp_ok_iff:
  "freeze_bmp_ok idx dataMove p i \<longleftrightarrow>
     (\<forall>k. 0 \<le> k \<and> k < i \<longrightarrow> \<not> word_of_int dataMove + idx (p + k) > (0xFFFF :: u32))"
proof (induction idx dataMove p i rule: freeze_bmp_ok.induct)
  case (1 idx dataMove p i)
  show ?case
  proof (cases "i > 0")
    case False
    then show ?thesis by (subst freeze_bmp_ok.simps) auto
  next
    case True
    show ?thesis
    proof (cases "word_of_int dataMove + idx p > (0xFFFF :: u32)")
      case big: True
      then have "\<not> freeze_bmp_ok idx dataMove p i"
        using True by (subst freeze_bmp_ok.simps) simp
      moreover have "\<exists>k. 0 \<le> k \<and> k < i \<and> word_of_int dataMove + idx (p + k) > (0xFFFF :: u32)"
        using big True by (intro exI [of _ 0]) simp
      ultimately show ?thesis by blast
    next
      case small: False
      then have "freeze_bmp_ok idx dataMove p i = freeze_bmp_ok idx dataMove (p + 1) (i - 1)"
        using True by (subst freeze_bmp_ok.simps) simp
      also have "\<dots> \<longleftrightarrow> (\<forall>k. 0 \<le> k \<and> k < i - 1 \<longrightarrow>
                     \<not> word_of_int dataMove + idx (p + 1 + k) > (0xFFFF :: u32))"
        using "1.IH" [OF True small] by simp
      also have "\<dots> \<longleftrightarrow> (\<forall>k. 0 \<le> k \<and> k < i \<longrightarrow>
                     \<not> word_of_int dataMove + idx (p + k) > (0xFFFF :: u32))"
      proof (intro iffI allI impI)
        fix k
        assume a: "\<forall>k. 0 \<le> k \<and> k < i - 1 \<longrightarrow>
                     \<not> word_of_int dataMove + idx (p + 1 + k) > (0xFFFF :: u32)"
          and k: "0 \<le> k \<and> k < i"
        show "\<not> word_of_int dataMove + idx (p + k) > (0xFFFF :: u32)"
        proof (cases "k = 0")
          case True
          then show ?thesis using small by simp
        next
          case False
          then have "0 \<le> k - 1 \<and> k - 1 < i - 1" using k by simp
          then have "\<not> word_of_int dataMove + idx (p + 1 + (k - 1)) > (0xFFFF :: u32)"
            using a by blast
          then show ?thesis by simp
        qed
      next
        fix k
        assume a: "\<forall>k. 0 \<le> k \<and> k < i \<longrightarrow>
                     \<not> word_of_int dataMove + idx (p + k) > (0xFFFF :: u32)"
          and k: "0 \<le> k \<and> k < i - 1"
        then have "\<not> word_of_int dataMove + idx (p + (k + 1)) > (0xFFFF :: u32)"
          by (intro a [rule_format]) simp
        moreover have "p + (k + 1) = p + 1 + k" by simp
        ultimately show "\<not> word_of_int dataMove + idx (p + 1 + k) > (0xFFFF :: u32)"
          by metis
      qed
      finally show ?thesis .
    qed
  qed
qed

lemma compactData_elim:
  assumes "compactData m u trie hs e = (e', trie')"
  obtains (fail) len nt1 where
      "compactWholeDataBlocks u (newTrie trie) hs = (len, nt1)"
      "m ((len + ASCII_LIMIT) * 4) = None"
      "e' = U_MEMORY_ALLOCATION_ERROR" "trie' = trie \<lparr> newTrie := nt1 \<rparr>"
  | (ok) len nt1 fresh st nt3 trie1 where
      "compactWholeDataBlocks u (newTrie trie) hs = (len, nt1)"
      "m ((len + ASCII_LIMIT) * 4) = Some fresh"
      "st = cd_loop hs
              \<lparr> cd_nt = cd_ascii nt1 0 0 ASCII_LIMIT,
                cd_newData = (\<lambda>j. if 0 \<le> j \<and> j < ASCII_LIMIT then utrie3bld_get trie j else fresh j),
                cd_newStart = ASCII_LIMIT, cd_granularity = 1, cd_iLimit = BMP_I_LIMIT \<rparr>
              ASCII_I_LIMIT"
      "nt3 = cd_resolve (cd_nt st) ASCII_I_LIMIT (cd_iLimit st)"
      "trie1 = (if dataNullIndex nt1 \<ge> 0
                then trie \<lparr> initialValue := index nt1 (dataNullIndex nt1) \<rparr> else trie)"
      "e' = e"
      "trie' = trie1 \<lparr> dataNullOffset := (if dataNullIndex nt3 \<ge> 0
                                            then sint (index nt3 (dataNullIndex nt3))
                                            else UTRIE3_NO_DATA_NULL_OFFSET),
                       trie_dataLength := cd_newStart st,
                       newTrie := nt3 \<lparr> data := cd_newData st,
                                         dataCapacity := len + ASCII_LIMIT,
                                         dataLength := cd_newStart st \<rparr> \<rparr>"
proof -
  obtain len nt1 where c: "compactWholeDataBlocks u (newTrie trie) hs = (len, nt1)"
    by (cases "compactWholeDataBlocks u (newTrie trie) hs")
  show ?thesis
  proof (cases "m ((len + ASCII_LIMIT) * 4)")
    case None
    then show ?thesis
      using assms c by (intro fail [of len nt1]) (simp_all add: compactData_def Let_def)
  next
    case (Some fresh)
    then show ?thesis
      using assms c
      by (intro ok [of len nt1 fresh, OF _ _ refl refl refl])
         (simp_all add: compactData_def Let_def)
  qed
qed

lemma compactData_status:
  "compactData m u trie hs e = (e', trie') \<Longrightarrow> e' = e \<or> e' = U_MEMORY_ALLOCATION_ERROR"
  by (erule compactData_elim) simp_all

lemma compactData_output:
  "compactData m u trie hs e = (e', trie') \<Longrightarrow>
     memory trie' = memory trie \<and> index16 trie' = index16 trie \<and>
     data16 trie' = data16 trie \<and> data32 trie' = data32 trie \<and>
     newTrie_null trie' = newTrie_null trie \<and> errorValue trie' = errorValue trie \<and>
     highStart trie' = highStart trie \<and> highValue trie' = highValue trie"
  by (erule compactData_elim) simp_all

lemma compactTrie_status:
  "compactTrie m stack trie e = (e', trie', index1) \<Longrightarrow> e' = e \<or> e' = U_MEMORY_ALLOCATION_ERROR"
  by (auto simp add: compactTrie_def split: prod.splits if_splits dest: compactData_status)

lemma compactIndex2_output:
  "compactIndex2 trie hs i1 = (trie', i1') \<Longrightarrow>
     memory trie' = memory trie \<and> index16 trie' = index16 trie \<and>
     data16 trie' = data16 trie \<and> data32 trie' = data32 trie \<and>
     newTrie_null trie' = newTrie_null trie \<and> errorValue trie' = errorValue trie \<and>
     highStart trie' = highStart trie \<and> highValue trie' = highValue trie \<and>
     dataNullOffset trie' = dataNullOffset trie \<and> trie_dataLength trie' = trie_dataLength trie \<and>
     initialValue trie' = initialValue trie"
  by (auto simp add: compactIndex2_def Let_def split: prod.splits if_splits)

lemma compactTrie_output:
  assumes "compactTrie m stack trie e = (e', trie', index1)"
  shows "memory trie' = memory trie \<and> index16 trie' = index16 trie \<and>
     data16 trie' = data16 trie \<and> data32 trie' = data32 trie \<and>
     newTrie_null trie' = newTrie_null trie \<and> errorValue trie' = errorValue trie"
  using assms
  by (auto simp add: compactTrie_def compactTrie_prefix_def Let_def split: prod.splits if_splits
        dest!: compactData_output compactIndex2_output)

lemma maskValues_output:
  "memory (maskValues trie mask') = memory trie"
  "index16 (maskValues trie mask') = index16 trie"
  "data16 (maskValues trie mask') = data16 trie"
  "data32 (maskValues trie mask') = data32 trie"
  "errorValue (maskValues trie mask') = errorValue trie"
  "newTrie_null (maskValues trie mask') = newTrie_null trie"
  "highStart (maskValues trie mask') = highStart trie"
  "initialValue (maskValues trie mask') = initialValue trie AND mask'"
  "highValue (maskValues trie mask') = highValue trie AND mask'"
  by (simp_all add: maskValues_def Let_def)

lemma maskValues_index_fields:
  "flags (maskValues_index nt mask' i iLimit) = flags nt"
  "data (maskValues_index nt mask' i iLimit) = data nt"
  "dataLength (maskValues_index nt mask' i iLimit) = dataLength nt"
  "dataCapacity (maskValues_index nt mask' i iLimit) = dataCapacity nt"
  "dataNullIndex (maskValues_index nt mask' i iLimit) = dataNullIndex nt"
proof (induction nt mask' i iLimit rule: maskValues_index.induct)
  case (1 nt mask' i iLimit)
  { case 1 show ?case using "1.IH"(1) by (subst maskValues_index.simps) simp }
  { case 2 show ?case using "1.IH"(2) by (subst maskValues_index.simps) simp }
  { case 3 show ?case using "1.IH"(3) by (subst maskValues_index.simps) simp }
  { case 4 show ?case using "1.IH"(4) by (subst maskValues_index.simps) simp }
  { case 5 show ?case using "1.IH"(5) by (subst maskValues_index.simps) simp }
qed

lemma maskValues_index_index:
  "index (maskValues_index nt mask' i iLimit) j =
     (if i \<le> j \<and> j < iLimit \<and> flags nt j = ALL_SAME then index nt j AND mask' else index nt j)"
proof (induction nt mask' i iLimit rule: maskValues_index.induct)
  case (1 nt mask' i iLimit)
  show ?case
  proof (cases "i < iLimit")
    case False
    then show ?thesis by (subst maskValues_index.simps) auto
  next
    case True
    let ?nt = "if flags nt i = ALL_SAME
               then nt \<lparr> index := (index nt)(i := index nt i AND mask') \<rparr> else nt"
    have "maskValues_index nt mask' i iLimit = maskValues_index ?nt mask' (i + 1) iLimit"
      using True by (subst maskValues_index.simps) simp
    then have "index (maskValues_index nt mask' i iLimit) j =
        (if i + 1 \<le> j \<and> j < iLimit \<and> flags ?nt j = ALL_SAME then index ?nt j AND mask'
         else index ?nt j)"
      using "1.IH" [OF True] by simp
    then show ?thesis using True by auto
  qed
qed

lemma maskValues_data_apply:
  "maskValues_data d mask' i len j = (if i \<le> j \<and> j < len then d j AND mask' else d j)"
proof (induction d mask' i len rule: maskValues_data.induct)
  case (1 d mask' i len)
  show ?case
  proof (cases "i < len")
    case False
    then show ?thesis by (subst maskValues_data.simps) auto
  next
    case True
    have "maskValues_data d mask' i len j = maskValues_data (d(i := d i AND mask')) mask' (i + 1) len j"
      using True by (subst maskValues_data.simps) simp
    also note "1.IH" [OF True]
    finally show ?thesis using True by auto
  qed
qed

lemma maskValues_newTrie:
  "flags (newTrie (maskValues trie mask')) = flags (newTrie trie)"
  "index (newTrie (maskValues trie mask')) j =
     (if 0 \<le> j \<and> j < drop_bit UTRIE3_SHIFT_2 (highStart trie) \<and> flags (newTrie trie) j = ALL_SAME
      then index (newTrie trie) j AND mask' else index (newTrie trie) j)"
  "data (newTrie (maskValues trie mask')) j =
     (if 0 \<le> j \<and> j < dataLength (newTrie trie) then data (newTrie trie) j AND mask'
      else data (newTrie trie) j)"
  "dataLength (newTrie (maskValues trie mask')) = dataLength (newTrie trie)"
  "dataCapacity (newTrie (maskValues trie mask')) = dataCapacity (newTrie trie)"
  by (simp_all add: maskValues_def Let_def maskValues_index_fields maskValues_index_index
        maskValues_data_apply)

lemma maskValues_inv:
  assumes "builder_inv t"
  shows "builder_inv (maskValues t mask')"
proof -
  have "slot_ok (newTrie (maskValues t mask')) i = slot_ok (newTrie t) i" for i
    by (auto simp add: slot_ok_def maskValues_newTrie)
  moreover have "slots_apart (newTrie (maskValues t mask')) i j = slots_apart (newTrie t) i j" for i j
    by (auto simp add: slots_apart_def maskValues_newTrie)
  ultimately show ?thesis
    using assms unfolding builder_inv_def
    by (simp add: maskValues_output maskValues_newTrie(4,5))
qed

lemma maskValues_get:
  assumes "builder_inv t" "0 \<le> c" "c \<le> MAX_UNICODE"
  shows "utrie3bld_get (maskValues t mask') c = utrie3bld_get t c AND mask'"
proof (cases "c < highStart t")
  case False
  then show ?thesis
    using assms maskValues_inv [OF assms(1), of mask']
    by (simp add: get_high maskValues_output)
next
  case True
  have ok: "slot_ok (newTrie t) (c div 16)" using assms(1,2) True by (rule builder_inv_slot_ok_cp)
  have i: "0 \<le> c div 16" "c div 16 < highStart t div 16"
    using assms(1,2) True unfolding builder_inv_def
    by (simp_all add: mod16_div_less pos_imp_zdiv_nonneg_iff)
  have r: "0 \<le> c mod 16" "c mod 16 < 16" by simp_all
  have L: "utrie3bld_get (maskValues t mask') c =
      (if flags (newTrie t) (c div 16) = ALL_SAME then index (newTrie t) (c div 16) AND mask'
       else data (newTrie (maskValues t mask')) (uint (index (newTrie t) (c div 16)) + c mod 16))"
    using get_slot [OF maskValues_inv [OF assms(1), of mask'], of c] assms(2) True i
    by (simp add: maskValues_output maskValues_newTrie(1,2) bit_arith)
  show ?thesis
  proof (cases "flags (newTrie t) (c div 16) = ALL_SAME")
    case True
    then show ?thesis unfolding L using get_slot [OF assms(1,2) \<open>c < highStart t\<close>] by simp
  next
    case False
    then have "uint (index (newTrie t) (c div 16)) + 16 \<le> dataLength (newTrie t)"
      using ok unfolding slot_ok_def by simp
    moreover define k where "k = c mod 16"
    moreover have "0 \<le> k" "k < 16" by (simp_all add: k_def)
    moreover have "0 \<le> uint (index (newTrie t) (c div 16))" by simp
    ultimately have "0 \<le> uint (index (newTrie t) (c div 16)) + k"
      "uint (index (newTrie t) (c div 16)) + k < dataLength (newTrie t)"
      by linarith+
    then have "0 \<le> uint (index (newTrie t) (c div 16)) + c mod 16"
      "uint (index (newTrie t) (c div 16)) + c mod 16 < dataLength (newTrie t)"
      unfolding k_def by simp_all
    then have "data (newTrie (maskValues t mask')) (uint (index (newTrie t) (c div 16)) + c mod 16) =
               data (newTrie t) (uint (index (newTrie t) (c div 16)) + c mod 16) AND mask'"
      unfolding maskValues_newTrie(3) by simp
    then show ?thesis
      unfolding L using False get_slot [OF assms(1,2) \<open>c < highStart t\<close>] by simp
  qed
qed

lemma findHighStart_match_iff:
  "0 \<le> j \<Longrightarrow> findHighStart_match d p j hv \<longleftrightarrow> (\<forall>k. j \<le> k \<and> k < 16 \<longrightarrow> d (p + k) = hv)"
proof (induction d p j hv rule: findHighStart_match.induct)
  case (1 d p j hv)
  show ?case
  proof (cases "j \<ge> 16")
    case True
    then show ?thesis by (subst findHighStart_match.simps) auto
  next
    case False
    show ?thesis
    proof (cases "d (p + j) = hv")
      case ne: False
      then have "\<not> findHighStart_match d p j hv"
        using False by (subst findHighStart_match.simps) simp
      then show ?thesis using ne False by auto
    next
      case eq: True
      then have "findHighStart_match d p j hv = findHighStart_match d p (j + 1) hv"
        using False by (subst findHighStart_match.simps) simp
      also have "\<dots> \<longleftrightarrow> (\<forall>k. j + 1 \<le> k \<and> k < 16 \<longrightarrow> d (p + k) = hv)"
        using "1.IH" False eq "1.prems" by simp
      also have "\<dots> \<longleftrightarrow> (\<forall>k. j \<le> k \<and> k < 16 \<longrightarrow> d (p + k) = hv)"
      proof (intro iffI allI impI)
        fix k
        assume a: "\<forall>k. j + 1 \<le> k \<and> k < 16 \<longrightarrow> d (p + k) = hv" and k: "j \<le> k \<and> k < 16"
        show "d (p + k) = hv"
        proof (cases "k = j")
          case True
          then show ?thesis using eq by simp
        next
          case False
          then show ?thesis using a k by simp
        qed
      next
        fix k
        assume a: "\<forall>k. j \<le> k \<and> k < 16 \<longrightarrow> d (p + k) = hv" and k: "j + 1 \<le> k \<and> k < 16"
        then show "d (p + k) = hv" by simp
      qed
      finally show ?thesis .
    qed
  qed
qed

lemma findHighStart_loop_unfold:
  "findHighStart_loop nt i hv =
     (if i > 0 then
        (if slot_matches nt (i - 1) hv then findHighStart_loop nt (i - 1) hv else 16 * i)
      else 0)"
  by (subst findHighStart_loop.simps)
     (auto simp add: slot_matches_def findHighStart_match_iff push_bit_eq_mult)

lemma findHighStart_loop_spec:
  assumes "0 \<le> i"
  shows "\<exists>k. findHighStart_loop nt i hv = 16 * k \<and> 0 \<le> k \<and> k \<le> i \<and>
             (\<forall>j. k \<le> j \<and> j < i \<longrightarrow> slot_matches nt j hv) \<and>
             (0 < k \<longrightarrow> \<not> slot_matches nt (k - 1) hv)"
  using assms
proof (induction nt i hv rule: findHighStart_loop.induct)
  case (1 nt i hv)
  show ?case
  proof (cases "i > 0")
    case False
    then have "findHighStart_loop nt i hv = 0" by (subst findHighStart_loop_unfold) simp
    then show ?thesis using False "1.prems" by (intro exI [of _ 0]) auto
  next
    case True
    show ?thesis
    proof (cases "slot_matches nt (i - 1) hv")
      case False
      then have "findHighStart_loop nt i hv = 16 * i"
        using True by (subst findHighStart_loop_unfold) simp
      then show ?thesis using False True by (intro exI [of _ i]) auto
    next
      case m: True
      then have e: "findHighStart_loop nt i hv = findHighStart_loop nt (i - 1) hv"
        using True by (subst findHighStart_loop_unfold) simp
      have "if flags nt (i - 1) = ALL_SAME then index nt (i - 1) = hv
            else findHighStart_match (data nt) (uint (index nt (i - 1))) 0 hv"
        using m by (simp add: slot_matches_def findHighStart_match_iff)
      from "1.IH" [OF True this] True
      obtain k where k: "findHighStart_loop nt (i - 1) hv = 16 * k" "0 \<le> k" "k \<le> i - 1"
        "\<forall>j. k \<le> j \<and> j < i - 1 \<longrightarrow> slot_matches nt j hv"
        "0 < k \<longrightarrow> \<not> slot_matches nt (k - 1) hv"
        by auto
      have "\<forall>j. k \<le> j \<and> j < i \<longrightarrow> slot_matches nt j hv"
      proof (intro allI impI)
        fix j assume "k \<le> j \<and> j < i"
        then show "slot_matches nt j hv"
          using k(4) m by (cases "j = i - 1") auto
      qed
      then show ?thesis using e k by (intro exI [of _ k]) simp
    qed
  qed
qed

lemma slot_matches_get:
  assumes "builder_inv t" "0 \<le> i" "i < highStart t div 16"
  shows "slot_matches (newTrie t) i hv \<longleftrightarrow>
           (\<forall>c. 16 * i \<le> c \<and> c < 16 * i + 16 \<longrightarrow> utrie3bld_get t c = hv)"
proof -
  have hs: "highStart t = 16 * (highStart t div 16)"
    using assms(1) unfolding builder_inv_def by auto
  have rng: "0 \<le> c \<and> c < highStart t \<and> c div 16 = i" if "16 * i \<le> c \<and> c < 16 * i + 16" for c
  proof -
    have "c div 16 = i" using that in_block_iff [of 0 16 c i] by simp
    moreover have "c < highStart t" using that assms(3) hs by linarith
    ultimately show ?thesis using that assms(2) by simp
  qed
  have g: "utrie3bld_get t c =
      (if flags (newTrie t) i = ALL_SAME then index (newTrie t) i
       else data (newTrie t) (uint (index (newTrie t) i) + c mod 16))"
    if "16 * i \<le> c \<and> c < 16 * i + 16" for c
    using get_slot [OF assms(1), of c] rng [OF that] by simp
  show ?thesis
  proof (cases "flags (newTrie t) i = ALL_SAME")
    case True
    have "16 * i \<le> 16 * i \<and> 16 * i < 16 * i + 16" by simp
    then show ?thesis using True g by (auto simp add: slot_matches_def)
  next
    case False
    show ?thesis
    proof
      assume m: "slot_matches (newTrie t) i hv"
      show "\<forall>c. 16 * i \<le> c \<and> c < 16 * i + 16 \<longrightarrow> utrie3bld_get t c = hv"
      proof (intro allI impI)
        fix c assume c: "16 * i \<le> c \<and> c < 16 * i + 16"
        have "0 \<le> c mod 16 \<and> c mod 16 < 16" by simp
        then show "utrie3bld_get t c = hv"
          using m False g [OF c] unfolding slot_matches_def by simp
      qed
    next
      assume a: "\<forall>c. 16 * i \<le> c \<and> c < 16 * i + 16 \<longrightarrow> utrie3bld_get t c = hv"
      have "data (newTrie t) (uint (index (newTrie t) i) + j) = hv" if "0 \<le> j \<and> j < 16" for j
      proof -
        have c: "16 * i \<le> 16 * i + j \<and> 16 * i + j < 16 * i + 16" using that by simp
        have "(16 * i + j) mod 16 = j" using that by simp
        then show ?thesis using a c g [OF c] False by simp
      qed
      then show "slot_matches (newTrie t) i hv" using False by (simp add: slot_matches_def)
    qed
  qed
qed

lemma and_8191_eq_mod: "(x::int) AND 8191 = x mod 8192"
proof -
  have "(8191::int) = mask 13" by (simp add: mask_eq_exp_minus_1)
  then show ?thesis by (simp only: flip: take_bit_eq_mask) (simp add: take_bit_eq_mod)
qed

lemma compactTrie_round_spec:
  assumes "hs mod 16 = 0"
  shows "\<exists>n nt'. compactTrie_round nt hv i hs = (nt', hs + 16 * n) \<and> 1 \<le> n \<and>
           (hs + 16 * n) mod 8192 = 0 \<and>
           (\<forall>j. flags nt' j = (if i \<le> j \<and> j < i + n then ALL_SAME else flags nt j)) \<and>
           (\<forall>j. index nt' j = (if i \<le> j \<and> j < i + n then hv else index nt j)) \<and>
           data nt' = data nt \<and> dataLength nt' = dataLength nt \<and>
           dataCapacity nt' = dataCapacity nt \<and> dataNullIndex nt' = dataNullIndex nt"
  using assms
proof (induction nt hv i hs rule: compactTrie_round.induct)
  case (1 nt hv i hs)
  let ?nt = "nt \<lparr> flags := (flags nt)(i := ALL_SAME), index := (index nt)(i := hv) \<rparr>"
  have m16: "(hs + 16) mod 16 = 0" using "1.prems" by simp
  show ?case
  proof (cases "(hs + 16) mod 8192 = 0")
    case True
    then have "compactTrie_round nt hv i hs = (?nt, hs + 16 * 1)"
      by (subst compactTrie_round.simps) (simp add: Let_def and_8191_eq_mod bit_arith)
    then show ?thesis using True by (intro exI [of _ 1] exI [of _ ?nt]) simp
  next
    case False
    then have e: "compactTrie_round nt hv i hs = compactTrie_round ?nt hv (i + 1) (hs + 16)"
      using m16 by (subst compactTrie_round.simps) (simp add: Let_def and_8191_eq_mod bit_arith)
    have c: "(hs + 16 AND UTRIE3_CP_PER_INDEX_1_ENTRY - 1) \<noteq> 0 \<and> (hs + 16 AND UTRIE3_DATA_MASK) = 0"
      using False m16 by (simp add: and_8191_eq_mod bit_arith)
    from "1.IH" [OF refl refl c m16]
    obtain n nt' where R: "compactTrie_round ?nt hv (i + 1) (hs + 16) = (nt', hs + 16 + 16 * n) \<and>
      1 \<le> n \<and> (hs + 16 + 16 * n) mod 8192 = 0 \<and>
      (\<forall>j. flags nt' j = (if i + 1 \<le> j \<and> j < i + 1 + n then ALL_SAME else flags ?nt j)) \<and>
      (\<forall>j. index nt' j = (if i + 1 \<le> j \<and> j < i + 1 + n then hv else index ?nt j)) \<and>
      data nt' = data ?nt \<and> dataLength nt' = dataLength ?nt \<and>
      dataCapacity nt' = dataCapacity ?nt \<and> dataNullIndex nt' = dataNullIndex ?nt"
      by (elim exE) (erule that)
    then have r: "compactTrie_round ?nt hv (i + 1) (hs + 16) = (nt', hs + 16 + 16 * n)"
      "1 \<le> n" "(hs + 16 + 16 * n) mod 8192 = 0"
      "\<forall>j. flags nt' j = (if i + 1 \<le> j \<and> j < i + 1 + n then ALL_SAME else flags ?nt j)"
      "\<forall>j. index nt' j = (if i + 1 \<le> j \<and> j < i + 1 + n then hv else index ?nt j)"
      "data nt' = data ?nt" "dataLength nt' = dataLength ?nt"
      "dataCapacity nt' = dataCapacity ?nt" "dataNullIndex nt' = dataNullIndex ?nt"
      by blast+
    have a: "hs + 16 + 16 * n = hs + 16 * (n + 1)" by simp
    show ?thesis
      unfolding e
    proof (intro exI [of _ "n + 1"] exI [of _ nt'] conjI)
      show "compactTrie_round ?nt hv (i + 1) (hs + 16) = (nt', hs + 16 * (n + 1))"
        using r(1) a by simp
      show "1 \<le> n + 1" using r(2) by simp
      show "(hs + 16 * (n + 1)) mod 8192 = 0" using r(3) a by simp
      show "\<forall>j. flags nt' j = (if i \<le> j \<and> j < i + (n + 1) then ALL_SAME else flags nt j)"
        using r(4) r(2) by auto
      show "\<forall>j. index nt' j = (if i \<le> j \<and> j < i + (n + 1) then hv else index nt j)"
        using r(5) r(2) by auto
    qed (use r in simp_all)
  qed
qed

lemma compactTrie_round_cases:
  assumes "hs mod 16 = 0"
  obtains n nt' where "compactTrie_round nt hv i hs = (nt', hs + 16 * n)" "1 \<le> n"
    "(hs + 16 * n) mod 8192 = 0"
    "\<And>j. flags nt' j = (if i \<le> j \<and> j < i + n then ALL_SAME else flags nt j)"
    "\<And>j. index nt' j = (if i \<le> j \<and> j < i + n then hv else index nt j)"
    "data nt' = data nt" "dataLength nt' = dataLength nt"
    "dataCapacity nt' = dataCapacity nt" "dataNullIndex nt' = dataNullIndex nt"
proof -
  from compactTrie_round_spec [OF assms, of nt hv i]
  obtain n nt' where R: "compactTrie_round nt hv i hs = (nt', hs + 16 * n) \<and> 1 \<le> n \<and>
           (hs + 16 * n) mod 8192 = 0 \<and>
           (\<forall>j. flags nt' j = (if i \<le> j \<and> j < i + n then ALL_SAME else flags nt j)) \<and>
           (\<forall>j. index nt' j = (if i \<le> j \<and> j < i + n then hv else index nt j)) \<and>
           data nt' = data nt \<and> dataLength nt' = dataLength nt \<and>
           dataCapacity nt' = dataCapacity nt \<and> dataNullIndex nt' = dataNullIndex nt"
    by (elim exE) (erule that)
  show ?thesis
    by (rule that [of nt' n]) (use R in blast)+
qed

lemma compactTrie_fill_spec:
  "flags (compactTrie_fill nt hv i) j = (if i \<le> j \<and> j < BMP_I_LIMIT then ALL_SAME else flags nt j)"
  "index (compactTrie_fill nt hv i) j = (if i \<le> j \<and> j < BMP_I_LIMIT then hv else index nt j)"
  "data (compactTrie_fill nt hv i) = data nt"
  "dataLength (compactTrie_fill nt hv i) = dataLength nt"
  "dataCapacity (compactTrie_fill nt hv i) = dataCapacity nt"
  "dataNullIndex (compactTrie_fill nt hv i) = dataNullIndex nt"
proof (induction nt hv i rule: compactTrie_fill.induct)
  case (1 nt hv i)
  { case 1 show ?case using "1.IH"(1) by (subst compactTrie_fill.simps) auto }
  { case 2 show ?case using "1.IH"(2) by (subst compactTrie_fill.simps) auto }
  { case 3 show ?case using "1.IH"(3) by (subst compactTrie_fill.simps) auto }
  { case 4 show ?case using "1.IH"(4) by (subst compactTrie_fill.simps) auto }
  { case 5 show ?case using "1.IH"(5) by (subst compactTrie_fill.simps) auto }
  { case 6 show ?case using "1.IH"(6) by (subst compactTrie_fill.simps) auto }
qed

lemma compactTrie_eq:
  "compactTrie m stack trie e =
     (case compactTrie_prefix trie of
        (trie2, suppHighStart) \<Rightarrow>
          (case compactData m (uninit_blocks stack) trie2 suppHighStart e of
             (e', trie3) \<Rightarrow>
               if U_FAILURE e' then (e', trie3, uninit_index1 stack)
               else (case compactIndex2 trie3 suppHighStart (uninit_index1 stack) of
                       (trie4, index1) \<Rightarrow> (e', trie4, index1))))"
  by (simp add: compactTrie_def)


lemma findHighStart_spec:
  assumes "builder_inv t"
  shows "\<exists>k. findHighStart (newTrie t) (highStart t) hv = 16 * k \<and> 0 \<le> k \<and>
             16 * k \<le> highStart t \<and>
             (\<forall>c. 16 * k \<le> c \<and> c < highStart t \<longrightarrow> utrie3bld_get t c = hv) \<and>
             (0 < k \<longrightarrow> (\<exists>c. 16 * k - 16 \<le> c \<and> c < 16 * k \<and> utrie3bld_get t c \<noteq> hv))"
proof -
  let ?n = "highStart t div 16"
  have hs: "highStart t = 16 * ?n" "0 \<le> ?n"
    using assms unfolding builder_inv_def by auto
  from findHighStart_loop_spec [OF hs(2), of "newTrie t" hv]
  obtain k where k: "findHighStart_loop (newTrie t) ?n hv = 16 * k \<and> 0 \<le> k \<and> k \<le> ?n \<and>
             (\<forall>j. k \<le> j \<and> j < ?n \<longrightarrow> slot_matches (newTrie t) j hv) \<and>
             (0 < k \<longrightarrow> \<not> slot_matches (newTrie t) (k - 1) hv)"
    by (elim exE) (erule that)
  have 1: "findHighStart (newTrie t) (highStart t) hv = 16 * k"
    using k by (simp add: findHighStart_def bit_arith)
  have 2: "utrie3bld_get t c = hv" if "16 * k \<le> c \<and> c < highStart t" for c
  proof -
    have j: "k \<le> c div 16 \<and> c div 16 < ?n"
      using that hs(1) by (simp add: div16_le_iff div16_less_iff)
    then have "slot_matches (newTrie t) (c div 16) hv" using k by blast
    moreover have "0 \<le> c div 16" using j k by linarith
    moreover have "16 * (c div 16) \<le> c \<and> c < 16 * (c div 16) + 16"
      using in_block_iff [of 0 16 c "c div 16"] by simp
    ultimately show ?thesis
      using slot_matches_get [OF assms, of "c div 16" hv] j by blast
  qed
  have 3: "\<exists>c. 16 * k - 16 \<le> c \<and> c < 16 * k \<and> utrie3bld_get t c \<noteq> hv" if "0 < k"
  proof -
    have "\<not> slot_matches (newTrie t) (k - 1) hv" using k that by blast
    moreover have "0 \<le> k - 1" "k - 1 < ?n" using that k by simp_all
    ultimately obtain c where "16 * (k - 1) \<le> c \<and> c < 16 * (k - 1) + 16"
      "utrie3bld_get t c \<noteq> hv"
      using slot_matches_get [OF assms, of "k - 1" hv] by blast
    then show ?thesis by (intro exI [of _ c]) simp
  qed
  have "16 * k \<le> highStart t" using k hs(1) by linarith
  then show ?thesis using 1 2 3 k by (intro exI [of _ k]) blast
qed


section \<open>Properties of the freeze\<close>

lemma freeze_write_fields:
  "highStart (freeze_write t i1 vb dm len) = highStart t"
  "highValue (freeze_write t i1 vb dm len) = highValue t"
  "errorValue (freeze_write t i1 vb dm len) = errorValue t"
  "initialValue (freeze_write t i1 vb dm len) = initialValue t"
  "dataNullOffset (freeze_write t i1 vb dm len) = dataNullOffset t"
  "index2NullOffset (freeze_write t i1 vb dm len) = index2NullOffset t"
  "indexLength (freeze_write t i1 vb dm len) = indexLength t"
  "trie_dataLength (freeze_write t i1 vb dm len) = trie_dataLength t"
  "newTrie (freeze_write t i1 vb dm len) = newTrie t"
  by (simp_all add: freeze_write_def Let_def)




lemma masked_trie:
  fixes vb :: int
  assumes "builder_inv t"
  defines "tm \<equiv> (if vb \<noteq> UTRIE3_32_VALUE_BITS then maskValues t 0xFFFF else t)"
  shows "builder_inv tm"
    and "0 \<le> c \<Longrightarrow> c \<le> MAX_UNICODE \<Longrightarrow> utrie3bld_get tm c = utrie3bld_get t c AND value_mask vb"
    and "initialValue tm = initialValue t AND value_mask vb"
    and "errorValue tm = errorValue t"
proof -
  have m: "x AND (0xFFFFFFFF :: u32) = x" for x
  proof -
    have "(0xFFFFFFFF :: u32) = - 1" by simp
    then show ?thesis by (simp only: and.right_neutral word_and_max)
  qed
  show "builder_inv tm" using assms(1) by (simp add: tm_def maskValues_inv)
  show "0 \<le> c \<Longrightarrow> c \<le> MAX_UNICODE \<Longrightarrow> utrie3bld_get tm c = utrie3bld_get t c AND value_mask vb"
    using assms(1) by (simp add: tm_def maskValues_get value_mask_def m)
  show "initialValue tm = initialValue t AND value_mask vb"
    by (simp add: tm_def maskValues_output value_mask_def m)
  show "errorValue tm = errorValue t" by (simp add: tm_def maskValues_output)
qed

section \<open>The claim about the range checks of the freeze\<close>

text \<open>
  C6. Let a call of \<^verbatim>\<open>utrie3bld_freeze\<close> on a mutable trie, with 16-bit or 32-bit values
  and no earlier failure, compact the trie (after masking it for 16-bit values) to
  \<open>trie2\<close> with status \<open>e2\<close>. The call fails with \<open>U_INDEX_OUTOFBOUNDS_ERROR\<close> if and only
  if the compaction succeeded and either
  \<open>(dataMove + dataLength) >> UTRIE3_INDEX_SHIFT\<close> is above \<open>0xFFFF\<close> or some entry \<open>i\<close>
  of the \<open>BMP_I_LIMIT\<close> BMP index entries has \<open>dataMove + index[i]\<close> (a \<^verbatim>\<open>uint32_t\<close> sum)
  above \<open>0xFFFF\<close>, where \<open>dataMove\<close> is \<open>indexLength\<close> for 16-bit values and \<open>0\<close> for
  32-bit values. In that case the call returns the compacted trie as it is: no memory is
  allocated and no index or data array is written, and the trie stays mutable.
\<close>

theorem freeze_index_out_of_bounds:
  assumes "\<not> newTrie_null trie"
    and "valueBits = UTRIE3_16_VALUE_BITS \<or> valueBits = UTRIE3_32_VALUE_BITS"
    and "compactTrie uprv_malloc stack
           (if valueBits \<noteq> UTRIE3_32_VALUE_BITS then maskValues trie 0xFFFF else trie)
           U_ZERO_ERROR = (e2, trie2, index1)"
    and "utrie3bld_freeze uprv_malloc stack trie valueBits U_ZERO_ERROR = (e', trie')"
    and "dataMove = (if valueBits = UTRIE3_16_VALUE_BITS then indexLength trie2 else 0)"
  shows "(e' = U_INDEX_OUTOFBOUNDS_ERROR \<longleftrightarrow>
           e2 = U_ZERO_ERROR \<and>
           (drop_bit UTRIE3_INDEX_SHIFT (dataMove + trie_dataLength trie2) > 0xFFFF \<or>
            (\<exists>i. 0 \<le> i \<and> i < BMP_I_LIMIT \<and>
                 word_of_int dataMove + index (newTrie trie2) i > (0xFFFF :: u32)))) \<and>
         (e' = U_INDEX_OUTOFBOUNDS_ERROR \<longrightarrow>
            trie' = trie2 \<and> memory trie' = memory trie \<and> index16 trie' = index16 trie \<and>
            data16 trie' = data16 trie \<and> data32 trie' = data32 trie \<and> \<not> newTrie_null trie')"
proof -
  let ?t1 = "if valueBits \<noteq> UTRIE3_32_VALUE_BITS then maskValues trie 0xFFFF else trie"
  have out: "memory trie2 = memory trie" "index16 trie2 = index16 trie"
    "data16 trie2 = data16 trie" "data32 trie2 = data32 trie" "\<not> newTrie_null trie2"
    using compactTrie_output [OF assms(3)] assms(1) by (simp_all add: maskValues_output)
  have st: "e2 = U_ZERO_ERROR \<or> e2 = U_MEMORY_ALLOCATION_ERROR"
    using compactTrie_status [OF assms(3)] by simp
  let ?big = "drop_bit UTRIE3_INDEX_SHIFT (dataMove + trie_dataLength trie2) > 0xFFFF"
  let ?bmp = "\<exists>i. 0 \<le> i \<and> i < BMP_I_LIMIT \<and>
                 word_of_int dataMove + index (newTrie trie2) i > (0xFFFF :: u32)"
  have ok: "freeze_bmp_ok (index (newTrie trie2)) dataMove 0 UTRIE3_INDEX_2_BMP_LENGTH \<longleftrightarrow> \<not> ?bmp"
    by (auto simp add: freeze_bmp_ok_iff)
  have vb: "\<not> valueBits > UTRIE3_32_VALUE_BITS" using assms(2) by auto
  have fz: "utrie3bld_freeze uprv_malloc stack trie valueBits U_ZERO_ERROR =
        (if U_FAILURE e2 then (e2, trie2)
         else freeze_finish uprv_malloc trie2 index1 valueBits e2)"
    using assms(1,3) vb by (simp add: utrie3bld_freeze_def)
  have s1: "e' = e2" if "U_FAILURE e2"
    using assms(4) fz that by simp
  have bad: "freeze_finish uprv_malloc trie2 index1 valueBits e2 = (U_INDEX_OUTOFBOUNDS_ERROR, trie2)"
    if "?big \<or> ?bmp"
  proof (cases ?big)
    case True
    then show ?thesis unfolding assms(5) by (simp add: freeze_finish_def Let_def)
  next
    case False
    then have "\<not> freeze_bmp_ok (index (newTrie trie2)) dataMove 0 UTRIE3_INDEX_2_BMP_LENGTH"
      using that ok by blast
    then show ?thesis using False unfolding assms(5) by (simp add: freeze_finish_def Let_def)
  qed
  have s2: "e' = U_INDEX_OUTOFBOUNDS_ERROR \<and> trie' = trie2" if "\<not> U_FAILURE e2" "?big \<or> ?bmp"
    using assms(4) fz that(1) bad [OF that(2)] by simp
  have s3: "e' = U_MEMORY_ALLOCATION_ERROR \<or> e' = e2" if "\<not> U_FAILURE e2" "\<not> ?big" "\<not> ?bmp"
  proof -
    have "freeze_bmp_ok (index (newTrie trie2)) dataMove 0 UTRIE3_INDEX_2_BMP_LENGTH"
      using ok that(3) by blast
    then have "fst (freeze_finish uprv_malloc trie2 index1 valueBits e2) = U_MEMORY_ALLOCATION_ERROR \<or>
               fst (freeze_finish uprv_malloc trie2 index1 valueBits e2) = e2"
      using that(2) unfolding assms(5)
      by (simp add: freeze_finish_def Let_def split: option.splits)
    then show ?thesis using assms(4) fz that(1) by auto
  qed
  show ?thesis
  proof (cases "e2 = U_ZERO_ERROR")
    case False
    then have "e2 = U_MEMORY_ALLOCATION_ERROR" using st by simp
    then show ?thesis using s1 by simp
  next
    case True
    show ?thesis
    proof (cases "?big \<or> ?bmp")
      case True
      then show ?thesis using s2 \<open>e2 = U_ZERO_ERROR\<close> out by auto
    next
      case False
      then have "e' \<noteq> U_INDEX_OUTOFBOUNDS_ERROR" using s3 \<open>e2 = U_ZERO_ERROR\<close> by auto
      then show ?thesis using False by blast
    qed
  qed
qed

section \<open>The whole-block pass on special tries\<close>

lemma cwdb_body_first:
  assumes "flags nt 0 = ALL_SAME"
  shows "cwdb_body nt (AllSameBlocks_new u) 0 0 =
           (nt, u \<lparr> asb_length := 1, mostRecent := 0, indexes := (indexes u)(0 := 0),
                    asb_values := (asb_values u)(0 := index nt 0),
                    refCounts := (refCounts u)(0 := 1) \<rparr>, 16)"
  using assms
  by (simp add: cwdb_body_def cwdb_allSame_def findOrAdd_def AllSameBlocks_new_def
      findOrAdd_loop.simps [of _ _ 0 0] Let_def)

lemma cwdb_body_again:
  assumes "flags nt i = ALL_SAME" "i < BMP_I_LIMIT" "mostRecent b = 0"
    "asb_values b 0 = index nt i" "indexes b 0 = 0"
  shows "cwdb_body nt b n i =
           (nt \<lparr> flags := (flags nt)(i := SAME_AS), index := (index nt)(i := 0) \<rparr>,
            b \<lparr> refCounts := (refCounts b)(0 := refCounts b 0 + 1) \<rparr>, n)"
  using assms
  by (simp add: cwdb_body_def cwdb_allSame_def findOrAdd_def Let_def)

lemma cwdb_loop_uniform:
  assumes "1 \<le> i" "i \<le> BMP_I_LIMIT"
    "\<forall>j. i \<le> j \<and> j < BMP_I_LIMIT \<longrightarrow> flags nt j = ALL_SAME \<and> index nt j = v"
    "mostRecent b = 0" "asb_values b 0 = v" "indexes b 0 = 0"
  shows "\<exists>nt' b'. cwdb_loop nt b n i BMP_I_LIMIT = (nt', b', n) \<and>
           (\<forall>j. flags nt' j = (if i \<le> j \<and> j < BMP_I_LIMIT then SAME_AS else flags nt j)) \<and>
           (\<forall>j. index nt' j = (if i \<le> j \<and> j < BMP_I_LIMIT then 0 else index nt j)) \<and>
           data nt' = data nt \<and> dataLength nt' = dataLength nt \<and>
           asb_length b' = asb_length b \<and> indexes b' = indexes b \<and>
           refCounts b' 0 = refCounts b 0 + (BMP_I_LIMIT - i)"
  using assms
proof (induction "nat (BMP_I_LIMIT - i)" arbitrary: nt b i)
  case 0
  then have "i = BMP_I_LIMIT" by simp
  then show ?case by (subst cwdb_loop.simps) auto
next
  case (Suc k)
  then have lt: "i < BMP_I_LIMIT" by simp
  define nt1 where "nt1 = nt \<lparr> flags := (flags nt)(i := SAME_AS), index := (index nt)(i := 0) \<rparr>"
  define b1 where "b1 = b \<lparr> refCounts := (refCounts b)(0 := refCounts b 0 + 1) \<rparr>"
  have fi: "flags nt i = ALL_SAME" "index nt i = v" using Suc.prems(3) lt by simp_all
  have body: "cwdb_body nt b n i = (nt1, b1, n)"
    unfolding nt1_def b1_def
    by (rule cwdb_body_again) (use fi lt Suc.prems in simp_all)
  have k: "k = nat (BMP_I_LIMIT - (i + 1))" using Suc.hyps(2) by simp
  have p3: "\<forall>j. i + 1 \<le> j \<and> j < BMP_I_LIMIT \<longrightarrow> flags nt1 j = ALL_SAME \<and> index nt1 j = v"
    using Suc.prems(3) by (simp add: nt1_def)
  obtain nt' b' where r: "cwdb_loop nt1 b1 n (i + 1) BMP_I_LIMIT = (nt', b', n)"
    "\<forall>j. flags nt' j = (if i + 1 \<le> j \<and> j < BMP_I_LIMIT then SAME_AS else flags nt1 j)"
    "\<forall>j. index nt' j = (if i + 1 \<le> j \<and> j < BMP_I_LIMIT then 0 else index nt1 j)"
    "data nt' = data nt1" "dataLength nt' = dataLength nt1"
    "asb_length b' = asb_length b1" "indexes b' = indexes b1"
    "refCounts b' 0 = refCounts b1 0 + (BMP_I_LIMIT - (i + 1))"
    using Suc.hyps(1) [OF k _ _ p3, of b1] Suc.prems lt
    by (auto simp add: b1_def)
  have step: "cwdb_loop nt b n i BMP_I_LIMIT = (nt', b', n)"
    using lt body r(1) by (subst cwdb_loop.simps) simp
  show ?case
  proof (intro exI [of _ nt'] exI [of _ b'] conjI allI)
    show "cwdb_loop nt b n i BMP_I_LIMIT = (nt', b', n)" by (rule step)
    show "flags nt' j = (if i \<le> j \<and> j < BMP_I_LIMIT then SAME_AS else flags nt j)" for j
      using r(2) lt by (auto simp add: nt1_def)
    show "index nt' j = (if i \<le> j \<and> j < BMP_I_LIMIT then 0 else index nt j)" for j
      using r(3) lt by (auto simp add: nt1_def)
    show "data nt' = data nt" "dataLength nt' = dataLength nt" using r(4,5) by (simp_all add: nt1_def)
    show "asb_length b' = asb_length b" "indexes b' = indexes b" using r(6,7) by (simp_all add: b1_def)
    show "refCounts b' 0 = refCounts b 0 + (BMP_I_LIMIT - i)" using r(8) by (simp add: b1_def)
  qed
qed

lemma compactWholeDataBlocks_uniform:
  assumes "\<forall>j. 0 \<le> j \<and> j < BMP_I_LIMIT \<longrightarrow> flags nt j = ALL_SAME \<and> index nt j = v"
  shows "\<exists>nt'. compactWholeDataBlocks u nt BMP_LIMIT = (16, nt') \<and>
           (\<forall>j. flags nt' j = (if 1 \<le> j \<and> j < BMP_I_LIMIT then SAME_AS else flags nt j)) \<and>
           (\<forall>j. index nt' j = (if 1 \<le> j \<and> j < BMP_I_LIMIT then 0 else index nt j)) \<and>
           data nt' = data nt \<and> dataLength nt' = dataLength nt \<and> dataNullIndex nt' = 0"
proof -
  define b0 where "b0 = u \<lparr> asb_length := 1, mostRecent := 0, indexes := (indexes u)(0 := 0),
                    asb_values := (asb_values u)(0 := v),
                    refCounts := (refCounts u)(0 := 1) \<rparr>"
  have f0: "flags nt 0 = ALL_SAME" "index nt 0 = v" using assms by simp_all
  have first: "cwdb_body nt (AllSameBlocks_new u) 0 0 = (nt, b0, 16)"
    using cwdb_body_first [OF f0(1), of u] f0(2) by (simp add: b0_def)
  have rest: "\<forall>j. 1 \<le> j \<and> j < BMP_I_LIMIT \<longrightarrow> flags nt j = ALL_SAME \<and> index nt j = v"
    using assms by simp
  obtain nt' b' where r: "cwdb_loop nt b0 16 1 BMP_I_LIMIT = (nt', b', 16)"
    "\<forall>j. flags nt' j = (if 1 \<le> j \<and> j < BMP_I_LIMIT then SAME_AS else flags nt j)"
    "\<forall>j. index nt' j = (if 1 \<le> j \<and> j < BMP_I_LIMIT then 0 else index nt j)"
    "data nt' = data nt" "dataLength nt' = dataLength nt"
    "asb_length b' = asb_length b0" "indexes b' = indexes b0"
    "refCounts b' 0 = refCounts b0 0 + (BMP_I_LIMIT - 1)"
    using cwdb_loop_uniform [OF _ _ rest, of b0 16] by (auto simp add: b0_def)
  have loop: "cwdb_loop nt (AllSameBlocks_new u) 0 0 BMP_I_LIMIT = (nt', b', 16)"
    using first r(1) by (subst cwdb_loop.simps) simp
  have "findMostUsed_loop (refCounts b') 0 1 (-1) 0 = 0"
    using r(8) by (simp add: findMostUsed_loop.simps [of _ 0] findMostUsed_loop.simps [of _ 1] b0_def)
  then have mu: "findMostUsed b' = 0"
    using r(6,7) by (simp add: findMostUsed_def b0_def)
  have d: "drop_bit UTRIE3_SHIFT_2 BMP_LIMIT = BMP_I_LIMIT" by (simp add: drop_bit_4_eq)
  show ?thesis
    using loop mu r(2-5)
    by (intro exI [of _ "nt' \<lparr> dataNullIndex := 0 \<rparr>"])
       (simp add: compactWholeDataBlocks_def d)
qed



lemma compactTrie_round_snd:
  assumes "hs mod 16 = 0"
  shows "snd (compactTrie_round nt hv i hs) = hs - hs mod 8192 + 8192"
  using assms
proof (induction nt hv i hs rule: compactTrie_round.induct)
  case (1 nt hv i hs)
  let ?nt = "nt \<lparr> flags := (flags nt)(i := ALL_SAME), index := (index nt)(i := hv) \<rparr>"
  define r where "r = hs mod 8192"
  have r: "0 \<le> r" "r < 8192" unfolding r_def by simp_all
  have "r mod 16 = hs mod 16" unfolding r_def by (simp add: mod_mod_cancel)
  then have r16: "r mod 16 = 0" using "1.prems" by simp
  have r8176: "r \<le> 8176"
    using r16 r by (rule_tac c = r in div16_cases) auto
  have m16: "(hs + 16) mod 16 = 0" using "1.prems" by simp
  have hm: "(hs + 16) mod 8192 = (r + 16) mod 8192"
    unfolding r_def by (simp add: mod_add_left_eq)
  show ?case
  proof (cases "r + 16 = 8192")
    case True
    then have z: "(hs + 16) mod 8192 = 0" using hm by simp
    then have "compactTrie_round nt hv i hs = (?nt, hs + 16)"
      by (subst compactTrie_round.simps) (simp add: Let_def and_8191_eq_mod bit_arith)
    then show ?thesis using True unfolding r_def by simp
  next
    case False
    then have lt: "r + 16 < 8192" using r8176 by simp
    then have hm': "(hs + 16) mod 8192 = r + 16" using hm r by simp
    then have nz: "(hs + 16) mod 8192 \<noteq> 0" using r by simp
    then have e: "compactTrie_round nt hv i hs = compactTrie_round ?nt hv (i + 1) (hs + 16)"
      using m16 by (subst compactTrie_round.simps) (simp add: Let_def and_8191_eq_mod bit_arith)
    have c: "(hs + 16 AND UTRIE3_CP_PER_INDEX_1_ENTRY - 1) \<noteq> 0 \<and> (hs + 16 AND UTRIE3_DATA_MASK) = 0"
      using nz m16 by (simp add: and_8191_eq_mod bit_arith)
    have "snd (compactTrie_round ?nt hv (i + 1) (hs + 16)) = hs + 16 - (hs + 16) mod 8192 + 8192"
      by (rule "1.IH" [OF refl refl c m16])
    then show ?thesis unfolding e hm' r_def by simp
  qed
qed

lemma compactTrie_prefix_frame:
  assumes "builder_inv t"
    and hs0: "findHighStart (newTrie t) (highStart t) (utrie3bld_get t MAX_UNICODE) = hs0"
    and hs1: "hs1 = (if hs0 mod 8192 = 0 then hs0 else hs0 - hs0 mod 8192 + 8192)"
  shows "\<exists>t2. compactTrie_prefix t = (t2, if hs1 \<le> BMP_LIMIT then BMP_LIMIT else hs1) \<and>
           highStart t2 = hs1 \<and> newTrie_null t2 = newTrie_null t \<and>
           data (newTrie t2) = data (newTrie t) \<and>
           dataLength (newTrie t2) = dataLength (newTrie t) \<and>
           dataCapacity (newTrie t2) = dataCapacity (newTrie t) \<and>
           (\<forall>j. j < hs0 div 16 \<longrightarrow> flags (newTrie t2) j = flags (newTrie t) j \<and>
                                     index (newTrie t2) j = index (newTrie t) j)"
proof -
  define hv0 where "hv0 = utrie3bld_get t MAX_UNICODE"
  have hs0': "findHighStart (newTrie t) (highStart t) hv0 = hs0" using hs0 by (simp add: hv0_def)
  obtain k where k: "hs0 = 16 * k" "0 \<le> k"
    using findHighStart_spec [OF assms(1), of hv0] unfolding hs0' by blast
  have m16: "hs0 mod 16 = 0" using k by simp
  have d: "drop_bit 4 hs0 = hs0 div 16" by (simp add: drop_bit_4_eq)
  obtain nt1 where nt1: "(if hs0 mod 8192 \<noteq> 0
           then compactTrie_round (newTrie t) hv0 (drop_bit 4 hs0) hs0
           else (newTrie t, hs0)) = (nt1, hs1)"
      "data nt1 = data (newTrie t)" "dataLength nt1 = dataLength (newTrie t)"
      "dataCapacity nt1 = dataCapacity (newTrie t)"
      "\<And>j. j < hs0 div 16 \<Longrightarrow> flags nt1 j = flags (newTrie t) j \<and> index nt1 j = index (newTrie t) j"
      "hs0 \<le> hs1"
  proof (cases "hs0 mod 8192 = 0")
    case True
    then show ?thesis using hs1 by (intro that [of "newTrie t"]) simp_all
  next
    case False
    then have h1: "hs1 = hs0 - hs0 mod 8192 + 8192" by (simp add: hs1)
    obtain n nt' where r: "compactTrie_round (newTrie t) hv0 (drop_bit 4 hs0) hs0 = (nt', hs0 + 16 * n)"
      "1 \<le> n" "(hs0 + 16 * n) mod 8192 = 0"
      "\<And>j. flags nt' j = (if drop_bit 4 hs0 \<le> j \<and> j < drop_bit 4 hs0 + n then ALL_SAME
                            else flags (newTrie t) j)"
      "\<And>j. index nt' j = (if drop_bit 4 hs0 \<le> j \<and> j < drop_bit 4 hs0 + n then hv0
                            else index (newTrie t) j)"
      "data nt' = data (newTrie t)" "dataLength nt' = dataLength (newTrie t)"
      "dataCapacity nt' = dataCapacity (newTrie t)"
    proof (rule compactTrie_round_cases [OF m16, of "newTrie t" hv0 "drop_bit 4 hs0"], goal_cases)
      case (1 n nt')
      show ?case by (rule that [OF 1(2-9)])
    qed
    have e: "hs0 + 16 * n = hs1"
      using compactTrie_round_snd [OF m16, of "newTrie t" hv0 "drop_bit 4 hs0"] r(1) h1 by simp
    show ?thesis
    proof (rule that [of nt'])
      show "(if hs0 mod 8192 \<noteq> 0
           then compactTrie_round (newTrie t) hv0 (drop_bit 4 hs0) hs0
           else (newTrie t, hs0)) = (nt', hs1)" using False r(1) e by simp
      show "data nt' = data (newTrie t)" "dataLength nt' = dataLength (newTrie t)"
        "dataCapacity nt' = dataCapacity (newTrie t)" by (rule r)+
      show "flags nt' j = flags (newTrie t) j \<and> index nt' j = index (newTrie t) j"
        if "j < hs0 div 16" for j using r(4,5) [of j] d that by simp
      show "hs0 \<le> hs1" using e r(2) by simp
    qed
  qed
  have ge: "hs0 div 16 \<le> drop_bit 4 hs1"
    using nt1(6) by (simp add: drop_bit_4_eq zdiv_mono1)
  define hv1 where "hv1 = (if hs1 = UNICODE_LIMIT then initialValue t else hv0)"
  define t1 where "t1 = t \<lparr> highValue := hv1, highStart := hs1,
                          highStartLead16 := U16_LEAD hs1,
                          shiftedHighStart := drop_bit UTRIE3_SHIFT_1 hs1,
                          newTrie := nt1 \<rparr>"
  have P: "compactTrie_prefix t =
      (if hs1 \<le> BMP_LIMIT
       then (t1 \<lparr> newTrie := compactTrie_fill nt1 hv1 (drop_bit UTRIE3_SHIFT_2 hs1) \<rparr>, BMP_LIMIT)
       else (t1, hs1))"
  proof -
    have a: "hs0 AND (8192 - 1) = hs0 mod 8192" using and_8191_eq_mod [of hs0] by simp
    show ?thesis
      unfolding compactTrie_prefix_def Let_def hs0 a nt1(1) [unfolded hv0_def] prod.case
        t1_def hv1_def hv0_def
      by (rule refl)
  qed
  show ?thesis
  proof (cases "hs1 \<le> BMP_LIMIT")
    case True
    show ?thesis
      unfolding P using True nt1(2-5) ge
      by (intro exI [of _ "t1 \<lparr> newTrie := compactTrie_fill nt1 hv1 (drop_bit UTRIE3_SHIFT_2 hs1) \<rparr>"])
         (auto simp add: t1_def compactTrie_fill_spec)
  next
    case False
    show ?thesis
      unfolding P using False nt1(2-5)
      by (intro exI [of _ t1]) (auto simp add: t1_def)
  qed
qed





section \<open>A set call after a failed freeze\<close>


section \<open>A freeze that fails the range check of the BMP index\<close>

lemma u32_of_int_neq:
  "0 \<le> a \<Longrightarrow> a < 2 ^ 32 \<Longrightarrow> 0 \<le> b \<Longrightarrow> b < 2 ^ 32 \<Longrightarrow> a \<noteq> b \<Longrightarrow>
     (word_of_int a :: u32) \<noteq> word_of_int b"
  by (simp add: word_of_int_eq_iff take_bit_int_eq_self)

lemma u32_and_0xFFFF:
  assumes "0 \<le> j" "j < 65536"
  shows "(word_of_int j :: u32) AND 0xFFFF = word_of_int j"
proof -
  have "(0xFFFF :: u32) = mask 16" by (simp add: mask_eq_exp_minus_1)
  then have "(word_of_int j :: u32) AND 0xFFFF = take_bit 16 (word_of_int j)"
    by (simp only: take_bit_eq_mask)
  also have "\<dots> = word_of_int (take_bit 16 j)"
    by (simp add: take_bit_of_int)
  also have "take_bit 16 j = j" using assms by (simp add: take_bit_int_eq_self)
  finally show ?thesis .
qed

lemma u32_16:
  assumes "0 \<le> i" "i < 4096"
  shows "uint (word_of_int (16 * i) :: u32) = 16 * i"
  using assms by (intro uint_word_of_int_small) simp_all

lemma data_distinct:
  fixes d :: "int \<Rightarrow> u32"
  assumes "\<forall>k. 0 \<le> k \<and> k < 65536 \<longrightarrow> d k = word_of_int k"
    "0 \<le> a" "a < 65536" "0 \<le> b" "b < 65536" "a \<noteq> b"
  shows "d a \<noteq> d b"
proof -
  have da: "d a = word_of_int a" and db: "d b = word_of_int b" using assms by blast+
  show ?thesis unfolding da db by (rule u32_of_int_neq) (use assms in simp_all)
qed

lemma u32_16_times:
  assumes "0 \<le> i" "i < 4096"
  shows "uint (16 * word_of_int i :: u32) = 16 * i"
proof -
  have "(16 * word_of_int i :: u32) = word_of_int (16 * i)" by simp
  then show ?thesis using u32_16 [OF assms] by (simp only:)
qed

lemma identity_bmp_trie_inv: "builder_inv identity_bmp_trie"
  unfolding builder_inv_def
  by (auto simp add: identity_bmp_trie_def slot_ok_def slots_apart_def u32_16_times)

text \<open>The trie after the masking of a 16-bit freeze: nothing changes.\<close>

lemma identity_bmp_trie_masked:
  defines "tm \<equiv> maskValues identity_bmp_trie 0xFFFF"
  shows "builder_inv tm" "highStart tm = BMP_LIMIT" "highValue tm = 0" "initialValue tm = 0"
    "\<not> newTrie_null tm" "flags (newTrie tm) j = MIXED" "index (newTrie tm) j = word_of_int (16 * j)"
    "data (newTrie tm) k = word_of_int k" "dataLength (newTrie tm) = 0x10000"
    "dataCapacity (newTrie tm) = UNEWTRIE3_MEDIUM_DATA_LENGTH"
proof -
  show "builder_inv tm" unfolding tm_def by (rule maskValues_inv [OF identity_bmp_trie_inv])
  show "highStart tm = BMP_LIMIT" "highValue tm = 0" "initialValue tm = 0" "\<not> newTrie_null tm"
    by (simp_all add: tm_def maskValues_output identity_bmp_trie_def)
  show "flags (newTrie tm) j = MIXED" "index (newTrie tm) j = word_of_int (16 * j)"
    "dataLength (newTrie tm) = 0x10000" "dataCapacity (newTrie tm) = UNEWTRIE3_MEDIUM_DATA_LENGTH"
    by (simp_all add: tm_def maskValues_newTrie identity_bmp_trie_def)
  show "data (newTrie tm) k = word_of_int k"
    by (simp add: tm_def maskValues_newTrie identity_bmp_trie_def u32_and_0xFFFF)
qed

lemma equal_uint32_first:
  "0 < len \<Longrightarrow> a s \<noteq> b t \<Longrightarrow> \<not> equal_uint32 a s b t len"
  by (subst equal_uint32.simps) simp

lemma findMixedDup_distinct:
  assumes "0 \<le> j" "j \<le> i" "i < 4096"
    "\<forall>j. 0 \<le> j \<and> j < 4096 \<longrightarrow> index nt j = word_of_int (16 * j)"
    "\<forall>k. 0 \<le> k \<and> k < 65536 \<longrightarrow> data nt k = word_of_int k"
  shows "findMixedDup nt (16 * i) i j = i"
  using assms
proof (induction "nat (i - j)" arbitrary: j)
  case 0
  then have "j = i" by simp
  then show ?case by (subst findMixedDup.simps) simp
next
  case (Suc n)
  then have lt: "j < i" by simp
  have uj: "uint (index nt j) = 16 * j" using Suc.prems lt by (simp add: u32_16_times)
  have "data nt (16 * i) \<noteq> data nt (16 * j)"
    by (rule data_distinct [OF Suc.prems(5)]) (use Suc.prems lt in simp_all)
  then have ne: "\<not> equal_uint32 (data nt) (16 * i) (data nt) (uint (index nt j)) 16"
    unfolding uj by (intro equal_uint32_first) simp_all
  have "findMixedDup nt (16 * i) i j = findMixedDup nt (16 * i) i (j + 1)"
    using lt ne by (subst findMixedDup.simps) simp
  also have "\<dots> = i"
    by (rule Suc.hyps(1)) (use Suc.hyps(2) Suc.prems lt in simp_all)
  finally show ?case .
qed

lemma cwdb_body_distinct:
  assumes "0 \<le> i" "i < 4096"
    "\<forall>j. 0 \<le> j \<and> j < 4096 \<longrightarrow> flags nt j = MIXED \<and> index nt j = word_of_int (16 * j)"
    "\<forall>k. 0 \<le> k \<and> k < 65536 \<longrightarrow> data nt k = word_of_int k"
  shows "cwdb_body nt b n i = (nt, b, n + 16)"
proof -
  have f: "flags nt i = MIXED" and u: "uint (index nt i) = 16 * i"
    using assms by (simp_all add: u32_16_times)
  have "data nt (16 * i + 1) \<noteq> data nt (16 * i)"
    by (rule data_distinct [OF assms(4)]) (use assms in simp_all)
  then have a: "\<not> allValuesSameAs (data nt) (16 * i + 1) 15 (data nt (16 * i))"
    unfolding allValuesSameAs_def by (subst allValuesSameAs_loop.simps) simp
  have m: "findMixedDup nt (16 * i) i 0 = i"
    by (rule findMixedDup_distinct) (use assms in simp_all)
  show ?thesis
    using f a m by (simp add: cwdb_body_def u Let_def)
qed

lemma cwdb_loop_distinct:
  assumes "0 \<le> i" "i \<le> 4096"
    "\<forall>j. 0 \<le> j \<and> j < 4096 \<longrightarrow> flags nt j = MIXED \<and> index nt j = word_of_int (16 * j)"
    "\<forall>k. 0 \<le> k \<and> k < 65536 \<longrightarrow> data nt k = word_of_int k"
  shows "cwdb_loop nt b n i BMP_I_LIMIT = (nt, b, n + 16 * (4096 - i))"
  using assms(1,2)
proof (induction "nat (4096 - i)" arbitrary: i n)
  case 0
  then have "i = 4096" by simp
  then show ?case by (subst cwdb_loop.simps) simp
next
  case (Suc k)
  then have lt: "i < 4096" by simp
  have body: "cwdb_body nt b n i = (nt, b, n + 16)"
    by (rule cwdb_body_distinct [OF Suc.prems(1) lt assms(3,4)])
  have "cwdb_loop nt b n i BMP_I_LIMIT = cwdb_loop nt b (n + 16) (i + 1) BMP_I_LIMIT"
    using lt body by (subst cwdb_loop.simps) simp
  also have "\<dots> = (nt, b, n + 16 + 16 * (4096 - (i + 1)))"
    by (rule Suc.hyps(1)) (use Suc.hyps(2) Suc.prems lt in simp_all)
  finally show ?case by simp
qed

lemma compactWholeDataBlocks_distinct:
  assumes "\<forall>j. 0 \<le> j \<and> j < 4096 \<longrightarrow> flags nt j = MIXED \<and> index nt j = word_of_int (16 * j)"
    "\<forall>k. 0 \<le> k \<and> k < 65536 \<longrightarrow> data nt k = word_of_int k"
  shows "compactWholeDataBlocks u nt BMP_LIMIT = (0x10000, nt \<lparr> dataNullIndex := -1 \<rparr>)"
proof -
  have d: "drop_bit UTRIE3_SHIFT_2 BMP_LIMIT = BMP_I_LIMIT" by (simp add: drop_bit_4_eq)
  have l: "cwdb_loop nt (AllSameBlocks_new u) 0 0 BMP_I_LIMIT =
      (nt, AllSameBlocks_new u, 0 + 16 * (4096 - 0))"
    by (rule cwdb_loop_distinct [OF _ _ assms]) simp_all
  show ?thesis
    using l by (simp add: compactWholeDataBlocks_def d findMostUsed_def AllSameBlocks_new_def)
qed

lemma neq_by_value:
  assumes "x = (word_of_int a :: u32)" "y = word_of_int b"
    "0 \<le> a" "a < 65536" "0 \<le> b" "b < 65536" "a \<noteq> b"
  shows "x \<noteq> y"
  unfolding assms(1,2) by (rule u32_of_int_neq) (use assms in simp_all)

lemma cd_ascii_spec:
  assumes "0 \<le> i" "i \<le> 8"
  shows "flags (cd_ascii nt i (16 * i) ASCII_LIMIT) j = (if i \<le> j \<and> j < 8 then MOVED else flags nt j) \<and>
         index (cd_ascii nt i (16 * i) ASCII_LIMIT) j =
           (if i \<le> j \<and> j < 8 then word_of_int (16 * j) else index nt j) \<and>
         data (cd_ascii nt i (16 * i) ASCII_LIMIT) = data nt \<and>
         dataNullIndex (cd_ascii nt i (16 * i) ASCII_LIMIT) = dataNullIndex nt"
  using assms
proof (induction "nat (8 - i)" arbitrary: nt i)
  case 0
  then have "i = 8" by simp
  then show ?case by (subst (1 2 3 4) cd_ascii.simps) auto
next
  case (Suc n)
  then have lt: "i < 8" by simp
  let ?nt = "nt \<lparr> flags := (flags nt)(i := MOVED), index := (index nt)(i := word_of_int (16 * i)) \<rparr>"
  have e: "cd_ascii nt i (16 * i) ASCII_LIMIT = cd_ascii ?nt (i + 1) (16 * (i + 1)) ASCII_LIMIT"
    using lt by (subst cd_ascii.simps) (simp add: algebra_simps)
  have IH: "flags (cd_ascii ?nt (i + 1) (16 * (i + 1)) ASCII_LIMIT) j =
              (if i + 1 \<le> j \<and> j < 8 then MOVED else flags ?nt j) \<and>
         index (cd_ascii ?nt (i + 1) (16 * (i + 1)) ASCII_LIMIT) j =
           (if i + 1 \<le> j \<and> j < 8 then word_of_int (16 * j) else index ?nt j) \<and>
         data (cd_ascii ?nt (i + 1) (16 * (i + 1)) ASCII_LIMIT) = data ?nt \<and>
         dataNullIndex (cd_ascii ?nt (i + 1) (16 * (i + 1)) ASCII_LIMIT) = dataNullIndex ?nt"
    by (rule Suc.hyps(1)) (use Suc.hyps(2) Suc.prems lt in simp_all)
  show ?case unfolding e using IH lt by auto
qed

lemma findSameBlock_loop_none:
  assumes "0 < blockLength" "\<forall>pos. block \<le> pos \<and> pos \<le> len \<longrightarrow> a (p + pos) \<noteq> b other"
  shows "findSameBlock_loop a p b other blockLength 1 len block = -1"
  using assms(2)
proof (induction "nat (len + 1 - block)" arbitrary: block)
  case 0
  then have "\<not> block \<le> len" by simp
  then show ?case by (subst findSameBlock_loop.simps) simp
next
  case (Suc n)
  then have le: "block \<le> len" by simp
  then have "a (p + block) \<noteq> b other" using Suc.prems by simp
  then have ne: "\<not> equal_uint32 a (p + block) b other blockLength"
    using assms(1) by (intro equal_uint32_first)
  have "findSameBlock_loop a p b other blockLength 1 len block =
        findSameBlock_loop a p b other blockLength 1 len (block + 1)"
    using le ne by (subst findSameBlock_loop.simps) simp
  also have "\<dots> = -1"
    by (rule Suc.hyps(1)) (use Suc.hyps(2) Suc.prems in simp_all)
  finally show ?case .
qed

lemma getOverlap_loop_zero:
  assumes "0 \<le> overlap" "\<forall>ov. 0 < ov \<and> ov \<le> overlap \<longrightarrow> a (p + (len - ov)) \<noteq> b other"
  shows "getOverlap_loop a p len b other 1 overlap = 0"
  using assms
proof (induction "nat overlap" arbitrary: overlap)
  case 0
  then have "overlap = 0" by simp
  then show ?case by (subst getOverlap_loop.simps) simp
next
  case (Suc n)
  then have pos: "0 < overlap" by simp
  then have "a (p + (len - overlap)) \<noteq> b other" using Suc.prems by simp
  then have ne: "\<not> equal_uint32 a (p + (len - overlap)) b other overlap"
    using pos by (intro equal_uint32_first)
  have "getOverlap_loop a p len b other 1 overlap = getOverlap_loop a p len b other 1 (overlap - 1)"
    using pos ne by (subst getOverlap_loop.simps) simp
  also have "\<dots> = 0"
    by (rule Suc.hyps(1)) (use Suc.hyps(2) Suc.prems pos in simp_all)
  finally show ?case .
qed

lemma cd_write_block_spec:
  assumes "0 \<le> n" "n \<le> 16"
  shows "cd_write_block nd s d block n =
           (\<lambda>k. if s \<le> k \<and> k < s + (16 - n) then d (block + n + (k - s)) else nd k, s + (16 - n))"
  using assms
proof (induction "nat (16 - n)" arbitrary: nd s n)
  case 0
  then have "n = 16" by simp
  then show ?case by (subst cd_write_block.simps) (auto simp add: fun_eq_iff)
next
  case (Suc m)
  then have lt: "n < 16" by simp
  have "cd_write_block nd s d block n =
        cd_write_block (nd(s := d (block + n))) (s + 1) d block (n + 1)"
    using lt by (subst cd_write_block.simps) simp
  also have "\<dots> = (\<lambda>k. if s + 1 \<le> k \<and> k < s + 1 + (16 - (n + 1))
                        then d (block + (n + 1) + (k - (s + 1))) else (nd(s := d (block + n))) k,
                   s + 1 + (16 - (n + 1)))"
    by (rule Suc.hyps(1)) (use Suc.hyps(2) Suc.prems lt in simp_all)
  also have "\<dots> = (\<lambda>k. if s \<le> k \<and> k < s + (16 - n) then d (block + n + (k - s)) else nd k,
                   s + (16 - n))"
    using lt by (auto simp add: fun_eq_iff add.assoc)
  finally show ?case .
qed

lemma cd_body_identity:
  assumes "identity_placed st i" "8 \<le> i" "i < 4096"
  shows "identity_placed (cd_body st i) (i + 1)"
proof -
  define nt where "nt = cd_nt st"
  define nd where "nd = cd_newData st"
  note I = assms(1) [unfolded identity_placed_def, folded nt_def nd_def]
  have g: "cd_granularity st = 1" and ns: "cd_newStart st = 16 * i" using I by simp_all
  have nd: "nd k = word_of_int k" if "0 \<le> k" "k < 16 * i" for k using I that by simp
  have d: "data nt k = word_of_int k" if "0 \<le> k" "k < 65536" for k using I that by simp
  have f: "flags nt i = MIXED" and ix: "index nt i = word_of_int (16 * i)"
    using I assms(2,3) by simp_all
  have u: "uint (index nt i) = 16 * i" unfolding ix by (rule u32_16) (use assms in simp_all)
  have find: "findSameBlock nd 0 (16 * i) (data nt) (16 * i) 16 1 = -1"
    unfolding findSameBlock_def
  proof (rule findSameBlock_loop_none, simp, intro allI impI)
    fix pos assume p: "0 \<le> pos \<and> pos \<le> 16 * i - 16"
    show "nd (0 + pos) \<noteq> data nt (16 * i)"
      by (rule neq_by_value [of _ pos _ "16 * i"]) (use p assms nd [of pos] d [of "16 * i"] in simp_all)
  qed
  have over: "getOverlap nd 0 (16 * i) (data nt) (16 * i) 16 1 = 0"
    unfolding getOverlap_def
  proof (rule getOverlap_loop_zero, simp, intro allI impI)
    fix ov assume p: "0 < ov \<and> ov \<le> 16 - (1::int)"
    show "nd (0 + (16 * i - ov)) \<noteq> data nt (16 * i)"
      by (rule neq_by_value [of _ "16 * i - ov" _ "16 * i"])
         (use p assms nd [of "16 * i - ov"] d [of "16 * i"] in simp_all)
  qed
  have wr: "cd_write_block nd (16 * i) (data nt) (16 * i) 0 =
      (\<lambda>k. if 16 * i \<le> k \<and> k < 16 * i + 16 then data nt k else nd k, 16 * i + 16)"
    by (subst cd_write_block_spec) (auto simp add: fun_eq_iff)
  have body: "cd_body st i =
      st \<lparr> cd_nt := nt \<lparr> index := (index nt)(i := word_of_int (16 * i)),
                         flags := (flags nt)(i := MOVED) \<rparr>,
           cd_newData := (\<lambda>k. if 16 * i \<le> k \<and> k < 16 * i + 16 then data nt k else nd k),
           cd_newStart := 16 * i + 16 \<rparr>"
    unfolding cd_body_def Let_def nt_def [symmetric] nd_def [symmetric] g ns f u find over wr
    by simp
  show ?thesis
    unfolding body identity_placed_def
    using I assms(2,3) by (auto simp add: nd d)
qed

lemma cd_body_moved:
  assumes "(flags (cd_nt st) i AND TYPE_MASK) = MOVED" "cd_granularity st \<noteq> 1"
  shows "cd_body st i = st"
  using assms by (simp add: cd_body_def Let_def)

lemma cd_loop_moved:
  assumes "cd_granularity st \<noteq> 1" "i \<le> cd_iLimit st"
    "\<forall>j. i \<le> j \<and> j < cd_iLimit st \<longrightarrow> (flags (cd_nt st) j AND TYPE_MASK) = MOVED"
  shows "cd_loop hs st i = st"
  using assms(2,3)
proof (induction "nat (cd_iLimit st - i)" arbitrary: i)
  case 0
  then have "i = cd_iLimit st" by simp
  then show ?case using assms(1) by (subst cd_loop.simps) simp
next
  case (Suc n)
  then have lt: "i < cd_iLimit st" by simp
  have b: "cd_body st i = st"
    by (rule cd_body_moved) (use Suc.prems lt assms(1) in simp_all)
  have "cd_loop hs st i = cd_loop hs st (i + 1)"
    using lt b by (subst cd_loop.simps) simp
  also have "\<dots> = st"
    by (rule Suc.hyps(1)) (use Suc.hyps(2) Suc.prems lt in simp_all)
  finally show ?case .
qed

lemma cd_loop_identity:
  assumes "identity_placed st i" "8 \<le> i" "i \<le> 4096"
  shows "\<exists>st'. cd_loop BMP_LIMIT st i = st' \<and> cd_newStart st' = 0x10000 \<and>
           cd_iLimit st' = BMP_I_LIMIT \<and> dataNullIndex (cd_nt st') = -1 \<and>
           (\<forall>j. 0 \<le> j \<and> j < 4096 \<longrightarrow>
                index (cd_nt st') j = word_of_int (16 * j) \<and> flags (cd_nt st') j = MOVED)"
  using assms
proof (induction "nat (4096 - i)" arbitrary: st i)
  case 0
  then have i: "i = 4096" by simp
  note I = "0.prems"(1) [unfolded identity_placed_def i]
  define st1 where "st1 = st \<lparr> cd_newData := cd_newData st, cd_newStart := cd_newStart st,
                              cd_granularity := UTRIE3_DATA_GRANULARITY,
                              cd_iLimit := drop_bit UTRIE3_SHIFT_2 BMP_LIMIT \<rparr>"
  have d: "drop_bit UTRIE3_SHIFT_2 BMP_LIMIT = BMP_I_LIMIT" by (simp add: drop_bit_4_eq)
  have pad: "cd_pad (cd_newData st) (cd_newStart st) = (cd_newData st, cd_newStart st)"
    using I by (subst cd_pad.simps) (simp add: and_one_eq)
  have m: "(MOVED AND TYPE_MASK) = MOVED" by simp
  have fl: "\<forall>j. 8 \<le> j \<and> j < cd_iLimit st1 \<longrightarrow> (flags (cd_nt st1) j AND TYPE_MASK) = MOVED"
    using I m by (simp add: st1_def d)
  have b8: "cd_body st1 ASCII_I_LIMIT = st1"
    by (rule cd_body_moved) (use fl in \<open>simp_all add: st1_def d\<close>)
  have rest: "cd_loop BMP_LIMIT st1 (ASCII_I_LIMIT + 1) = st1"
    by (rule cd_loop_moved) (use fl in \<open>simp_all add: st1_def d\<close>)
  have "cd_loop BMP_LIMIT st i = st1"
    using I pad b8 rest
    by (subst cd_loop.simps) (simp add: i Let_def st1_def [symmetric], simp add: st1_def d)
  then show ?case using I by (simp add: st1_def d)
next
  case (Suc n)
  then have lt: "i < 4096" by simp
  note I = Suc.prems(1) [unfolded identity_placed_def]
  have step: "identity_placed (cd_body st i) (i + 1)"
    by (rule cd_body_identity [OF Suc.prems(1,2) lt])
  have "cd_loop BMP_LIMIT st i = cd_loop BMP_LIMIT (cd_body st i) (i + 1)"
    using lt I by (subst cd_loop.simps) simp
  moreover have "\<exists>st'. cd_loop BMP_LIMIT (cd_body st i) (i + 1) = st' \<and> cd_newStart st' = 0x10000 \<and>
           cd_iLimit st' = BMP_I_LIMIT \<and> dataNullIndex (cd_nt st') = -1 \<and>
           (\<forall>j. 0 \<le> j \<and> j < 4096 \<longrightarrow>
                index (cd_nt st') j = word_of_int (16 * j) \<and> flags (cd_nt st') j = MOVED)"
    by (rule Suc.hyps(1) [OF _ step]) (use Suc.hyps(2) Suc.prems lt in simp_all)
  ultimately show ?case by simp
qed

lemma cd_resolve_none:
  assumes "\<forall>j. i \<le> j \<and> j < lim \<longrightarrow> flags nt j \<noteq> SAME_AS"
  shows "cd_resolve nt i lim = nt"
  using assms
proof (induction "nat (lim - i)" arbitrary: i)
  case 0
  then show ?case by (subst cd_resolve.simps) simp
next
  case (Suc n)
  then have lt: "i < lim" by simp
  then have "flags nt i \<noteq> SAME_AS" using Suc.prems by simp
  then have "cd_resolve nt i lim = cd_resolve nt (i + 1) lim"
    using lt by (subst cd_resolve.simps) simp
  also have "\<dots> = nt"
    by (rule Suc.hyps(1)) (use Suc.hyps(2) Suc.prems lt in simp_all)
  finally show ?case .
qed

lemma get_identity:
  assumes "highStart t = BMP_LIMIT"
    "\<forall>j. 0 \<le> j \<and> j < 4096 \<longrightarrow>
        flags (newTrie t) j = MIXED \<and> index (newTrie t) j = word_of_int (16 * j)"
    "\<forall>k. 0 \<le> k \<and> k < 65536 \<longrightarrow> data (newTrie t) k = word_of_int k"
    "0 \<le> c" "c < 65536"
  shows "utrie3bld_get t c = word_of_int c"
proof -
  define i where "i = c div 16"
  define r where "r = c mod 16"
  have c: "c = 16 * i + r" "0 \<le> r" "r < 16" by (simp_all add: i_def r_def)
  have i: "0 \<le> i" "i < 4096" using assms(4,5) c by simp_all
  have f: "flags (newTrie t) i = MIXED" and ix: "index (newTrie t) i = word_of_int (16 * i)"
    using assms(2) i by simp_all
  have u: "uint (index (newTrie t) i) = 16 * i" unfolding ix by (rule u32_16 [OF i])
  have "uint (index (newTrie t) i + word_of_int r) = uint (index (newTrie t) i) + r"
    by (rule uint_offset_add) (use u i c in simp_all)
  then have o: "uint (index (newTrie t) i + word_of_int r) = c" using u c by simp
  have "utrie3bld_get t c = data (newTrie t) (uint (index (newTrie t) i + word_of_int r))"
    using assms(1,4,5) f by (simp add: utrie3bld_get_def Let_def bit_arith i_def r_def)
  then show ?thesis unfolding o using assms(3,4,5) by simp
qed

lemma compactData_identity:
  assumes "highStart t = BMP_LIMIT"
    "\<forall>j. 0 \<le> j \<and> j < 4096 \<longrightarrow>
        flags (newTrie t) j = MIXED \<and> index (newTrie t) j = word_of_int (16 * j)"
    "\<forall>k. 0 \<le> k \<and> k < 65536 \<longrightarrow> data (newTrie t) k = word_of_int k"
  shows "\<exists>t3. compactData zero_memory u t BMP_LIMIT U_ZERO_ERROR = (U_ZERO_ERROR, t3) \<and>
           trie_dataLength t3 = 0x10000 \<and>
           (\<forall>j. 0 \<le> j \<and> j < 4096 \<longrightarrow> index (newTrie t3) j = word_of_int (16 * j))"
proof -
  obtain e3 t3 where c: "compactData zero_memory u t BMP_LIMIT U_ZERO_ERROR = (e3, t3)"
    by (cases "compactData zero_memory u t BMP_LIMIT U_ZERO_ERROR")
  have cw: "compactWholeDataBlocks u (newTrie t) BMP_LIMIT =
      (0x10000, newTrie t \<lparr> dataNullIndex := -1 \<rparr>)"
    by (rule compactWholeDataBlocks_distinct [OF assms(2,3)])
  from c show ?thesis
  proof (cases rule: compactData_elim)
    case (fail len nt1)
    then show ?thesis by (simp add: zero_memory_def)
  next
    case (ok len nt1 fresh st nt3 trie1)
    have l: "len = 0x10000" and n1: "nt1 = newTrie t \<lparr> dataNullIndex := -1 \<rparr>"
      using ok(1) cw by simp_all
    define st0 where "st0 =
      \<lparr> cd_nt = cd_ascii nt1 0 0 ASCII_LIMIT,
        cd_newData = (\<lambda>j. if 0 \<le> j \<and> j < ASCII_LIMIT then utrie3bld_get t j else fresh j),
        cd_newStart = ASCII_LIMIT, cd_granularity = 1, cd_iLimit = BMP_I_LIMIT \<rparr>"
    have A: "flags (cd_ascii nt1 0 0 ASCII_LIMIT) j = (if 0 \<le> j \<and> j < 8 then MOVED else flags nt1 j)"
      "index (cd_ascii nt1 0 0 ASCII_LIMIT) j =
           (if 0 \<le> j \<and> j < 8 then word_of_int (16 * j) else index nt1 j)"
      "data (cd_ascii nt1 0 0 ASCII_LIMIT) = data nt1"
      "dataNullIndex (cd_ascii nt1 0 0 ASCII_LIMIT) = dataNullIndex nt1" for j
      using cd_ascii_spec [of 0 nt1 j] by simp_all
    have g: "utrie3bld_get t k = word_of_int k" if "0 \<le> k" "k < 128" for k
      by (rule get_identity [OF assms]) (use that in simp_all)
    have N: "flags nt1 = flags (newTrie t)" "index nt1 = index (newTrie t)"
      "data nt1 = data (newTrie t)" "dataNullIndex nt1 = -1"
      by (simp_all add: n1)
    have I0: "identity_placed st0 8"
      unfolding identity_placed_def st0_def
      using assms(2,3) by (auto simp add: A g N)
    obtain st' where st': "cd_loop BMP_LIMIT st0 8 = st'" "cd_newStart st' = 0x10000"
      "cd_iLimit st' = BMP_I_LIMIT" "dataNullIndex (cd_nt st') = -1"
      "\<forall>j. 0 \<le> j \<and> j < 4096 \<longrightarrow>
          index (cd_nt st') j = word_of_int (16 * j) \<and> flags (cd_nt st') j = MOVED"
      using cd_loop_identity [OF I0] by auto
    have st: "st = st'" using ok(3) st'(1) by (simp add: st0_def)
    have "cd_resolve (cd_nt st') ASCII_I_LIMIT (cd_iLimit st') = cd_nt st'"
      by (rule cd_resolve_none) (use st'(3,5) in simp)
    then have nt3: "nt3 = cd_nt st'" using ok(4) st by simp
    show ?thesis
      using c ok(6,7) st'(2,5) by (intro exI [of _ t3]) (simp add: nt3 st)
  qed
qed

lemma compactTrie_identity:
  "\<exists>t4 i1. compactTrie zero_memory stack (maskValues identity_bmp_trie 0xFFFF) U_ZERO_ERROR
              = (U_ZERO_ERROR, t4, i1) \<and>
           indexLength t4 = 4096 \<and> trie_dataLength t4 = 0x10000 \<and>
           (\<forall>j. 0 \<le> j \<and> j < 4096 \<longrightarrow> index (newTrie t4) j = word_of_int (16 * j))"
proof -
  define tm where "tm = maskValues identity_bmp_trie 0xFFFF"
  note M = identity_bmp_trie_masked [folded tm_def]
  have hv: "utrie3bld_get tm MAX_UNICODE = 0"
    using M(2,3) by (simp add: utrie3bld_get_def)
  have "\<not> slot_matches (newTrie tm) 4095 0"
  proof -
    have "data (newTrie tm) (uint (index (newTrie tm) 4095) + 1) \<noteq> 0"
      unfolding M by simp
    then show ?thesis by (auto simp add: slot_matches_def M)
  qed
  then have fh: "findHighStart (newTrie tm) (highStart tm) (utrie3bld_get tm MAX_UNICODE) = 0x10000"
    unfolding hv M(2) findHighStart_def
    by (subst findHighStart_loop_unfold) (simp add: drop_bit_4_eq)
  obtain t2 where p: "compactTrie_prefix tm = (t2, BMP_LIMIT)" "highStart t2 = BMP_LIMIT"
    "data (newTrie t2) = data (newTrie tm)"
    "\<forall>j. j < 4096 \<longrightarrow> flags (newTrie t2) j = flags (newTrie tm) j \<and>
                    index (newTrie t2) j = index (newTrie tm) j"
    using compactTrie_prefix_frame [OF M(1) fh, of "0x10000"] by auto
  have t2: "\<forall>j. 0 \<le> j \<and> j < 4096 \<longrightarrow>
        flags (newTrie t2) j = MIXED \<and> index (newTrie t2) j = word_of_int (16 * j)"
    "\<forall>k. 0 \<le> k \<and> k < 65536 \<longrightarrow> data (newTrie t2) k = word_of_int k"
    using p(3,4) by (simp_all add: M)
  obtain t3 where d: "compactData zero_memory (uninit_blocks stack) t2 BMP_LIMIT U_ZERO_ERROR
        = (U_ZERO_ERROR, t3)" "trie_dataLength t3 = 0x10000"
    "\<forall>j. 0 \<le> j \<and> j < 4096 \<longrightarrow> index (newTrie t3) j = word_of_int (16 * j)"
    using compactData_identity [OF p(2) t2, of "uninit_blocks stack"] by blast
  show ?thesis
    using p(1) d
    by (intro exI [of _ "t3 \<lparr> indexLength := BMP_I_LIMIT \<rparr>"] exI [of _ "uninit_index1 stack"])
       (simp add: compactTrie_eq tm_def [symmetric] compactIndex2_def)
qed

lemma identity_bmp_trie_get:
  assumes "0 \<le> c" "c < 65536"
  shows "utrie3bld_get identity_bmp_trie c = word_of_int c"
  by (rule get_identity [OF _ _ _ assms]) (simp_all add: identity_bmp_trie_def)

text \<open>
  A run of C6 on which the second range check fails. The trie holds the value \<open>c\<close> at every
  BMP code point \<open>c\<close>, so no two of its 4096 blocks are equal or overlap; the compaction
  keeps all of them in order, slot 3840 gets the data offset \<open>61440\<close>, and with the
  \<open>4096\<close> index entries in front of the 16-bit data the sum is \<open>0x10000\<close>. The freeze
  returns \<open>U_INDEX_OUTOFBOUNDS_ERROR\<close> and the compacted, still mutable trie, although every
  allocation would have succeeded.
\<close>

theorem freeze_index_out_of_bounds_witness:
  "\<exists>trie2 index1 trie'.
     compactTrie zero_memory blank_locals (maskValues identity_bmp_trie 0xFFFF) U_ZERO_ERROR
       = (U_ZERO_ERROR, trie2, index1) \<and>
     indexLength trie2 = 4096 \<and> index (newTrie trie2) 3840 = 61440 \<and>
     \<not> drop_bit UTRIE3_INDEX_SHIFT (indexLength trie2 + trie_dataLength trie2) > 0xFFFF \<and>
     utrie3bld_freeze zero_memory blank_locals identity_bmp_trie UTRIE3_16_VALUE_BITS U_ZERO_ERROR
       = (U_INDEX_OUTOFBOUNDS_ERROR, trie') \<and>
     trie' = trie2 \<and> memory trie' = None \<and> index16 trie' = None \<and> data16 trie' = None \<and>
     \<not> newTrie_null trie'"
proof -
  obtain trie2 index1 where
    c: "compactTrie zero_memory blank_locals (maskValues identity_bmp_trie 0xFFFF) U_ZERO_ERROR
          = (U_ZERO_ERROR, trie2, index1)"
    and il: "indexLength trie2 = 4096" and dl: "trie_dataLength trie2 = 0x10000"
    and ix: "\<forall>j. 0 \<le> j \<and> j < 4096 \<longrightarrow> index (newTrie trie2) j = word_of_int (16 * j)"
    using compactTrie_identity [of blank_locals] by blast
  obtain e' trie' where
    f: "utrie3bld_freeze zero_memory blank_locals identity_bmp_trie UTRIE3_16_VALUE_BITS U_ZERO_ERROR
          = (e', trie')"
    by (cases "utrie3bld_freeze zero_memory blank_locals identity_bmp_trie UTRIE3_16_VALUE_BITS
                 U_ZERO_ERROR")
  have nn: "\<not> newTrie_null identity_bmp_trie" by (simp add: identity_bmp_trie_def)
  have vb: "UTRIE3_16_VALUE_BITS = UTRIE3_16_VALUE_BITS \<or> UTRIE3_16_VALUE_BITS = UTRIE3_32_VALUE_BITS"
    by simp
  have c': "compactTrie zero_memory blank_locals
       (if UTRIE3_16_VALUE_BITS \<noteq> UTRIE3_32_VALUE_BITS then maskValues identity_bmp_trie 0xFFFF
        else identity_bmp_trie)
       U_ZERO_ERROR = (U_ZERO_ERROR, trie2, index1)"
    using c by simp
  have dm: "indexLength trie2 =
      (if UTRIE3_16_VALUE_BITS = UTRIE3_16_VALUE_BITS then indexLength trie2 else 0)"
    by simp
  note T = freeze_index_out_of_bounds [OF nn vb c' f dm]
  have i3840: "index (newTrie trie2) 3840 = 61440" using ix by simp
  have big: "word_of_int (indexLength trie2) + index (newTrie trie2) 3840 > (0xFFFF :: u32)"
    unfolding il i3840 by simp
  then have ex: "\<exists>i. 0 \<le> i \<and> i < BMP_I_LIMIT \<and>
      word_of_int (indexLength trie2) + index (newTrie trie2) i > (0xFFFF :: u32)"
    by (intro exI [of _ 3840]) simp
  have e': "e' = U_INDEX_OUTOFBOUNDS_ERROR" using T ex by blast
  then have r: "trie' = trie2" "memory trie' = memory identity_bmp_trie"
    "index16 trie' = index16 identity_bmp_trie" "data16 trie' = data16 identity_bmp_trie"
    "\<not> newTrie_null trie'"
    using T by blast+
  have small: "\<not> drop_bit UTRIE3_INDEX_SHIFT (indexLength trie2 + trie_dataLength trie2) > 0xFFFF"
    unfolding il dl by (simp add: drop_bit_eq_div)
  have m: "memory trie' = None" "index16 trie' = None" "data16 trie' = None"
    using r(2-4) by (simp_all add: identity_bmp_trie_def)
  show ?thesis
    by (intro exI [of _ trie2] exI [of _ index1] exI [of _ trie'] conjI c il i3840 small
        f [unfolded e'] r(1) m r(5))
qed

section \<open>The freeze of a trie with one value\<close>

lemma cd_loop_skip:
  assumes "cd_granularity st \<noteq> 1" "i \<le> cd_iLimit st"
    "\<forall>j. i \<le> j \<and> j < cd_iLimit st \<longrightarrow> cd_body st j = st"
  shows "cd_loop hs st i = st"
  using assms(2,3)
proof (induction "nat (cd_iLimit st - i)" arbitrary: i)
  case 0
  then have "i = cd_iLimit st" by simp
  then show ?case using assms(1) by (subst cd_loop.simps) simp
next
  case (Suc n)
  then have lt: "i < cd_iLimit st" by simp
  then have b: "cd_body st i = st" using Suc.prems by simp
  have "cd_loop hs st i = cd_loop hs st (i + 1)"
    using lt b by (subst cd_loop.simps) simp
  also have "\<dots> = st"
    by (rule Suc.hyps(1)) (use Suc.hyps(2) Suc.prems lt in simp_all)
  finally show ?case .
qed

lemma cd_body_same_as:
  assumes "flags (cd_nt st) i = SAME_AS"
  shows "cd_body st i = st"
  using assms by (simp add: cd_body_def Let_def)

lemma cd_loop_same_as:
  assumes "cd_granularity st = 1" "cd_iLimit st = BMP_I_LIMIT" "8 \<le> i" "i \<le> 4096"
    "cd_newStart st mod 2 = 0"
    "\<forall>j. 8 \<le> j \<and> j < 4096 \<longrightarrow> flags (cd_nt st) j = SAME_AS"
  shows "cd_loop BMP_LIMIT st i =
           st \<lparr> cd_granularity := UTRIE3_DATA_GRANULARITY, cd_iLimit := BMP_I_LIMIT \<rparr>"
  using assms(3,4)
proof (induction "nat (4096 - i)" arbitrary: i)
  case 0
  then have i: "i = 4096" by simp
  define st1 where "st1 = st \<lparr> cd_granularity := UTRIE3_DATA_GRANULARITY, cd_iLimit := BMP_I_LIMIT \<rparr>"
  have d: "drop_bit UTRIE3_SHIFT_2 BMP_LIMIT = BMP_I_LIMIT" by (simp add: drop_bit_4_eq)
  have pad: "cd_pad (cd_newData st) (cd_newStart st) = (cd_newData st, cd_newStart st)"
    using assms(5) by (subst cd_pad.simps) (simp add: and_one_eq)
  have sk: "\<forall>j. 8 \<le> j \<and> j < cd_iLimit st1 \<longrightarrow> cd_body st1 j = st1"
    using assms(6) by (auto simp add: st1_def intro!: cd_body_same_as)
  have b8: "cd_body st1 ASCII_I_LIMIT = st1" using sk by (simp add: st1_def)
  have rest: "cd_loop BMP_LIMIT st1 (ASCII_I_LIMIT + 1) = st1"
    by (rule cd_loop_skip) (use sk in \<open>simp_all add: st1_def\<close>)
  have e: "st \<lparr> cd_newData := cd_newData st, cd_newStart := cd_newStart st,
                 cd_granularity := UTRIE3_DATA_GRANULARITY,
                 cd_iLimit := drop_bit UTRIE3_SHIFT_2 BMP_LIMIT \<rparr> = st1"
    by (simp add: st1_def d)
  have "cd_loop BMP_LIMIT st i = st1"
    using assms(1,2) pad b8 rest
    by (subst cd_loop.simps) (simp add: i Let_def e, simp add: st1_def)
  then show ?case by (simp add: st1_def)
next
  case (Suc n)
  then have lt: "i < 4096" by simp
  have b: "cd_body st i = st"
    by (rule cd_body_same_as) (use assms(6) Suc.prems lt in simp)
  have "cd_loop BMP_LIMIT st i = cd_loop BMP_LIMIT st (i + 1)"
    using lt assms(1,2) b by (subst cd_loop.simps) simp
  also have "\<dots> = st \<lparr> cd_granularity := UTRIE3_DATA_GRANULARITY, cd_iLimit := BMP_I_LIMIT \<rparr>"
    by (rule Suc.hyps(1)) (use Suc.hyps(2) Suc.prems lt in simp_all)
  finally show ?case .
qed

lemma cd_resolve_same_as:
  assumes "0 < i" "\<forall>j. i \<le> j \<and> j < lim \<longrightarrow> flags nt j = SAME_AS \<and> index nt j = 0"
  shows "flags (cd_resolve nt i lim) j = (if i \<le> j \<and> j < lim then MOVED else flags nt j) \<and>
         index (cd_resolve nt i lim) j = (if i \<le> j \<and> j < lim then index nt 0 else index nt j) \<and>
         dataNullIndex (cd_resolve nt i lim) = dataNullIndex nt"
  using assms
proof (induction "nat (lim - i)" arbitrary: nt i)
  case 0
  then show ?case by (subst (1 2 3) cd_resolve.simps) auto
next
  case (Suc n)
  then have lt: "i < lim" by simp
  let ?nt = "nt \<lparr> flags := (flags nt)(i := MOVED), index := (index nt)(i := index nt 0) \<rparr>"
  have fi: "flags nt i = SAME_AS" "index nt i = 0" using Suc.prems lt by simp_all
  have e: "cd_resolve nt i lim = cd_resolve ?nt (i + 1) lim"
    using lt fi by (subst cd_resolve.simps) simp
  have IH: "flags (cd_resolve ?nt (i + 1) lim) j = (if i + 1 \<le> j \<and> j < lim then MOVED else flags ?nt j) \<and>
         index (cd_resolve ?nt (i + 1) lim) j =
           (if i + 1 \<le> j \<and> j < lim then index ?nt 0 else index ?nt j) \<and>
         dataNullIndex (cd_resolve ?nt (i + 1) lim) = dataNullIndex ?nt"
    by (rule Suc.hyps(1)) (use Suc.hyps(2) Suc.prems lt in simp_all)
  show ?case unfolding e using IH Suc.prems(1) lt by auto
qed

lemma compactData_same_as:
  assumes "compactWholeDataBlocks u (newTrie t) BMP_LIMIT = (len, nt')"
    and "\<forall>j. 8 \<le> j \<and> j < BMP_I_LIMIT \<longrightarrow> flags nt' j = SAME_AS \<and> index nt' j = 0"
    and "dataNullIndex nt' = 0"
    and "m ((len + ASCII_LIMIT) * 4) \<noteq> None"
  shows "\<exists>t3. compactData m u t BMP_LIMIT U_ZERO_ERROR = (U_ZERO_ERROR, t3) \<and>
           dataNullOffset t3 = 0 \<and> trie_dataLength t3 = 128 \<and> initialValue t3 = index nt' 0 \<and>
           (\<forall>j. 0 \<le> j \<and> j < 4096 \<longrightarrow>
                index (newTrie t3) j = (if j < 8 then word_of_int (16 * j) else 0)) \<and>
           (\<forall>k. 0 \<le> k \<and> k < 128 \<longrightarrow> data (newTrie t3) k = utrie3bld_get t k) \<and>
           highStart t3 = highStart t \<and> highValue t3 = highValue t \<and>
           index2NullOffset t3 = index2NullOffset t \<and> errorValue t3 = errorValue t \<and>
           newTrie_null t3 = newTrie_null t"
proof -
  obtain e3 t3 where c: "compactData m u t BMP_LIMIT U_ZERO_ERROR = (e3, t3)"
    by (cases "compactData m u t BMP_LIMIT U_ZERO_ERROR")
  note cw = assms(1)
  note F = assms(2,3)
  from c show ?thesis
  proof (cases rule: compactData_elim)
    case (fail len1 nt1)
    then show ?thesis using cw assms(4) by simp
  next
    case (ok len1 nt1 fresh st nt3 trie1)
    have n1: "nt1 = nt'" using ok(1) cw by simp
    define st0 where "st0 =
      \<lparr> cd_nt = cd_ascii nt' 0 0 ASCII_LIMIT,
        cd_newData = (\<lambda>j. if 0 \<le> j \<and> j < ASCII_LIMIT then utrie3bld_get t j else fresh j),
        cd_newStart = ASCII_LIMIT, cd_granularity = 1, cd_iLimit = BMP_I_LIMIT \<rparr>"
    have A: "flags (cd_ascii nt' 0 0 ASCII_LIMIT) j = (if 0 \<le> j \<and> j < 8 then MOVED else flags nt' j)"
      "index (cd_ascii nt' 0 0 ASCII_LIMIT) j =
           (if 0 \<le> j \<and> j < 8 then word_of_int (16 * j) else index nt' j)"
      "dataNullIndex (cd_ascii nt' 0 0 ASCII_LIMIT) = dataNullIndex nt'" for j
      using cd_ascii_spec [of 0 nt' j] by simp_all
    have lo: "cd_loop BMP_LIMIT st0 8 =
        st0 \<lparr> cd_granularity := UTRIE3_DATA_GRANULARITY, cd_iLimit := BMP_I_LIMIT \<rparr>"
      by (rule cd_loop_same_as) (simp_all add: st0_def A F)
    have st: "st = st0 \<lparr> cd_granularity := UTRIE3_DATA_GRANULARITY, cd_iLimit := BMP_I_LIMIT \<rparr>"
      using ok(3) lo by (simp add: st0_def n1)
    have R: "flags (cd_resolve (cd_ascii nt' 0 0 ASCII_LIMIT) 8 4096) j =
           (if 8 \<le> j \<and> j < 4096 then MOVED else flags (cd_ascii nt' 0 0 ASCII_LIMIT) j) \<and>
         index (cd_resolve (cd_ascii nt' 0 0 ASCII_LIMIT) 8 4096) j =
           (if 8 \<le> j \<and> j < 4096 then index (cd_ascii nt' 0 0 ASCII_LIMIT) 0
            else index (cd_ascii nt' 0 0 ASCII_LIMIT) j) \<and>
         dataNullIndex (cd_resolve (cd_ascii nt' 0 0 ASCII_LIMIT) 8 4096) =
           dataNullIndex (cd_ascii nt' 0 0 ASCII_LIMIT)" for j
      by (rule cd_resolve_same_as) (simp_all add: A F)
    have nt3: "nt3 = cd_resolve (cd_ascii nt' 0 0 ASCII_LIMIT) 8 4096"
      using ok(4) st by (simp add: st0_def)
    have i3: "index nt3 j = (if j < 8 then word_of_int (16 * j) else 0)"
      if "0 \<le> j" "j < 4096" for j
      using R [of j] that by (simp add: nt3 A)
    have dn: "dataNullIndex nt3 = 0" using R [of 0] by (simp add: nt3 A F)
    have i0: "index nt3 0 = 0" using i3 [of 0] by simp
    have t1: "trie1 = t \<lparr> initialValue := index nt' 0 \<rparr>" using ok(5) F(2) by (simp add: n1)
    show ?thesis
      using c ok(6,7) i3
      by (intro exI [of _ t3]) (simp add: dn i0 t1 st st0_def)
  qed
qed

lemma compactData_uniform:
  assumes "\<forall>j. 0 \<le> j \<and> j < BMP_I_LIMIT \<longrightarrow> flags (newTrie t) j = ALL_SAME \<and> index (newTrie t) j = v"
    and "m 576 \<noteq> None"
  shows "\<exists>t3. compactData m u t BMP_LIMIT U_ZERO_ERROR = (U_ZERO_ERROR, t3) \<and>
           dataNullOffset t3 = 0 \<and> trie_dataLength t3 = 128 \<and> initialValue t3 = v \<and>
           (\<forall>j. 0 \<le> j \<and> j < 4096 \<longrightarrow>
                index (newTrie t3) j = (if j < 8 then word_of_int (16 * j) else 0)) \<and>
           (\<forall>k. 0 \<le> k \<and> k < 128 \<longrightarrow> data (newTrie t3) k = utrie3bld_get t k) \<and>
           highStart t3 = highStart t \<and> highValue t3 = highValue t \<and>
           index2NullOffset t3 = index2NullOffset t \<and> errorValue t3 = errorValue t \<and>
           newTrie_null t3 = newTrie_null t"
proof -
  obtain nt' where cw: "compactWholeDataBlocks u (newTrie t) BMP_LIMIT = (16, nt')"
    and F: "\<And>j. flags nt' j = (if 1 \<le> j \<and> j < BMP_I_LIMIT then SAME_AS else flags (newTrie t) j)"
      "\<And>j. index nt' j = (if 1 \<le> j \<and> j < BMP_I_LIMIT then 0 else index (newTrie t) j)"
      "dataNullIndex nt' = 0"
    using compactWholeDataBlocks_uniform [OF assms(1), of u] by blast
  have i0: "index nt' 0 = v" using F(2) [of 0] assms(1) by simp
  have S: "\<exists>t3. compactData m u t BMP_LIMIT U_ZERO_ERROR = (U_ZERO_ERROR, t3) \<and>
           dataNullOffset t3 = 0 \<and> trie_dataLength t3 = 128 \<and> initialValue t3 = index nt' 0 \<and>
           (\<forall>j. 0 \<le> j \<and> j < 4096 \<longrightarrow>
                index (newTrie t3) j = (if j < 8 then word_of_int (16 * j) else 0)) \<and>
           (\<forall>k. 0 \<le> k \<and> k < 128 \<longrightarrow> data (newTrie t3) k = utrie3bld_get t k) \<and>
           highStart t3 = highStart t \<and> highValue t3 = highValue t \<and>
           index2NullOffset t3 = index2NullOffset t \<and> errorValue t3 = errorValue t \<and>
           newTrie_null t3 = newTrie_null t"
    by (rule compactData_same_as [OF cw _ F(3)]) (use assms(2) F in simp_all)
  show ?thesis using S unfolding i0 .
qed

lemma compactTrie_prefix_uniform:
  assumes "builder_inv t" "\<forall>c. 0 \<le> c \<and> c \<le> MAX_UNICODE \<longrightarrow> utrie3bld_get t c = v"
  shows "\<exists>t2. compactTrie_prefix t = (t2, BMP_LIMIT) \<and> highStart t2 = 0 \<and> highValue t2 = v \<and>
           (\<forall>j. 0 \<le> j \<and> j < BMP_I_LIMIT \<longrightarrow>
                flags (newTrie t2) j = ALL_SAME \<and> index (newTrie t2) j = v) \<and>
           index2NullOffset t2 = index2NullOffset t \<and> errorValue t2 = errorValue t \<and>
           newTrie_null t2 = newTrie_null t"
proof -
  have hv: "utrie3bld_get t MAX_UNICODE = v" using assms(2) by simp
  obtain k where k: "findHighStart (newTrie t) (highStart t) v = 16 * k" "0 \<le> k"
    "16 * k \<le> highStart t"
    "0 < k \<longrightarrow> (\<exists>c. 16 * k - 16 \<le> c \<and> c < 16 * k \<and> utrie3bld_get t c \<noteq> v)"
    using findHighStart_spec [OF assms(1), of v] by blast
  have hs: "highStart t \<le> UNICODE_LIMIT" using assms(1) unfolding builder_inv_def by simp
  have "k = 0"
  proof (rule ccontr)
    assume "k \<noteq> 0"
    then have "0 < k" using k(2) by simp
    then obtain c where c: "16 * k - 16 \<le> c" "c < 16 * k" "utrie3bld_get t c \<noteq> v"
      using k(4) by blast
    have "0 \<le> c" "c \<le> MAX_UNICODE" using c(1,2) \<open>0 < k\<close> k(3) hs by simp_all
    then show False using assms(2) c(3) by simp
  qed
  then have fh: "findHighStart (newTrie t) (highStart t) v = 0" using k(1) by simp
  have a: "(0::int) AND (8192 - 1) = 0" by simp
  have d: "drop_bit UTRIE3_SHIFT_2 (0::int) = 0" by simp
  show ?thesis
    unfolding compactTrie_prefix_def Let_def hv fh a prod.case
    by (simp add: compactTrie_fill_spec)
qed

lemma compactTrie_uniform:
  assumes "builder_inv t" "\<forall>c. 0 \<le> c \<and> c \<le> MAX_UNICODE \<longrightarrow> utrie3bld_get t c = v"
    and "m 576 \<noteq> None"
  shows "\<exists>t4 i1. compactTrie m stack t U_ZERO_ERROR = (U_ZERO_ERROR, t4, i1) \<and>
           highStart t4 = 0 \<and> highValue t4 = v \<and> dataNullOffset t4 = 0 \<and>
           index2NullOffset t4 = index2NullOffset t \<and> indexLength t4 = 4096 \<and>
           trie_dataLength t4 = 128 \<and> initialValue t4 = v \<and> errorValue t4 = errorValue t \<and>
           (\<forall>j. 0 \<le> j \<and> j < 4096 \<longrightarrow>
                index (newTrie t4) j = (if j < 8 then word_of_int (16 * j) else 0)) \<and>
           (\<forall>k. 0 \<le> k \<and> k < 128 \<longrightarrow> data (newTrie t4) k = v)"
proof -
  obtain t2 where p: "compactTrie_prefix t = (t2, BMP_LIMIT)" "highStart t2 = 0" "highValue t2 = v"
    "\<forall>j. 0 \<le> j \<and> j < BMP_I_LIMIT \<longrightarrow> flags (newTrie t2) j = ALL_SAME \<and> index (newTrie t2) j = v"
    "index2NullOffset t2 = index2NullOffset t" "errorValue t2 = errorValue t"
    using compactTrie_prefix_uniform [OF assms(1,2)] by blast
  obtain t3 where d: "compactData m (uninit_blocks stack) t2 BMP_LIMIT U_ZERO_ERROR = (U_ZERO_ERROR, t3)"
    "dataNullOffset t3 = 0" "trie_dataLength t3 = 128" "initialValue t3 = v"
    "\<forall>j. 0 \<le> j \<and> j < 4096 \<longrightarrow> index (newTrie t3) j = (if j < 8 then word_of_int (16 * j) else 0)"
    "\<forall>k. 0 \<le> k \<and> k < 128 \<longrightarrow> data (newTrie t3) k = utrie3bld_get t2 k"
    "highStart t3 = highStart t2" "highValue t3 = highValue t2"
    "index2NullOffset t3 = index2NullOffset t2" "errorValue t3 = errorValue t2"
    using compactData_uniform [where t = t2 and v = v and m = m and u = "uninit_blocks stack",
        OF p(4) assms(3)] by blast
  have g: "utrie3bld_get t2 k = v" if "0 \<le> k" "k < 128" for k
    using that p(2,3) by (simp add: utrie3bld_get_def)
  show ?thesis
    using p d g
    by (intro exI [of _ "t3 \<lparr> indexLength := BMP_I_LIMIT \<rparr>"] exI [of _ "uninit_index1 stack"])
       (simp add: compactTrie_eq compactIndex2_def)
qed

lemma u32_small_not_above:
  assumes "0 \<le> n" "n \<le> 0xFFFF"
  shows "\<not> (word_of_int n :: u32) > 0xFFFF"
proof -
  have "uint (word_of_int n :: u32) = n" by (rule uint_word_of_int_small) (use assms in simp_all)
  then show ?thesis using assms by (simp add: word_less_def)
qed

lemma freeze_uniform:
  assumes "builder_inv t"
    and "\<forall>c. 0 \<le> c \<and> c \<le> MAX_UNICODE \<longrightarrow> utrie3bld_get t c AND value_mask valueBits = v"
    and "valueBits = UTRIE3_16_VALUE_BITS \<or> valueBits = UTRIE3_32_VALUE_BITS"
    and "\<forall>n. m n \<noteq> None"
  shows "\<exists>t'. utrie3bld_freeze m stack t valueBits U_ZERO_ERROR = (U_ZERO_ERROR, t') \<and>
           highStart t' = 0 \<and> highValue t' = v \<and> dataNullOffset t' = 0 \<and>
           index2NullOffset t' = index2NullOffset t \<and> initialValue t' = v \<and>
           errorValue t' = errorValue t \<and> indexLength t' = 4096 \<and> trie_dataLength t' = 128 \<and>
           newTrie_null t'"
proof -
  define tm where "tm = (if valueBits \<noteq> UTRIE3_32_VALUE_BITS then maskValues t 0xFFFF else t)"
  note M = masked_trie [OF assms(1), where vb = valueBits, folded tm_def]
  have nn: "\<not> newTrie_null t" using assms(1) unfolding builder_inv_def by simp
  have u: "\<forall>c. 0 \<le> c \<and> c \<le> MAX_UNICODE \<longrightarrow> utrie3bld_get tm c = v"
    using M(2) assms(2) by simp
  have i2: "index2NullOffset tm = index2NullOffset t"
    by (simp add: tm_def maskValues_def Let_def)
  obtain t4 i1 where c: "compactTrie m stack tm U_ZERO_ERROR = (U_ZERO_ERROR, t4, i1)"
    and f: "highStart t4 = 0" "highValue t4 = v" "dataNullOffset t4 = 0"
      "index2NullOffset t4 = index2NullOffset tm" "indexLength t4 = 4096"
      "trie_dataLength t4 = 128" "initialValue t4 = v" "errorValue t4 = errorValue tm"
    and ix: "\<forall>j. 0 \<le> j \<and> j < 4096 \<longrightarrow>
                index (newTrie t4) j = (if j < 8 then word_of_int (16 * j) else 0)"
    using compactTrie_uniform [OF M(1) u, of m stack] assms(4) by blast
  define dm where "dm = (if valueBits = UTRIE3_16_VALUE_BITS then indexLength t4 else 0)"
  have dm: "dm = 4096 \<or> dm = 0" by (simp add: dm_def f)
  have c1: "\<not> drop_bit UTRIE3_INDEX_SHIFT (dm + trie_dataLength t4) > 0xFFFF"
    using dm by (auto simp add: f drop_bit_eq_div)
  have c2: "freeze_bmp_ok (index (newTrie t4)) dm 0 UTRIE3_INDEX_2_BMP_LENGTH"
    unfolding freeze_bmp_ok_iff
  proof (intro allI impI)
    fix k assume k: "0 \<le> k \<and> k < UTRIE3_INDEX_2_BMP_LENGTH"
    define n where "n = (if k < 8 then dm + 16 * k else dm)"
    have "word_of_int dm + index (newTrie t4) (0 + k) = (word_of_int n :: u32)"
      using ix k by (simp add: n_def)
    moreover have "\<not> (word_of_int n :: u32) > 0xFFFF"
      by (rule u32_small_not_above) (use dm k in \<open>auto simp add: n_def\<close>)
    ultimately show "\<not> word_of_int dm + index (newTrie t4) (0 + k) > (0xFFFF :: u32)" by simp
  qed
  define len where "len = sizeof_UTrie3Header + indexLength t4 * 2 +
                       (if valueBits = UTRIE3_16_VALUE_BITS
                        then trie_dataLength t4 * 2 else trie_dataLength t4 * 4)"
  have "m len \<noteq> None" using assms(4) by blast
  then obtain buf where b: "m len = Some buf" by (cases "m len") auto
  have ff: "freeze_finish m t4 i1 valueBits U_ZERO_ERROR =
      (U_ZERO_ERROR, freeze_write t4 i1 valueBits dm len)"
    using c1 c2 b unfolding freeze_finish_def Let_def dm_def [symmetric] len_def [symmetric]
    by simp
  have fz: "utrie3bld_freeze m stack t valueBits U_ZERO_ERROR =
      (U_ZERO_ERROR, freeze_write t4 i1 valueBits dm len)"
    using nn assms(3) c ff unfolding utrie3bld_freeze_def Let_def tm_def [symmetric]
    by auto
  show ?thesis
    unfolding fz
    by (intro exI [of _ "freeze_write t4 i1 valueBits dm len"])
       (simp add: freeze_write_fields f i2 M(4), simp add: freeze_write_def Let_def)
qed

lemma set_index2NullOffset:
  "index2NullOffset (snd (utrie3bld_set m t c v e)) = index2NullOffset t"
  by (simp add: utrie3bld_set_def ensureHighStart_def Let_def split: prod.splits)

lemma setRange_index2NullOffset:
  "index2NullOffset (snd (utrie3bld_setRange m t s e' v ow e)) = index2NullOffset t"
  by (simp add: utrie3bld_setRange_def setRange_rest_def ensureHighStart_def Let_def
      split: prod.splits)

lemma run_ops_index2NullOffset:
  "index2NullOffset (snd (run_ops m ops (e, t))) = index2NullOffset t"
proof (induction ops arbitrary: e t)
  case Nil
  then show ?case by simp
next
  case (Cons x xs)
  obtain e1 t1 where a: "apply_op m x (e, t) = (e1, t1)" by (cases "apply_op m x (e, t)")
  have "index2NullOffset t1 = index2NullOffset t"
  proof (cases x)
    case (Set c v)
    then show ?thesis using a set_index2NullOffset [of m t c v e] by simp
  next
    case (SetRange s e' v ow)
    then show ?thesis using a setRange_index2NullOffset [of m t s e' v ow e] by simp
  qed
  then show ?case using Cons.IH [of e1 t1] a by simp
qed

lemma build_index2NullOffset:
  assumes "build alloc m iv ev ops = Some (e, t)"
  shows "index2NullOffset t = UTRIE3_NO_INDEX2_NULL_OFFSET"
proof -
  obtain e0 t0 where o: "utrie3bld_open alloc iv ev U_ZERO_ERROR = (e0, Some t0)"
    and r: "run_ops m ops (e0, t0) = (e, t)"
    using assms by (auto simp add: build_def split: prod.splits option.splits)
  have "index2NullOffset t0 = UTRIE3_NO_INDEX2_NULL_OFFSET"
    using o by (auto simp add: utrie3bld_open_def split: option.splits if_splits)
  then show ?thesis using run_ops_index2NullOffset [of m ops e0 t0] r by simp
qed

lemma setRange_whole_status:
  assumes "\<not> newTrie_null t"
  shows "fst (utrie3bld_setRange m t 0 MAX_UNICODE v True U_ZERO_ERROR) = U_ZERO_ERROR"
  using assms
  by (simp add: utrie3bld_setRange_def setRange_rest_def Let_def bit_arith split: prod.splits)

lemma build_whole_range:
  assumes "build alloc m iv ev [SetRange 0 MAX_UNICODE v True] = Some (e, t)"
  shows "e = U_ZERO_ERROR" and "builder_inv t"
    and "\<forall>c. 0 \<le> c \<and> c \<le> MAX_UNICODE \<longrightarrow> utrie3bld_get t c = v"
proof -
  obtain e0 t0 where o: "utrie3bld_open alloc iv ev U_ZERO_ERROR = (e0, Some t0)"
    and r: "utrie3bld_setRange m t0 0 MAX_UNICODE v True e0 = (e, t)"
    using assms by (auto simp add: build_def split: prod.splits option.splits)
  note O = open_ok [OF o]
  have nn: "\<not> newTrie_null t0" using O(1) unfolding builder_inv_def by simp
  show e: "e = U_ZERO_ERROR" using setRange_whole_status [OF nn, of m v] r O(2) by simp
  show "builder_inv t" using assms by (rule build_any(1))
  show "\<forall>c. 0 \<le> c \<and> c \<le> MAX_UNICODE \<longrightarrow> utrie3bld_get t c = v"
    using build_any(4) [OF assms e] by simp
qed

lemma build_exists:
  "\<exists>e t. build (Some mem) m iv ev ops = Some (e, t)"
proof -
  obtain t0 where o: "utrie3bld_open (Some mem) iv ev U_ZERO_ERROR = (U_ZERO_ERROR, Some t0)"
    by (simp add: utrie3bld_open_def)
  obtain e t where r: "run_ops m ops (U_ZERO_ERROR, t0) = (e, t)"
    by (cases "run_ops m ops (U_ZERO_ERROR, t0)")
  show ?thesis using o r by (simp add: build_def)
qed

section \<open>The claim about the whole range set to one value\<close>

text \<open>
  C2, as amended: \<open>dataNullOffset\<close> is not the sentinel but \<open>0\<close>. After
  \<^verbatim>\<open>utrie3bld_open(0, 0)\<close> and \<^verbatim>\<open>utrie3bld_setRange(0, 0x10FFFF, 5, true)\<close>, which succeeds,
  a 16-bit \<^verbatim>\<open>utrie3bld_freeze\<close> whose allocations succeed returns \<open>U_ZERO_ERROR\<close>, and the
  frozen trie has \<open>highStart = 0\<close>, \<open>highValue = 5\<close>, a data length of \<open>128\<close> (the linear
  ASCII data), \<open>index2NullOffset\<close> equal to its sentinel \<open>0xFFFF\<close>, and
  \<open>dataNullOffset = 0\<close>: the one same-value block is the null block, and it lies at the
  start of the data.
\<close>

theorem freeze_of_whole_range:
  assumes "build alloc uprv_malloc 0 0 [SetRange 0 0x10FFFF 5 True] = Some (e, t)"
    and "\<forall>n. uprv_malloc' n \<noteq> None"
  shows "e = U_ZERO_ERROR \<and>
         (\<exists>t'. utrie3bld_freeze uprv_malloc' stack t UTRIE3_16_VALUE_BITS U_ZERO_ERROR
                  = (U_ZERO_ERROR, t') \<and>
               newTrie_null t' \<and> highStart t' = 0 \<and> highValue t' = 5 \<and>
               trie_dataLength t' = ASCII_LIMIT \<and>
               index2NullOffset t' = UTRIE3_NO_INDEX2_NULL_OFFSET \<and> dataNullOffset t' = 0)"
proof -
  note B = build_whole_range [OF assms(1)]
  have m: "(5 :: u32) AND 0xFFFF = 5" by simp
  have u: "\<forall>c. 0 \<le> c \<and> c \<le> MAX_UNICODE \<longrightarrow>
             utrie3bld_get t c AND value_mask UTRIE3_16_VALUE_BITS = 5"
    using B(3) m by (simp add: value_mask_def)
  have vb: "UTRIE3_16_VALUE_BITS = UTRIE3_16_VALUE_BITS \<or> UTRIE3_16_VALUE_BITS = UTRIE3_32_VALUE_BITS"
    by simp
  obtain t' where f: "utrie3bld_freeze uprv_malloc' stack t UTRIE3_16_VALUE_BITS U_ZERO_ERROR
        = (U_ZERO_ERROR, t')"
    "highStart t' = 0" "highValue t' = 5" "dataNullOffset t' = 0"
    "index2NullOffset t' = index2NullOffset t" "trie_dataLength t' = 128" "newTrie_null t'"
    using freeze_uniform [OF B(2) u vb assms(2), of stack] by blast
  have i2: "index2NullOffset t' = UTRIE3_NO_INDEX2_NULL_OFFSET"
    using f(5) build_index2NullOffset [OF assms(1)] by simp
  show ?thesis using B(1) f i2 by blast
qed

theorem freeze_of_whole_range_witness:
  "\<exists>t t'. build (Some blank_builder) no_memory 0 0 [SetRange 0 0x10FFFF 5 True]
             = Some (U_ZERO_ERROR, t) \<and>
     (\<forall>n. zero_memory n \<noteq> None) \<and>
     utrie3bld_freeze zero_memory blank_locals t UTRIE3_16_VALUE_BITS U_ZERO_ERROR
       = (U_ZERO_ERROR, t') \<and>
     newTrie_null t' \<and> highStart t' = 0 \<and> highValue t' = 5 \<and>
     trie_dataLength t' = ASCII_LIMIT \<and>
     index2NullOffset t' = UTRIE3_NO_INDEX2_NULL_OFFSET \<and> dataNullOffset t' = 0"
proof -
  obtain e t where b: "build (Some blank_builder) no_memory 0 0 [SetRange 0 0x10FFFF 5 True]
      = Some (e, t)"
    using build_exists [of blank_builder no_memory 0 0 "[SetRange 0 0x10FFFF 5 True]"] by blast
  have z: "\<forall>n. zero_memory n \<noteq> None" by (simp add: zero_memory_def)
  show ?thesis
    using freeze_of_whole_range [OF b z, of blank_locals] b z by blast
qed

text \<open>
  C2, the claim as it was stated, fails in its last part: in that run \<open>dataNullOffset\<close>
  is not the sentinel \<open>0xFFFFF\<close>.
\<close>

theorem whole_range_dataNullOffset_not_sentinel:
  "\<exists>t t'. build (Some blank_builder) no_memory 0 0 [SetRange 0 0x10FFFF 5 True]
             = Some (U_ZERO_ERROR, t) \<and>
     utrie3bld_freeze zero_memory blank_locals t UTRIE3_16_VALUE_BITS U_ZERO_ERROR
       = (U_ZERO_ERROR, t') \<and>
     dataNullOffset t' \<noteq> UTRIE3_NO_DATA_NULL_OFFSET"
proof -
  obtain e t where b: "build (Some blank_builder) no_memory 0 0 [SetRange 0 0x10FFFF 5 True]
      = Some (e, t)"
    using build_exists [of blank_builder no_memory 0 0 "[SetRange 0 0x10FFFF 5 True]"] by blast
  note B = build_whole_range [OF b]
  have m: "(5 :: u32) AND 0xFFFF = 5" by simp
  have u: "\<forall>c. 0 \<le> c \<and> c \<le> MAX_UNICODE \<longrightarrow>
             utrie3bld_get t c AND value_mask UTRIE3_16_VALUE_BITS = 5"
    using B(3) m by (simp add: value_mask_def)
  have vb: "UTRIE3_16_VALUE_BITS = UTRIE3_16_VALUE_BITS \<or> UTRIE3_16_VALUE_BITS = UTRIE3_32_VALUE_BITS"
    by simp
  have z: "\<forall>n. zero_memory n \<noteq> None" by (simp add: zero_memory_def)
  obtain t' where f: "utrie3bld_freeze zero_memory blank_locals t UTRIE3_16_VALUE_BITS U_ZERO_ERROR
        = (U_ZERO_ERROR, t')" "dataNullOffset t' = 0"
    using freeze_uniform [OF B(2) u vb z, of blank_locals] by blast
  show ?thesis
    using b B(1) f by (intro exI [of _ t] exI [of _ t']) simp
qed

section \<open>The claim about the high start after a freeze\<close>






section \<open>Properties of \<^verbatim>\<open>utrie3bld_getRange\<close>\<close>

lemma getRange_inner_spec:
  assumes "16 * i \<le> c" "c < 16 * i + 16" "di = base + (c - 16 * i)"
    "\<forall>x. 16 * i \<le> x \<and> x < 16 * i + 16 \<longrightarrow>
        f x = maybeHandleValue (data nt (base + (x - 16 * i))) iv nv h"
  shows "case getRange_inner nt iv nv h v di c of
           Inl e \<Rightarrow> c \<le> e \<and> e + 1 < 16 * i + 16 \<and> (\<forall>x. c < x \<and> x \<le> e \<longrightarrow> f x = v) \<and> f (e + 1) \<noteq> v
         | Inr c' \<Rightarrow> c' = 16 * i + 16 \<and> (\<forall>x. c < x \<and> x < c' \<longrightarrow> f x = v)"
  using assms(1,2,3)
proof (induction "nat (16 * i + 15 - c)" arbitrary: c di)
  case 0
  then have c: "c = 16 * i + 15" by simp
  have "(c + 1) mod 16 = 0" unfolding c by simp
  then have "getRange_inner nt iv nv h v di c = Inr (c + 1)"
    by (subst getRange_inner.simps) (simp add: Let_def and_15_eq_mod)
  then show ?case using c by auto
next
  case (Suc n)
  then have lt: "c + 1 < 16 * i + 16" by simp
  define k where "k = c + 1 - 16 * i"
  have k: "1 \<le> k" "k < 16" "c + 1 = 16 * i + k" using Suc.prems lt by (simp_all add: k_def)
  have "(c + 1) mod 16 = k" unfolding k(3) using k(1,2) by simp
  then have nz: "(c + 1) mod 16 \<noteq> 0" using k(1) by simp
  have "f (c + 1) = maybeHandleValue (data nt (base + (c + 1 - 16 * i))) iv nv h"
    using assms(4) Suc.prems lt by simp
  moreover have "base + (c + 1 - 16 * i) = di + 1" using Suc.prems(3) by simp
  ultimately have fc: "f (c + 1) = maybeHandleValue (data nt (di + 1)) iv nv h"
    by simp
  show ?case
  proof (cases "f (c + 1) = v")
    case False
    then have "getRange_inner nt iv nv h v di c = Inl c"
      using nz fc by (subst getRange_inner.simps) (simp add: Let_def and_15_eq_mod)
    then show ?thesis using False lt by auto
  next
    case True
    then have e: "getRange_inner nt iv nv h v di c = getRange_inner nt iv nv h v (di + 1) (c + 1)"
      using nz fc by (subst getRange_inner.simps) (simp add: Let_def and_15_eq_mod)
    have IH: "case getRange_inner nt iv nv h v (di + 1) (c + 1) of
           Inl e \<Rightarrow> c + 1 \<le> e \<and> e + 1 < 16 * i + 16 \<and>
                    (\<forall>x. c + 1 < x \<and> x \<le> e \<longrightarrow> f x = v) \<and> f (e + 1) \<noteq> v
         | Inr c' \<Rightarrow> c' = 16 * i + 16 \<and> (\<forall>x. c + 1 < x \<and> x < c' \<longrightarrow> f x = v)"
      by (rule Suc.hyps(1)) (use Suc.hyps(2) Suc.prems lt in simp_all)
    have one: "f x = v" if "c < x" "x \<le> c + 1" for x
    proof -
      have "x = c + 1" using that by simp
      then show ?thesis using True by simp
    qed
    show ?thesis
      unfolding e using IH
    proof (cases "getRange_inner nt iv nv h v (di + 1) (c + 1)")
      case (Inl e')
      then have I: "c + 1 \<le> e'" "e' + 1 < 16 * i + 16"
        "\<forall>x. c + 1 < x \<and> x \<le> e' \<longrightarrow> f x = v" "f (e' + 1) \<noteq> v"
        using IH by simp_all
      have "\<forall>x. c < x \<and> x \<le> e' \<longrightarrow> f x = v"
      proof (intro allI impI)
        fix x assume x: "c < x \<and> x \<le> e'"
        show "f x = v"
        proof (cases "x \<le> c + 1")
          case True
          then show ?thesis using one x by simp
        next
          case False
          then show ?thesis using I(3) x by simp
        qed
      qed
      then show "case getRange_inner nt iv nv h v (di + 1) (c + 1) of
           Inl e \<Rightarrow> c \<le> e \<and> e + 1 < 16 * i + 16 \<and> (\<forall>x. c < x \<and> x \<le> e \<longrightarrow> f x = v) \<and> f (e + 1) \<noteq> v
         | Inr c' \<Rightarrow> c' = 16 * i + 16 \<and> (\<forall>x. c < x \<and> x < c' \<longrightarrow> f x = v)"
        using Inl I by simp
    next
      case (Inr c')
      then have I: "c' = 16 * i + 16" "\<forall>x. c + 1 < x \<and> x < c' \<longrightarrow> f x = v"
        using IH by simp_all
      have "\<forall>x. c < x \<and> x < c' \<longrightarrow> f x = v"
      proof (intro allI impI)
        fix x assume x: "c < x \<and> x < c'"
        show "f x = v"
        proof (cases "x \<le> c + 1")
          case True
          then show ?thesis using one x by simp
        next
          case False
          then show ?thesis using I(2) x by simp
        qed
      qed
      then show "case getRange_inner nt iv nv h v (di + 1) (c + 1) of
           Inl e \<Rightarrow> c \<le> e \<and> e + 1 < 16 * i + 16 \<and> (\<forall>x. c < x \<and> x \<le> e \<longrightarrow> f x = v) \<and> f (e + 1) \<noteq> v
         | Inr c' \<Rightarrow> c' = 16 * i + 16 \<and> (\<forall>x. c < x \<and> x < c' \<longrightarrow> f x = v)"
        using Inr I by simp
    qed
  qed
qed

lemma builder_inv_readable:
  assumes "builder_inv t"
  shows "readable t"
proof -
  have "uint (index (newTrie t) i) + 16 \<le> UNEWTRIE3_MAX_DATA_LENGTH"
    if "0 \<le> i" "i < highStart t div 16" "flags (newTrie t) i \<noteq> ALL_SAME" for i
  proof -
    have "slot_ok (newTrie t) i" by (rule builder_inv_slot_ok [OF assms that(1,2)])
    then have "uint (index (newTrie t) i) + 16 \<le> dataLength (newTrie t)"
      using that(3) by (simp add: slot_ok_def)
    then show ?thesis using builder_inv_dataLength [OF assms] by simp
  qed
  then show ?thesis using assms unfolding readable_def builder_inv_def by simp
qed

lemma block_below_highStart:
  assumes "readable t" "0 \<le> c" "c < highStart t" "16 * (c div 16) \<le> x" "x < 16 * (c div 16) + 16"
  shows "0 \<le> x" "x < highStart t" "x div 16 = c div 16" "x mod 16 = x - 16 * (c div 16)"
    "c div 16 < highStart t div 16"
proof -
  define i where "i = c div 16"
  have hs: "highStart t mod 16 = 0" using assms(1) unfolding readable_def by simp
  have i0: "0 \<le> i" using assms(2) unfolding i_def by simp
  have "i < highStart t div 16" unfolding i_def by (rule mod16_div_less [OF hs assms(3)])
  then show "c div 16 < highStart t div 16" unfolding i_def .
  then have "i + 1 \<le> highStart t div 16" unfolding i_def by simp
  then have "16 * (i + 1) \<le> highStart t" by (simp add: div16_le_iff)
  then show "x < highStart t" using assms(5) unfolding i_def by simp
  show "0 \<le> x" using assms(4) i0 unfolding i_def by simp
  define k where "k = x - 16 * i"
  have k: "x = 16 * i + k" "0 \<le> k" "k < 16" using assms(4,5) unfolding k_def i_def by simp_all
  then show d: "x div 16 = c div 16" using div16_eq_iff [of x i k] unfolding i_def by simp
  show "x mod 16 = x - 16 * (c div 16)" using k div16_eq_iff [of x i k] unfolding i_def by simp
qed

lemma get_readable:
  assumes "readable t" "0 \<le> c" "c < highStart t"
  shows "utrie3bld_get t c =
           (if flags (newTrie t) (c div 16) = ALL_SAME then index (newTrie t) (c div 16)
            else data (newTrie t) (uint (index (newTrie t) (c div 16)) + c mod 16))"
proof (cases "flags (newTrie t) (c div 16) = ALL_SAME")
  case True
  then show ?thesis using assms unfolding readable_def by (simp add: utrie3bld_get_def Let_def bit_arith)
next
  case False
  have lt: "c div 16 < highStart t div 16"
    by (rule block_below_highStart(5) [OF assms, of c])
       (simp_all add: div16_le_iff [symmetric] div16_less_iff [symmetric])
  have "0 \<le> c div 16" using assms(2) by simp
  then have b: "uint (index (newTrie t) (c div 16)) + 16 \<le> UNEWTRIE3_MAX_DATA_LENGTH"
    using assms(1) lt False unfolding readable_def by blast
  have "uint (index (newTrie t) (c div 16) + word_of_int (c mod 16)) =
        uint (index (newTrie t) (c div 16)) + c mod 16"
    by (rule uint_offset_add) (use b in simp_all)
  then show ?thesis
    using False assms unfolding readable_def by (simp add: utrie3bld_get_def Let_def bit_arith)
qed

lemma getRange_body_spec:
  fixes h :: "(u32 \<Rightarrow> u32) option"
  assumes inv: "readable t" and c: "0 \<le> c" "c < highStart t" and i: "i = c div 16"
    and nv: "nv = (case h of None \<Rightarrow> initialValue t | Some g \<Rightarrow> g (initialValue t))"
    and v0: "v0 = (case value' of None \<Rightarrow> transformed t h c | Some w \<Rightarrow> w)"
  shows "case getRange_body t h nv c value' i of
           Inl (e, pv) \<Rightarrow> pv = Some v0 \<and> c - 1 \<le> e \<and> (value' = None \<longrightarrow> c \<le> e) \<and>
                          e + 1 < 16 * i + 16 \<and>
                          (\<forall>x. c \<le> x \<and> x \<le> e \<longrightarrow> transformed t h x = v0) \<and>
                          transformed t h (e + 1) \<noteq> v0
         | Inr (c', v) \<Rightarrow> v = v0 \<and> c' = 16 * i + 16 \<and>
                          (\<forall>x. c \<le> x \<and> x < c' \<longrightarrow> transformed t h x = v0)"
proof -
  define f where "f = transformed t h"
  define nt where "nt = newTrie t"
  define iv where "iv = initialValue t"
  have fdef: "f x = maybeHandleValue (utrie3bld_get t x) iv nv h" for x
    by (simp add: f_def transformed_def nv iv_def)
  have ci: "16 * i \<le> c" "c < 16 * i + 16" unfolding i by (simp_all add: div16_le_iff [symmetric] div16_less_iff [symmetric])
  have blk: "0 \<le> x \<and> x < highStart t \<and> x div 16 = i \<and> x mod 16 = x - 16 * i"
    if "16 * i \<le> x" "x < 16 * i + 16" for x
    using block_below_highStart [OF inv c, of x] that unfolding i by simp
  have gs: "utrie3bld_get t x =
           (if flags nt i = ALL_SAME then index nt i
            else data nt (uint (index nt i) + (x - 16 * i)))"
    if "16 * i \<le> x" "x < 16 * i + 16" for x
    using get_readable [OF inv, of x] blk [OF that] by (simp add: nt_def)
  have nxt: "(c + 16) AND NOT 15 = 16 * i + 16"
  proof -
    have d: "(c + 16) div 16 = i + 1" unfolding i by simp
    have "(c + 16) AND NOT 15 = 16 * ((c + 16) div 16)" by (rule and_not_15_eq)
    then show ?thesis unfolding d by simp
  qed
  have nxt': "(c + 16) AND - 16 = 16 * i + 16" using nxt by simp
  show ?thesis
  proof (cases "flags nt i = ALL_SAME")
    case True
    have all: "f x = maybeHandleValue (index nt i) iv nv h" if "16 * i \<le> x" "x < 16 * i + 16" for x
      using gs [OF that] True by (simp add: fdef)
    have fc: "f c = maybeHandleValue (index nt i) iv nv h" using all [OF ci] .
    show ?thesis
    proof (cases value')
      case None
      then have "getRange_body t h nv c value' i = Inr (16 * i + 16, f c)"
        using True by (simp add: getRange_body_def Let_def nt_def iv_def nxt' fc)
      then show ?thesis using None v0 all ci fc by (simp add: f_def)
    next
      case (Some w)
      show ?thesis
      proof (cases "f c = w")
        case eq: True
        then have "getRange_body t h nv c value' i = Inr (16 * i + 16, w)"
          using True Some fc by (simp add: getRange_body_def Let_def nt_def iv_def nxt')
        then show ?thesis using Some v0 all ci fc eq by (simp add: f_def)
      next
        case ne: False
        then have "getRange_body t h nv c value' i = Inl (c - 1, Some w)"
          using True Some fc by (simp add: getRange_body_def Let_def nt_def iv_def)
        then show ?thesis using Some v0 ne ci by (auto simp add: f_def)
      qed
    qed
  next
    case False
    have "0 \<le> i" "i < highStart t div 16"
      using c block_below_highStart(5) [OF inv c, of c] ci unfolding i by simp_all
    then have u16: "uint (index nt i) + 16 \<le> UNEWTRIE3_MAX_DATA_LENGTH"
      using inv False unfolding readable_def nt_def by blast
    define r where "r = c - 16 * i"
    have r: "0 \<le> r" "r < 16" "c mod 16 = r" using ci blk [OF ci] by (simp_all add: r_def)
    have "uint (index nt i + word_of_int r) = uint (index nt i) + r"
      by (rule uint_offset_add) (use u16 r in simp_all)
    moreover have "sint (index nt i + word_of_int r) = uint (index nt i + word_of_int r)"
      by (rule sint_uint_small) (use calculation u16 r in simp)
    ultimately have di: "sint (index nt i + word_of_int (c AND UTRIE3_DATA_MASK)) =
        uint (index nt i) + (c - 16 * i)"
      using r by (simp add: and_15_eq_mod r_def)
    define base where "base = uint (index nt i)"
    have fb: "\<forall>x. 16 * i \<le> x \<and> x < 16 * i + 16 \<longrightarrow>
        f x = maybeHandleValue (data nt (base + (x - 16 * i))) iv nv h"
      using gs False by (simp add: fdef base_def)
    have fc: "f c = maybeHandleValue (data nt (base + (c - 16 * i))) iv nv h"
      using fb ci by simp
    note IN = getRange_inner_spec [OF ci refl fb, of v0]
    have body_eq: "getRange_body t h nv c value' i =
        (case value' of
           Some w \<Rightarrow> if f c \<noteq> w then Inl (c - 1, value')
                     else (case getRange_inner nt iv nv h w (base + (c - 16 * i)) c of
                             Inl end' \<Rightarrow> Inl (end', Some w) | Inr c' \<Rightarrow> Inr (c', w))
         | None \<Rightarrow> (case getRange_inner nt iv nv h (f c) (base + (c - 16 * i)) c of
                      Inl end' \<Rightarrow> Inl (end', Some (f c)) | Inr c' \<Rightarrow> Inr (c', f c)))"
      using False
      by (simp add: getRange_body_def Let_def nt_def [symmetric] iv_def [symmetric] di
          base_def [symmetric] fc split: option.splits sum.splits)
    show ?thesis
    proof (cases "value' = None \<or> f c = v0")
      case cont: True
      have fcv: "f c = v0" using cont v0 by (auto simp add: f_def)
      have be: "getRange_body t h nv c value' i =
          (case getRange_inner nt iv nv h v0 (base + (c - 16 * i)) c of
             Inl end' \<Rightarrow> Inl (end', Some v0) | Inr c' \<Rightarrow> Inr (c', v0))"
        unfolding body_eq using fcv v0 by (auto simp add: f_def split: option.splits sum.splits)
      show ?thesis
      proof (cases "getRange_inner nt iv nv h v0 (base + (c - 16 * i)) c")
        case (Inl e)
        then have I: "c \<le> e" "e + 1 < 16 * i + 16" "\<forall>x. c < x \<and> x \<le> e \<longrightarrow> f x = v0"
          "f (e + 1) \<noteq> v0"
          using IN by simp_all
        have "\<forall>x. c \<le> x \<and> x \<le> e \<longrightarrow> f x = v0"
        proof (intro allI impI)
          fix x assume x: "c \<le> x \<and> x \<le> e"
          show "f x = v0"
          proof (cases "x = c")
            case True
            then show ?thesis using fcv by simp
          next
            case False
            then show ?thesis using I(3) x by simp
          qed
        qed
        then show ?thesis unfolding be using Inl I by (simp add: f_def)
      next
        case (Inr c')
        then have I: "c' = 16 * i + 16" "\<forall>x. c < x \<and> x < c' \<longrightarrow> f x = v0"
          using IN by simp_all
        have "\<forall>x. c \<le> x \<and> x < c' \<longrightarrow> f x = v0"
        proof (intro allI impI)
          fix x assume x: "c \<le> x \<and> x < c'"
          show "f x = v0"
          proof (cases "x = c")
            case True
            then show ?thesis using fcv by simp
          next
            case False
            then show ?thesis using I(2) x by simp
          qed
        qed
        then show ?thesis unfolding be using Inr I by (simp add: f_def)
      qed
    next
      case stop: False
      then obtain w where w: "value' = Some w" "f c \<noteq> w" using v0 by (cases value') auto
      then have "getRange_body t h nv c value' i = Inl (c - 1, Some w)"
        unfolding body_eq by simp
      then show ?thesis using w v0 ci by (auto simp add: f_def)
    qed
  qed
qed

lemma getRange_loop_spec:
  fixes h :: "(u32 \<Rightarrow> u32) option"
  assumes inv: "readable t"
    and nv: "nv = (case h of None \<Rightarrow> initialValue t | Some g \<Rightarrow> g (initialValue t))"
    and "0 \<le> start" "start \<le> c" "c < highStart t" "i = c div 16"
    and "case value' of None \<Rightarrow> c = start
         | Some w \<Rightarrow> start < c \<and> (\<forall>x. start \<le> x \<and> x < c \<longrightarrow> transformed t h x = w)"
    and "getRange_loop t h nv c value' i = (e, pv)"
  shows "start \<le> e \<and> e \<le> MAX_UNICODE \<and> pv = Some (transformed t h start) \<and>
         (\<forall>x. start \<le> x \<and> x \<le> e \<longrightarrow> transformed t h x = transformed t h start) \<and>
         (e = MAX_UNICODE \<or> transformed t h (e + 1) \<noteq> transformed t h start)"
  using assms(4-8)
proof (induction "nat (highStart t - c)" arbitrary: c value' i rule: less_induct)
  case less
  define f where "f = transformed t h"
  define v0 where "v0 = (case value' of None \<Rightarrow> f c | Some w \<Rightarrow> w)"
  have c0: "0 \<le> c" using assms(3) less.prems(1) by simp
  have hs: "highStart t \<le> UNICODE_LIMIT" using inv unfolding readable_def by simp
  have pre: "\<forall>x. start \<le> x \<and> x < c \<longrightarrow> f x = v0"
    using less.prems(4) unfolding v0_def f_def by (cases value') auto
  have vs: "v0 = f start"
  proof (cases value')
    case None
    then show ?thesis using less.prems(4) by (simp add: v0_def)
  next
    case (Some w)
    then have "start < c" "f start = w" using less.prems(4) by (simp_all add: f_def)
    then show ?thesis using Some by (simp add: v0_def)
  qed
  note B = getRange_body_spec [OF inv c0 less.prems(2,3) nv v0_def [unfolded f_def], of]
  have blk: "16 * i + 16 \<le> highStart t"
  proof -
    have "i < highStart t div 16"
      using block_below_highStart(5) [OF inv c0 less.prems(2), of c] less.prems(3)
      by (simp add: div16_le_iff [symmetric] div16_less_iff [symmetric])
    then have "i + 1 \<le> highStart t div 16" by simp
    then have "16 * (i + 1) \<le> highStart t" by (simp add: div16_le_iff)
    then show ?thesis by simp
  qed
  have ci: "16 * i \<le> c" "c < 16 * i + 16"
    unfolding less.prems(3) by (simp_all add: div16_le_iff [symmetric] div16_less_iff [symmetric])
  have fin_rule: "start \<le> e \<Longrightarrow> e \<le> MAX_UNICODE \<Longrightarrow> pv = Some v0 \<Longrightarrow>
      \<forall>x. start \<le> x \<and> x \<le> e \<longrightarrow> f x = v0 \<Longrightarrow> e = MAX_UNICODE \<or> f (e + 1) \<noteq> v0 \<Longrightarrow>
      start \<le> e \<and> e \<le> MAX_UNICODE \<and> pv = Some (transformed t h start) \<and>
      (\<forall>x. start \<le> x \<and> x \<le> e \<longrightarrow> transformed t h x = transformed t h start) \<and>
      (e = MAX_UNICODE \<or> transformed t h (e + 1) \<noteq> transformed t h start)"
    unfolding vs f_def by blast
  show ?case
  proof (cases "getRange_body t h nv c value' i")
    case (Inl r)
    obtain e1 pv1 where r: "r = (e1, pv1)" by (cases r)
    have I: "pv1 = Some v0" "c - 1 \<le> e1" "value' = None \<longrightarrow> c \<le> e1" "e1 + 1 < 16 * i + 16"
      "\<forall>x. c \<le> x \<and> x \<le> e1 \<longrightarrow> f x = v0" "f (e1 + 1) \<noteq> v0"
      using B Inl r by (simp_all add: f_def)
    have res: "e = e1" "pv = pv1"
      using less.prems(5) Inl r by (subst (asm) getRange_loop.simps, simp)+
    have se: "start \<le> e1"
    proof (cases value')
      case None
      then show ?thesis using I(3) less.prems(4) by simp
    next
      case (Some w)
      then show ?thesis using I(2) less.prems(4) by simp
    qed
    have all: "\<forall>x. start \<le> x \<and> x \<le> e1 \<longrightarrow> f x = v0"
    proof (intro allI impI)
      fix x assume x: "start \<le> x \<and> x \<le> e1"
      show "f x = v0"
      proof (cases "x < c")
        case True
        then show ?thesis using pre x by simp
      next
        case False
        then show ?thesis using I(5) x by simp
      qed
    qed
    have le: "e1 \<le> MAX_UNICODE" using I(4) blk hs by simp
    show ?thesis
      by (rule fin_rule) (use res se le all I(1,6) in simp_all)
  next
    case (Inr r)
    obtain c' v where r: "r = (c', v)" by (cases r)
    have I: "v = v0" "c' = 16 * i + 16" "\<forall>x. c \<le> x \<and> x < c' \<longrightarrow> f x = v0"
      using B Inr r by (simp_all add: f_def)
    have all: "\<forall>x. start \<le> x \<and> x < c' \<longrightarrow> f x = v0"
    proof (intro allI impI)
      fix x assume x: "start \<le> x \<and> x < c'"
      show "f x = v0"
      proof (cases "x < c")
        case True
        then show ?thesis using pre x by simp
      next
        case False
        then show ?thesis using I(3) x by simp
      qed
    qed
    have cc: "c < c'" using I(2) ci by simp
    show ?thesis
    proof (cases "c' < highStart t")
      case True
      have step: "getRange_loop t h nv c' (Some v0) (i + 1) = (e, pv)"
        using less.prems(5) Inr r True I(1) by (subst (asm) getRange_loop.simps) simp
      have i1: "i + 1 = c' div 16" unfolding I(2) by simp
      have m: "nat (highStart t - c') < nat (highStart t - c)" using cc True by simp
      have p4: "case Some v0 of None \<Rightarrow> c' = start
         | Some w \<Rightarrow> start < c' \<and> (\<forall>x. start \<le> x \<and> x < c' \<longrightarrow> transformed t h x = w)"
        using all cc less.prems(1) by (simp add: f_def)
      show ?thesis
        by (rule less.hyps [OF m _ True i1 p4 step]) (use cc less.prems(1) in simp)
    next
      case False
      then have ch: "c' = highStart t" using blk I(2) by simp
      define hvv where "hvv = maybeHandleValue (highValue t) (initialValue t) nv h"
      have high: "f x = hvv" if "highStart t \<le> x" "x \<le> MAX_UNICODE" for x
      proof -
        have "0 \<le> x" using that c0 less.prems(2) by simp
        then have "utrie3bld_get t x = highValue t" using that by (simp add: utrie3bld_get_def)
        then show ?thesis by (simp add: f_def transformed_def nv hvv_def)
      qed
      have fin: "(e, pv) = (if hvv \<noteq> v0 then (c' - 1, Some v0) else (MAX_UNICODE, Some v0))"
        using less.prems(5) Inr r False I(1)
        by (subst (asm) getRange_loop.simps) (simp add: hvv_def)
      show ?thesis
      proof (cases "hvv = v0")
        case True
        then have res: "e = MAX_UNICODE" "pv = Some v0" using fin by simp_all
        have a: "\<forall>x. start \<le> x \<and> x \<le> MAX_UNICODE \<longrightarrow> f x = v0"
        proof (intro allI impI)
          fix x assume x: "start \<le> x \<and> x \<le> MAX_UNICODE"
          show "f x = v0"
          proof (cases "x < c'")
            case True
            then show ?thesis using all x by simp
          next
            case False
            then show ?thesis using high [of x] x ch \<open>hvv = v0\<close> by simp
          qed
        qed
        have se: "start \<le> MAX_UNICODE" using less.prems(1,2) hs by simp
        show ?thesis
          by (rule fin_rule) (use res se a in simp_all)
      next
        case False
        then have res: "e = c' - 1" "pv = Some v0" using fin by simp_all
        have a: "\<forall>x. start \<le> x \<and> x \<le> c' - 1 \<longrightarrow> f x = v0" using all by simp
        have b: "c' - 1 = MAX_UNICODE \<or> f (c' - 1 + 1) \<noteq> v0"
        proof (cases "highStart t \<le> MAX_UNICODE")
          case True
          then show ?thesis using high [of c'] ch False by simp
        next
          case False
          then show ?thesis using hs ch by simp
        qed
        have se: "start \<le> c' - 1" "c' - 1 \<le> MAX_UNICODE" using cc less.prems(1) hs ch by simp_all
        show ?thesis
          by (rule fin_rule) (use res se a b in simp_all)
      qed
    qed
  qed
qed

section \<open>The claim about the ranges of equal values\<close>

text \<open>
  C3: for every mutable trie and every \<open>start\<close> in \<open>[0, 0x10FFFF]\<close>, \<^verbatim>\<open>utrie3bld_getRange\<close>
  returns an \<open>end\<close>, with \<open>start \<le> end \<le> 0x10FFFF\<close>, such that the transformed values of
  all code points in \<open>[start, end]\<close> are equal, and either \<open>end = 0x10FFFF\<close> or the transformed
  value at \<open>end + 1\<close> differs from that at \<open>start\<close>; what it writes to \<^verbatim>\<open>*pValue\<close> is the
  transformed value at \<open>start\<close>. The transformed value of a code point is
  \<open>transformed\<close>: the value \<^verbatim>\<open>utrie3bld_get\<close> returns, replaced by
  \<open>nullValue = handleValue(initialValue)\<close> when it equals \<open>initialValue\<close> and passed through
  \<open>handleValue\<close> otherwise. The trie is any state of the struct that is \<open>readable\<close>:
  \<open>highStart\<close> is a multiple of the block length and at most \<open>0x110000\<close>, and the slots
  below it that are not ALL_SAME hold offsets of whole blocks within the largest block store,
  so that the \<^verbatim>\<open>int32_t di\<close> of this function and the \<^verbatim>\<open>uint32_t\<close> sum of \<^verbatim>\<open>utrie3bld_get\<close>
  address the same entry. Nothing is assumed about how the state came about, about its
  flags other than ALL_SAME, or about the values it stores; every trie that
  \<^verbatim>\<open>utrie3bld_open\<close>, \<^verbatim>\<open>utrie3bld_set\<close> and \<^verbatim>\<open>utrie3bld_setRange\<close> build is readable
  (\<open>builder_inv_readable\<close> with \<open>build_any\<close>).
\<close>

theorem getRange_maximal_run:
  assumes "readable t" and "0 \<le> start" and "start \<le> MAX_UNICODE"
  shows "\<exists>end'. utrie3bld_getRange t start handleValue
                   = (end', Some (transformed t handleValue start)) \<and>
           start \<le> end' \<and> end' \<le> MAX_UNICODE \<and>
           (\<forall>c. start \<le> c \<and> c \<le> end' \<longrightarrow>
                transformed t handleValue c = transformed t handleValue start) \<and>
           (end' = MAX_UNICODE \<or>
            transformed t handleValue (end' + 1) \<noteq> transformed t handleValue start)"
proof (cases "start \<ge> highStart t")
  case True
  have g: "utrie3bld_get t c = highValue t" if "start \<le> c" "c \<le> MAX_UNICODE" for c
    using that True assms(2) by (simp add: utrie3bld_get_def)
  have tr: "transformed t handleValue c
            = (case handleValue of None \<Rightarrow> highValue t | Some h \<Rightarrow> h (highValue t))"
    if "start \<le> c" "c \<le> MAX_UNICODE" for c
    unfolding transformed_def g [OF that] maybeHandleValue_def
    by (simp split: option.splits)
  have r: "utrie3bld_getRange t start handleValue
           = (MAX_UNICODE, Some (transformed t handleValue start))"
    using True assms(2,3) tr [of start] by (simp add: utrie3bld_getRange_def)
  have a: "\<forall>c. start \<le> c \<and> c \<le> MAX_UNICODE \<longrightarrow>
             transformed t handleValue c = transformed t handleValue start"
    using tr assms(3) by simp
  show ?thesis
    by (rule exI [of _ MAX_UNICODE]) (use r a assms(3) in blast)
next
  case False
  define nv where "nv = (case handleValue of None \<Rightarrow> initialValue t | Some g \<Rightarrow> g (initialValue t))"
  obtain e pv where l: "getRange_loop t handleValue nv start None (start div 16) = (e, pv)"
    by (cases "getRange_loop t handleValue nv start None (start div 16)")
  have r: "utrie3bld_getRange t start handleValue = (e, pv)"
    using False assms(2,3) l
    by (simp add: utrie3bld_getRange_def nv_def drop_bit_eq_div)
  have lt: "start < highStart t" using False by simp
  have p: "case None of None \<Rightarrow> start = start
           | Some w \<Rightarrow> start < start \<and>
               (\<forall>x. start \<le> x \<and> x < start \<longrightarrow> transformed t handleValue x = w)"
    by simp
  note S = getRange_loop_spec [OF assms(1) nv_def assms(2) order_refl lt refl p l]
  show ?thesis
    by (rule exI [of _ e]) (use r S in blast)
qed

theorem getRange_maximal_run_witness:
  "\<exists>e t. build (Some blank_builder) no_memory 5 0xBAD [Set 0x41 7, Set 0x42 7] = Some (e, t) \<and>
     readable t \<and>
     utrie3bld_getRange t 0x41 (Some (\<lambda>v. v + 1)) = (0x42, Some 8) \<and>
     transformed t (Some (\<lambda>v. v + 1)) 0x41 = 8 \<and>
     transformed t (Some (\<lambda>v. v + 1)) 0x42 = 8 \<and>
     transformed t (Some (\<lambda>v. v + 1)) 0x43 = 6 \<and>
     utrie3bld_getRange t 0x43 (Some (\<lambda>v. v + 1)) = (0x10FFFF, Some 6)"
proof -
  let ?b = "build (Some blank_builder) no_memory 5 0xBAD [Set 0x41 7, Set 0x42 7]"
  let ?h = "Some (\<lambda>v :: u32. v + 1)"
  have "?b \<noteq> None" by code_simp
  then obtain e t where b: "?b = Some (e, t)" by (cases ?b) auto
  have rd: "readable t" by (rule builder_inv_readable [OF build_any(1) [OF b]])
  have "utrie3bld_getRange (snd (the ?b)) 0x41 ?h = (0x42, Some 8)"
    "utrie3bld_getRange (snd (the ?b)) 0x43 ?h = (0x10FFFF, Some 6)"
    "transformed (snd (the ?b)) ?h 0x41 = 8"
    "transformed (snd (the ?b)) ?h 0x42 = 8"
    "transformed (snd (the ?b)) ?h 0x43 = 6"
    by code_simp+
  then have v: "utrie3bld_getRange t 0x41 ?h = (0x42, Some 8)"
    "utrie3bld_getRange t 0x43 ?h = (0x10FFFF, Some 6)"
    "transformed t ?h 0x41 = 8" "transformed t ?h 0x42 = 8" "transformed t ?h 0x43 = 6"
    using b by simp_all
  show ?thesis
    using getRange_maximal_run [OF rd, of "0x41" ?h] b rd v by auto
qed

end
